(* ===== verification/Moc_Prelude.thy ===== *)
theory Moc_Prelude
  imports Main "HOL-Library.Word" "HOL-Library.Monad_Syntax"
begin

text \<open>
  The prelude of the development: the names of the model's basic types, the collections of
  rewrite rules the component proofs share, network byte order, and bounds-checked access to
  raw memory.

  A C byte is a \<open>char\<close> (eight bits in HOL), so byte buffers and C strings are both
  \<open>string\<close>. A pointer is an \<open>addr option\<close> with \<open>None\<close> for \<open>NULL\<close>. A block of memory is
  the list of its bytes; an access outside the block, which is undefined behaviour in C, is
  \<open>None\<close> in the model.
\<close>

unbundle bit_operations_syntax

type_synonym byte = char
type_synonym bytes = string
type_synonym u16 = "16 word"
type_synonym u32 = "32 word"
type_synonym u64 = "64 word"
type_synonym addr = nat

named_theorems mem_simps \<open>reading and writing raw memory\<close>
named_theorems rep_simps \<open>representation predicates of linked structures\<close>

abbreviation NUL :: byte where
  "NUL \<equiv> CHR 0x00"

section \<open>Option and list lemmas\<close>

lemma bind_Some_conv [simp]:
  "(Option.bind m f = Some y) \<longleftrightarrow> (\<exists>x. m = Some x \<and> f x = Some y)"
  by (cases m) auto

lemma last_append_single [simp]: "last (xs @ [x]) = x"
  by simp

lemma take_length_append [mem_simps]: "n = length xs \<Longrightarrow> take n (xs @ ys) = xs"
  by simp

lemma drop_length_append [mem_simps]: "n = length xs \<Longrightarrow> drop n (xs @ ys) = ys"
  by simp

lemma takeWhile_stop: "\<forall>x\<in>set xs. P x \<Longrightarrow> \<not> P y \<Longrightarrow> takeWhile P (xs @ y # ys) = xs"
  by (induction xs) auto

lemma list_all_length_filter: "list_all P xs \<Longrightarrow> filter P xs = xs"
  by (induction xs) auto

lemma distinct_split_unique:
  "distinct (map f zs) \<Longrightarrow> zs = xs @ x # ys \<Longrightarrow> zs = xs' @ x' # ys' \<Longrightarrow> f x = f x' \<Longrightarrow> xs = xs' \<and> x = x' \<and> ys = ys'"
proof (induction xs arbitrary: xs' zs)
  case Nil
  then show ?case by (cases xs') (auto simp: image_iff)
next
  case (Cons a as)
  then show ?case by (cases xs') (auto simp: image_iff)
qed

section \<open>Network byte order\<close>

text \<open>
  \<open>be32 w\<close> is the four bytes in memory after \<open>* (uint32_t *) p = htonl(w)\<close>; \<open>ntohl\<close> reads
  them back. On either endianness of the host the pair is big-endian.
\<close>

definition be32 :: "u32 \<Rightarrow> bytes" where
  "be32 w = (let n = unat w in
     [char_of (n div 16777216), char_of (n div 65536), char_of (n div 256), char_of n])"

definition be16 :: "u16 \<Rightarrow> bytes" where
  "be16 w = (let n = unat w in [char_of (n div 256), char_of n])"

fun ntohl :: "bytes \<Rightarrow> u32" where
  "ntohl [a, b, c, d] =
     of_nat (of_char a * 16777216 + of_char b * 65536 + of_char c * 256 + of_char d)"
| "ntohl _ = 0"

fun ntohs :: "bytes \<Rightarrow> u16" where
  "ntohs [a, b] = of_nat (of_char a * 256 + of_char b)"
| "ntohs _ = 0"

lemma length_be32 [simp]: "length (be32 w) = 4"
  by (simp add: be32_def Let_def)

lemma length_be16 [simp]: "length (be16 w) = 2"
  by (simp add: be16_def Let_def)

lemma unat_u32_less: "unat (w :: u32) < 4294967296"
  using unsigned_less [of w] by simp

lemma unat_u16_less: "unat (w :: u16) < 65536"
  using unsigned_less [of w] by simp

lemma digits_256_4:
  "(n :: nat) div 16777216 * 16777216 + (n div 65536) mod 256 * 65536
     + (n div 256) mod 256 * 256 + n mod 256 = n"
proof -
  have b: "n div 65536 = 256 * (n div 16777216) + (n div 65536) mod 256"
    using div_mult2_eq [of n 65536 256] by simp
  have c: "n div 256 = 256 * (n div 65536) + (n div 256) mod 256"
    using div_mult2_eq [of n 256 256] by simp
  have d: "n = 256 * (n div 256) + n mod 256" by simp
  show ?thesis using b c d by linarith
qed

lemma ntohl_be32 [simp]: "ntohl (be32 w) = w"
proof -
  have "unat w div 16777216 mod 256 = unat w div 16777216"
    using unat_u32_less [of w] by (simp add: less_mult_imp_div_less)
  then show ?thesis
    by (simp only: be32_def Let_def ntohl.simps of_char_of digits_256_4 of_nat_unat ucast_id)
qed

lemma ntohs_be16 [simp]: "ntohs (be16 w) = w"
proof -
  have "unat w div 256 mod 256 * 256 + unat w mod 256 = unat w"
    using unat_u16_less [of w] by (simp add: less_mult_imp_div_less)
  then show ?thesis
    by (simp add: be16_def Let_def flip: of_nat_mult of_nat_add)
qed

lemma be32_inject [simp]: "be32 v = be32 w \<longleftrightarrow> v = w"
  by (metis ntohl_be32)

section \<open>Raw memory\<close>

text \<open>
  \<open>rd32 m off\<close> is \<open>ntohl(* (uint32_t *) (m + off))\<close>, \<open>rdcstr m off\<close> the C string at
  \<open>m + off\<close> and \<open>wr m off bs\<close> is \<open>memcpy(m + off, bs, length bs)\<close>, each \<open>None\<close> when it
  touches a byte outside the block.
\<close>

definition rd32 :: "bytes \<Rightarrow> nat \<Rightarrow> u32 option" where
  "rd32 m off = (if off + 4 \<le> length m then Some (ntohl (take 4 (drop off m))) else None)"

definition rd16 :: "bytes \<Rightarrow> nat \<Rightarrow> u16 option" where
  "rd16 m off = (if off + 2 \<le> length m then Some (ntohs (take 2 (drop off m))) else None)"

definition rdcstr :: "bytes \<Rightarrow> nat \<Rightarrow> string option" where
  "rdcstr m off =
     (if NUL \<in> set (drop off m) then Some (takeWhile (\<lambda>c. c \<noteq> NUL) (drop off m)) else None)"

definition rdn :: "bytes \<Rightarrow> nat \<Rightarrow> nat \<Rightarrow> bytes option" where
  "rdn m off n = (if off + n \<le> length m then Some (take n (drop off m)) else None)"

definition wr :: "bytes \<Rightarrow> nat \<Rightarrow> bytes \<Rightarrow> bytes option" where
  "wr m off bs =
     (if off + length bs \<le> length m then Some (take off m @ bs @ drop (off + length bs) m)
      else None)"

lemma rd32_at [mem_simps]: "off = length xs \<Longrightarrow> rd32 (xs @ be32 w @ ys) off = Some w"
  by (simp add: rd32_def)

lemma rd32_at0 [mem_simps]: "rd32 (be32 w @ ys) 0 = Some w"
  by (simp add: rd32_def)

lemma rd16_at [mem_simps]: "off = length xs \<Longrightarrow> rd16 (xs @ be16 w @ ys) off = Some w"
  by (simp add: rd16_def)

lemma rdn_at [mem_simps]:
  "off = length xs \<Longrightarrow> n = length bs \<Longrightarrow> rdn (xs @ bs @ ys) off n = Some bs"
  by (simp add: rdn_def)

lemma rdcstr_at [mem_simps]:
  "off = length xs \<Longrightarrow> NUL \<notin> set s \<Longrightarrow> rdcstr (xs @ s @ NUL # ys) off = Some s"
  by (auto simp: rdcstr_def intro: takeWhile_stop)

lemma rd32_prefix: "off + 4 \<le> n \<Longrightarrow> n \<le> length m \<Longrightarrow> rd32 (take n m) off = rd32 m off"
  by (simp add: rd32_def drop_take min_def)

lemma rdn_prefix: "off + k \<le> n \<Longrightarrow> n \<le> length m \<Longrightarrow> rdn (take n m) off k = rdn m off k"
  by (simp add: rdn_def drop_take min_def)

lemma length_wr: "wr m off bs = Some m' \<Longrightarrow> length m' = length m"
  by (auto simp: wr_def split: if_splits)

lemma wr_at [mem_simps]:
  "off = length xs \<Longrightarrow> length bs = length ys \<Longrightarrow> wr (xs @ ys @ zs) off bs = Some (xs @ bs @ zs)"
  by (simp add: wr_def)

section \<open>Computations in \<open>int\<close>\<close>

text \<open>
  Where a nonnegative C \<open>int\<close> may pass its maximum, which is undefined in C, the model computes it as a
  natural number and tests it: \<open>None\<close> is the overflow.
\<close>

definition INT_MAX :: nat where
  "INT_MAX = 2 ^ 31 - 1"

definition c_int :: "nat \<Rightarrow> nat option" where
  "c_int n = (if n \<le> INT_MAX then Some n else None)"

lemma c_int_simps [simp]: "n \<le> INT_MAX \<Longrightarrow> c_int n = Some n" "INT_MAX < n \<Longrightarrow> c_int n = None"
  by (simp_all add: c_int_def)

lemma c_int_eq_Some [simp]: "c_int n = Some m \<longleftrightarrow> m = n \<and> n \<le> INT_MAX"
  by (auto simp: c_int_def)

section \<open>Runs and simulation\<close>

text \<open>
  \<open>run_ops step ops s\<close> performs a sequence of operations, collects the results, and is \<open>None\<close>
  as soon as one of them is undefined. \<open>run_ok\<close> asks for an environment condition (such as
  "the allocator returned a free block") at every state of the run.
\<close>

fun run_ops :: "('op \<Rightarrow> 's \<Rightarrow> ('r \<times> 's) option) \<Rightarrow> 'op list \<Rightarrow> 's \<Rightarrow> ('r list \<times> 's) option" where
  "run_ops step [] s = Some ([], s)"
| "run_ops step (x # xs) s = do {
     (r, s') \<leftarrow> step x s;
     (rs, s'') \<leftarrow> run_ops step xs s';
     Some (r # rs, s'') }"

fun run_ok :: "('op \<Rightarrow> 's \<Rightarrow> ('r \<times> 's) option) \<Rightarrow> ('op \<Rightarrow> 's \<Rightarrow> bool) \<Rightarrow> 'op list \<Rightarrow> 's \<Rightarrow> bool" where
  "run_ok step env [] s = True"
| "run_ok step env (x # xs) s =
     (env x s \<and> (case step x s of None \<Rightarrow> True | Some (r, s') \<Rightarrow> run_ok step env xs s'))"

locale simulation =
  fixes step :: "'op \<Rightarrow> 's \<Rightarrow> ('r \<times> 's) option"
    and spec :: "'op \<Rightarrow> 'a \<Rightarrow> ('r \<times> 'a) option"
    and rep :: "'s \<Rightarrow> 'a \<Rightarrow> bool"
    and env :: "'op \<Rightarrow> 's \<Rightarrow> bool"
  assumes step_sim: "rep s a \<Longrightarrow> env x s \<Longrightarrow> spec x a = Some (r, a') \<Longrightarrow>
    \<exists>s'. step x s = Some (r, s') \<and> rep s' a'"
begin

text \<open>Wherever the specification's run is defined, so is the implementation's, with equal results.\<close>

lemma run_sim:
  assumes "rep s a" "run_ok step env ops s" "run_ops spec ops a = Some (rs, a')"
  shows "\<exists>s'. run_ops step ops s = Some (rs, s') \<and> rep s' a'"
  using assms
proof (induction ops arbitrary: s a rs)
  case Nil
  then show ?case by simp
next
  case (Cons x xs)
  then obtain r a1 rs1 where x: "spec x a = Some (r, a1)" "run_ops spec xs a1 = Some (rs1, a')"
    "rs = r # rs1" by (auto split: prod.splits)
  with Cons.prems step_sim obtain s1 where s1: "step x s = Some (r, s1)" "rep s1 a1"
    by (metis run_ok.simps(2))
  with Cons.prems have "run_ok step env xs s1" by simp
  with Cons.IH [OF s1(2) _ x(2)] s1 x show ?case by auto
qed

end

text \<open>
  The exact form: the implementation is also undefined where the specification is, so every run of
  the implementation is a run of the specification.
\<close>

locale bisimulation = simulation +
  assumes step_undef: "rep s a \<Longrightarrow> env x s \<Longrightarrow> spec x a = None \<Longrightarrow> step x s = None"
begin

lemma run_bisim:
  assumes "rep s a" "run_ok step env ops s" "run_ops step ops s = Some (rs, s')"
  shows "\<exists>a'. run_ops spec ops a = Some (rs, a') \<and> rep s' a'"
  using assms
proof (induction ops arbitrary: s a rs)
  case Nil
  then show ?case by simp
next
  case (Cons x xs)
  then obtain r s1 rs1 where x: "step x s = Some (r, s1)" "run_ops step xs s1 = Some (rs1, s')"
    "rs = r # rs1" by (auto split: prod.splits)
  with Cons.prems step_undef obtain r' a1 where a1: "spec x a = Some (r', a1)" by fastforce
  with Cons.prems x step_sim have rep1: "r' = r" "rep s1 a1" by fastforce+
  have "run_ok step env xs s1" using Cons.prems x by simp
  with Cons.IH [OF rep1(2) _ x(2)] a1 rep1 x show ?case by auto
qed

text \<open>A run of the implementation is undefined exactly where the specification's is.\<close>

lemma run_exact:
  assumes "rep s a" "run_ok step env ops s"
  shows "case run_ops spec ops a of
      None \<Rightarrow> run_ops step ops s = None
    | Some (rs, a') \<Rightarrow> \<exists>s'. run_ops step ops s = Some (rs, s') \<and> rep s' a'"
proof (cases "run_ops spec ops a")
  case None
  then have "run_ops step ops s = None" using run_bisim [OF assms] by (cases "run_ops step ops s") fastforce+
  then show ?thesis using None by simp
next
  case (Some x)
  then show ?thesis using run_sim [OF assms] by (cases x) simp
qed

end

lemma run_ops_append:
  "run_ops step (xs @ ys) s = do {
     (rs, s') \<leftarrow> run_ops step xs s;
     (rs', s'') \<leftarrow> run_ops step ys s';
     Some (rs @ rs', s'') }"
  by (induction xs arbitrary: s) (auto split: prod.splits bind_splits)

lemma run_ok_prefix: "run_ok step env (xs @ ys) s \<Longrightarrow> run_ok step env xs s"
  by (induction xs arbitrary: s) (auto split: option.splits prod.splits)

end
