(* ===== verification/Cstring.thy ===== *)
theory Cstring
  imports Moc_Prelude
begin

text \<open>
  What the program uses of the C library on strings: the character classes of the C locale,
  decimal printing (\<open>%d\<close>, \<open>%lld\<close> and a padded width) and decimal reading (\<open>strtoll\<close>,
  \<open>strtol\<close>, \<open>atoi\<close>) with its clamping, \<open>strchr\<close>-style splitting. A string is the list of its
  characters before the terminating NUL.
\<close>

section \<open>Character classes\<close>

abbreviation code_of :: "char \<Rightarrow> nat" where
  "code_of c \<equiv> of_char c"

definition isspace :: "char \<Rightarrow> bool" where
  "isspace c \<longleftrightarrow> code_of c = 32 \<or> (9 \<le> code_of c \<and> code_of c \<le> 13)"

definition isdigit :: "char \<Rightarrow> bool" where
  "isdigit c \<longleftrightarrow> 48 \<le> code_of c \<and> code_of c \<le> 57"

definition isalpha :: "char \<Rightarrow> bool" where
  "isalpha c \<longleftrightarrow> (65 \<le> code_of c \<and> code_of c \<le> 90) \<or> (97 \<le> code_of c \<and> code_of c \<le> 122)"

definition isalnum :: "char \<Rightarrow> bool" where
  "isalnum c \<longleftrightarrow> isalpha c \<or> isdigit c"

definition tolower :: "char \<Rightarrow> char" where
  "tolower c = (if 65 \<le> code_of c \<and> code_of c \<le> 90 then char_of (code_of c + 32) else c)"

lemma digit_char [simp]: "d < (10 :: nat) \<Longrightarrow> code_of (char_of (48 + d)) = 48 + d"
  by simp

lemma isdigit_char [simp]: "d < (10 :: nat) \<Longrightarrow> isdigit (char_of (48 + d))"
  by (simp add: isdigit_def)

lemma space_not_digit: "isspace c \<Longrightarrow> \<not> isdigit c"
  by (auto simp: isspace_def isdigit_def)

section \<open>Decimal printing\<close>

fun show_nat :: "nat \<Rightarrow> string" where
  "show_nat n = (if n < 10 then [char_of (48 + n)] else show_nat (n div 10) @ [char_of (48 + n mod 10)])"

declare show_nat.simps [simp del]

definition show_int :: "int \<Rightarrow> string" where
  "show_int i = (if i < 0 then CHR ''-'' # show_nat (nat (- i)) else show_nat (nat i))"

definition pad_left :: "nat \<Rightarrow> string \<Rightarrow> string" where
  "pad_left w s = replicate (w - length s) (CHR '' '') @ s"

lemma show_nat_digits: "list_all isdigit (show_nat n)"
proof (induction n rule: show_nat.induct)
  case (1 n)
  then show ?case
    by (subst show_nat.simps) (simp add: list_all_append)
qed

lemma show_nat_nonempty [simp]: "show_nat n \<noteq> []"
  by (subst show_nat.simps) simp

lemma show_nat_nul: "NUL \<notin> set (show_nat n)"
  using show_nat_digits [of n] by (auto simp: list_all_iff isdigit_def)

lemma show_int_nul: "NUL \<notin> set (show_int n)"
  using show_nat_nul by (auto simp: show_int_def)

lemma show_nat_length: "n < 10 ^ k \<Longrightarrow> 0 < k \<Longrightarrow> length (show_nat n) \<le> k"
proof (induction n arbitrary: k rule: show_nat.induct)
  case (1 n)
  show ?case
  proof (cases "n < 10")
    case True
    with 1 show ?thesis by (subst show_nat.simps) simp
  next
    case False
    then obtain k' where k': "k = Suc k'" "0 < k'"
      using 1(2,3) by (cases k; cases "k - 1") auto
    then have "n div 10 < 10 ^ k'" using 1(2) by (simp add: less_mult_imp_div_less mult.commute)
    with 1(1) [OF False this k'(2)] k' False show ?thesis
      by (subst show_nat.simps) simp
  qed
qed

section \<open>Decimal reading\<close>

primrec dec_value :: "nat \<Rightarrow> string \<Rightarrow> nat" where
  "dec_value acc [] = acc"
| "dec_value acc (c # cs) = dec_value (10 * acc + (code_of c - 48)) cs"

definition read_digits :: "string \<Rightarrow> nat" where
  "read_digits s = dec_value 0 (takeWhile isdigit s)"

definition read_dec :: "string \<Rightarrow> int" where
  "read_dec s = (case dropWhile isspace s of
     [] \<Rightarrow> 0
   | c # cs \<Rightarrow> if c = CHR ''-'' then - int (read_digits cs)
               else if c = CHR ''+'' then int (read_digits cs)
               else int (read_digits (c # cs)))"

abbreviation LLONG_MAX :: int where "LLONG_MAX \<equiv> 9223372036854775807"
abbreviation LLONG_MIN :: int where "LLONG_MIN \<equiv> -9223372036854775808"

definition clamp64 :: "int \<Rightarrow> int" where
  "clamp64 i = max LLONG_MIN (min LLONG_MAX i)"

definition strtoll :: "string \<Rightarrow> int" where
  "strtoll s = clamp64 (read_dec s)"

text \<open>The conversion of a \<open>long\<close> to a 32-bit \<open>int\<close> keeps the low 32 bits.\<close>

definition to_int32 :: "int \<Rightarrow> int" where
  "to_int32 i = signed_take_bit 31 i"

definition atoi :: "string \<Rightarrow> int" where
  "atoi s = to_int32 (strtoll s)"

lemma dec_value_snoc: "dec_value acc (s @ [c]) = 10 * dec_value acc s + (code_of c - 48)"
  by (induction s arbitrary: acc) auto

lemma dec_value_show_nat: "dec_value 0 (show_nat n) = n"
proof (induction n rule: show_nat.induct)
  case (1 n)
  then show ?case
    by (subst show_nat.simps) (simp add: dec_value_snoc)
qed

lemma read_digits_show_nat:
  "(\<forall>c cs. rest = c # cs \<longrightarrow> \<not> isdigit c) \<Longrightarrow> read_digits (show_nat n @ rest) = n"
proof -
  assume r: "\<forall>c cs. rest = c # cs \<longrightarrow> \<not> isdigit c"
  have "takeWhile isdigit (show_nat n @ rest) = show_nat n"
    using show_nat_digits [of n] r by (cases rest) (auto simp: list_all_iff takeWhile_append)
  then show ?thesis by (simp add: read_digits_def dec_value_show_nat)
qed

lemma show_nat_Cons: "\<exists>c cs. show_nat n = c # cs \<and> isdigit c"
proof -
  obtain c cs where "show_nat n = c # cs" by (cases "show_nat n") auto
  with show_nat_digits [of n] show ?thesis by simp
qed

lemma dropWhile_spaces: "dropWhile isspace (replicate k (CHR '' '') @ s) = dropWhile isspace s"
  by (induction k) (simp_all add: isspace_def)

lemma read_dec_show_int:
  assumes "\<forall>c cs. rest = c # cs \<longrightarrow> \<not> isdigit c"
  shows "read_dec (replicate k (CHR '' '') @ show_int i @ rest) = i"
proof (cases "i < 0")
  case True
  then show ?thesis
    using read_digits_show_nat [OF assms]
    by (simp add: read_dec_def dropWhile_spaces show_int_def isspace_def)
next
  case False
  obtain c cs where c: "show_nat (nat i) = c # cs" "isdigit c" using show_nat_Cons by blast
  have "c \<noteq> CHR ''-''" "c \<noteq> CHR ''+''" "\<not> isspace c"
    using c(2) by (auto simp: isdigit_def isspace_def)
  then show ?thesis
    using read_digits_show_nat [OF assms, of "nat i"] False c(1)
    by (simp add: read_dec_def dropWhile_spaces show_int_def)
qed

lemma strtoll_show_int:
  assumes "\<forall>c cs. rest = c # cs \<longrightarrow> \<not> isdigit c" "LLONG_MIN \<le> i" "i \<le> LLONG_MAX"
  shows "strtoll (replicate k (CHR '' '') @ show_int i @ rest) = i"
  using assms by (simp add: strtoll_def read_dec_show_int clamp64_def)

lemma show_int_length64: "LLONG_MIN \<le> i \<Longrightarrow> i \<le> LLONG_MAX \<Longrightarrow> length (show_int i) \<le> 20"
proof -
  assume "LLONG_MIN \<le> i" "i \<le> LLONG_MAX"
  then have "nat (- i) < 10 ^ 19" "nat i < 10 ^ 19" by simp_all
  from this [THEN show_nat_length] show ?thesis by (auto simp: show_int_def)
qed

lemma length_pad_left: "length s \<le> w \<Longrightarrow> length (pad_left w s) = w"
  by (simp add: pad_left_def)

lemma atoi_show_int: "- 2147483648 \<le> i \<Longrightarrow> i \<le> 2147483647 \<Longrightarrow> atoi (show_int i) = i"
  using strtoll_show_int [of "[]" i 0]
  by (simp add: atoi_def to_int32_def signed_take_bit_int_eq_self)

end
