(* ===== verification/Neo_Err.thy ===== *)
theory Neo_Err
  imports Cstring
begin

text \<open>
  The error values of the program (clearsilver/util/neo_err.c): a \<open>NEOERR *\<close> is \<open>STATUS_OK\<close>
  (NULL), the constant \<open>INTERNAL_ERR\<close> (the allocation of an error failed), or a frame with the
  frame it wraps as \<open>next\<close>. An error is raised once and then wrapped in a \<open>NERR_PASS\<close> frame by each
  function that passes it on.

  The error numbers are those \<open>nerr_init\<close> and \<open>lerr_init\<close> register (proved in the theory of the
  registry); the other theories return the number of the raised error in \<open>Inl\<close>.
\<close>

section \<open>Data\<close>

abbreviation (input) NERR_PASS :: int where "NERR_PASS \<equiv> 1"
abbreviation (input) NERR_ASSERT :: int where "NERR_ASSERT \<equiv> 2"
abbreviation (input) NERR_NOT_FOUND :: int where "NERR_NOT_FOUND \<equiv> 3"
abbreviation (input) NERR_DUPLICATE :: int where "NERR_DUPLICATE \<equiv> 4"
abbreviation (input) NERR_NOMEM :: int where "NERR_NOMEM \<equiv> 5"
abbreviation (input) NERR_PARSE :: int where "NERR_PARSE \<equiv> 6"
abbreviation (input) NERR_OUTOFRANGE :: int where "NERR_OUTOFRANGE \<equiv> 7"
abbreviation (input) NERR_SYSTEM :: int where "NERR_SYSTEM \<equiv> 8"
abbreviation (input) NERR_IO :: int where "NERR_IO \<equiv> 9"
abbreviation (input) NERR_LOCK :: int where "NERR_LOCK \<equiv> 10"
abbreviation (input) NERR_DB :: int where "NERR_DB \<equiv> 11"
abbreviation (input) NERR_EXISTS :: int where "NERR_EXISTS \<equiv> 12"
abbreviation (input) NERR_MAX_RECURSION :: int where "NERR_MAX_RECURSION \<equiv> 13"
abbreviation (input) REP_ERR :: int where "REP_ERR \<equiv> 14"
abbreviation (input) REP_ERR_VER :: int where "REP_ERR_VER \<equiv> 15"
abbreviation (input) REP_ERR_SEND :: int where "REP_ERR_SEND \<equiv> 16"
abbreviation (input) REP_ERR_BROKEN :: int where "REP_ERR_BROKEN \<equiv> 17"
abbreviation (input) REP_ERR_UNKREQ :: int where "REP_ERR_UNKREQ \<equiv> 18"
abbreviation (input) REP_ERR_MEM :: int where "REP_ERR_MEM \<equiv> 19"
abbreviation (input) REP_ERR_DB :: int where "REP_ERR_DB \<equiv> 20"
abbreviation (input) REP_ERR_BUSY :: int where "REP_ERR_BUSY \<equiv> 21"
abbreviation (input) REP_ERR_PACK :: int where "REP_ERR_PACK \<equiv> 22"
abbreviation (input) REP_ERR_BADPARAM :: int where "REP_ERR_BADPARAM \<equiv> 23"
abbreviation (input) REP_ERR_CACHE_MISS :: int where "REP_ERR_CACHE_MISS \<equiv> 24"

abbreviation (input) STATUS_OK_INT :: int where "STATUS_OK_INT \<equiv> 0"
abbreviation (input) INTERNAL_ERR_INT :: int where "INTERNAL_ERR_INT \<equiv> 1"

record err_frame =
  e_error :: int
  e_desc :: string
  e_file :: string
  e_func :: string
  e_lineno :: int

datatype neoerr = STATUS_OK | INTERNAL_ERR | NErr err_frame neoerr

section \<open>Operations\<close>

text \<open>
  The flag \<open>ok\<close> tells whether \<open>_err_alloc\<close> got its memory (the free list is disabled by
  \<open>UseFreeList = 0\<close>); \<open>msg\<close> is the formatted text, cut by \<open>vsnprintf\<close> to the 1024 bytes of \<open>desc\<close>.
\<close>

definition nerr_raisef :: "bool \<Rightarrow> string \<Rightarrow> string \<Rightarrow> int \<Rightarrow> int \<Rightarrow> string \<Rightarrow> neoerr" where
  "nerr_raisef ok func file lineno error msg =
     (if \<not> ok then INTERNAL_ERR
      else NErr \<lparr>e_error = error, e_desc = take 1023 msg, e_file = file, e_func = func, e_lineno = lineno\<rparr>
             STATUS_OK)"

definition nerr_raise_errnof :: "bool \<Rightarrow> string \<Rightarrow> string \<Rightarrow> int \<Rightarrow> int \<Rightarrow> int \<Rightarrow> string \<Rightarrow> string \<Rightarrow> neoerr" where
  "nerr_raise_errnof ok func file lineno error errno strerror msg =
     (if \<not> ok then INTERNAL_ERR
      else let d = take 1023 msg;
               d' = d @ take (1024 - length d - 1) ('': ['' @ show_int errno @ ''] '' @ strerror)
        in NErr \<lparr>e_error = error, e_desc = d', e_file = file, e_func = func, e_lineno = lineno\<rparr> STATUS_OK)"

definition nerr_passf :: "bool \<Rightarrow> string \<Rightarrow> string \<Rightarrow> int \<Rightarrow> neoerr \<Rightarrow> neoerr" where
  "nerr_passf ok func file lineno err =
     (if err = STATUS_OK then err
      else if \<not> ok then err
      else NErr \<lparr>e_error = NERR_PASS, e_desc = [], e_file = file, e_func = func, e_lineno = lineno\<rparr> err)"

definition nerr_pass_ctxf :: "bool \<Rightarrow> string \<Rightarrow> string \<Rightarrow> int \<Rightarrow> neoerr \<Rightarrow> string \<Rightarrow> neoerr" where
  "nerr_pass_ctxf ok func file lineno err msg =
     (if err = STATUS_OK then err
      else if \<not> ok then err
      else NErr \<lparr>e_error = NERR_PASS, e_desc = take 1023 msg, e_file = file, e_func = func, e_lineno = lineno\<rparr> err)"

text \<open>The registry \<open>Errors\<close> of error names is an argument: \<open>None\<close> before \<open>nerr_init\<close>.\<close>

definition lookup_errname :: "string list option \<Rightarrow> int \<Rightarrow> string" where
  "lookup_errname errors e =
     (if e = 0 then ''Unknown Error''
      else case errors of
        None \<Rightarrow> ''Error '' @ show_int e @ '' (call nerr_init)''
      | Some names \<Rightarrow>
          (let x = e - 1; x = (if x < 0 then int (length names) + x else x) in
           if x \<ge> int (length names) \<or> x < 0 then ''Error '' @ show_int e else names ! nat x))"

fun nerr_error_string :: "string list option \<Rightarrow> neoerr \<Rightarrow> string \<Rightarrow> string" where
  "nerr_error_string errors STATUS_OK str = str"
| "nerr_error_string errors INTERNAL_ERR str = str @ ''Internal error''"
| "nerr_error_string errors (NErr f rest) str =
     (if e_error f \<noteq> NERR_PASS then str @ lookup_errname errors (e_error f) @ '': '' @ e_desc f
      else if rest = INTERNAL_ERR then str
      else nerr_error_string errors rest str)"

definition frame_line :: "err_frame \<Rightarrow> string" where
  "frame_line f = ''  File '' @ [CHR 34] @ e_file f @ [CHR 34] @ '', line '' @ show_int (e_lineno f) @
     '', in '' @ e_func f @ ''()'' @ [CHR 10]"

fun traceback_frames :: "string list option \<Rightarrow> neoerr \<Rightarrow> string" where
  "traceback_frames errors STATUS_OK = []"
| "traceback_frames errors INTERNAL_ERR = []"
| "traceback_frames errors (NErr f rest) =
     (if e_error f \<noteq> NERR_PASS then
        take 1023 (frame_line f @ lookup_errname errors (e_error f) @ '': '' @ e_desc f @ [CHR 10])
      else take 1023 (frame_line f) @
        (if e_desc f \<noteq> [] then take 1023 (''    '' @ e_desc f @ [CHR 10]) else []))
     @ traceback_frames errors rest"

definition nerr_error_traceback :: "string list option \<Rightarrow> neoerr \<Rightarrow> string \<Rightarrow> string" where
  "nerr_error_traceback errors err str =
     (case err of
        STATUS_OK \<Rightarrow> str
      | INTERNAL_ERR \<Rightarrow> str @ ''Internal error''
      | NErr _ _ \<Rightarrow> str @ ''Traceback (innermost last):'' @ [CHR 10] @ traceback_frames errors err)"

fun nerr_match :: "neoerr \<Rightarrow> int \<Rightarrow> bool" where
  "nerr_match STATUS_OK etype = (etype = STATUS_OK_INT)"
| "nerr_match INTERNAL_ERR etype = (etype = INTERNAL_ERR_INT)"
| "nerr_match (NErr f rest) etype = (e_error f = etype \<or> nerr_match rest etype)"

definition nerr_ignore :: "neoerr \<Rightarrow> neoerr" where
  "nerr_ignore err = STATUS_OK"

fun err_walk :: "neoerr \<Rightarrow> int \<Rightarrow> neoerr" where
  "err_walk (NErr f rest) etype = (if e_error f = etype then NErr f rest else err_walk rest etype)"
| "err_walk e etype = e"

definition nerr_handle :: "neoerr \<Rightarrow> int \<Rightarrow> bool \<times> neoerr" where
  "nerr_handle err etype =
     (case err_walk err etype of
        NErr _ _ \<Rightarrow> (True, STATUS_OK)
      | STATUS_OK \<Rightarrow> (etype = STATUS_OK_INT, err)
      | INTERNAL_ERR \<Rightarrow> if etype = INTERNAL_ERR_INT then (True, STATUS_OK) else (False, err))"

section \<open>Lemmas\<close>

fun pass_through :: "(bool \<times> string \<times> string \<times> int) list \<Rightarrow> neoerr \<Rightarrow> neoerr" where
  "pass_through [] err = err"
| "pass_through ((ok, func, file, lineno) # ps) err = nerr_passf ok func file lineno (pass_through ps err)"

lemma nerr_match_passf:
  "etype \<noteq> NERR_PASS \<Longrightarrow> nerr_match (nerr_passf ok func file lineno err) etype = nerr_match err etype"
  by (simp add: nerr_passf_def)

lemma nerr_match_pass_through:
  "etype \<noteq> NERR_PASS \<Longrightarrow> nerr_match (pass_through ps err) etype = nerr_match err etype"
  by (induction ps err rule: pass_through.induct) (simp_all add: nerr_match_passf)

lemma nerr_handle_match: "fst (nerr_handle err etype) = nerr_match err etype"
proof (induction err)
  case (NErr f rest)
  then show ?case
    by (auto simp: nerr_handle_def split: neoerr.splits if_splits)
qed (auto simp: nerr_handle_def)

lemma error_string_passf:
  assumes "err \<noteq> INTERNAL_ERR"
  shows "nerr_error_string errors (nerr_passf ok func file lineno err) str = nerr_error_string errors err str"
  using assms by (simp add: nerr_passf_def)

lemma pass_through_Err: "err \<noteq> INTERNAL_ERR \<Longrightarrow> pass_through ps err \<noteq> INTERNAL_ERR"
  by (induction ps err rule: pass_through.induct) (auto simp: nerr_passf_def)

lemma error_string_pass_through:
  "err \<noteq> INTERNAL_ERR \<Longrightarrow> nerr_error_string errors (pass_through ps err) str = nerr_error_string errors err str"
  by (induction ps err rule: pass_through.induct) (simp_all add: error_string_passf pass_through_Err)

section \<open>Properties\<close>

text \<open>
  C40. However many functions pass an error on (and whether or not each could allocate its frame),
  the error is still recognised by its number, recognised as no other one, and printed with the
  message it was raised with. The two exceptions are the code's own: every passed error matches
  \<open>NERR_PASS\<close> when a frame was added, and every error whose chain ends in NULL matches 0.
\<close>

theorem error_identity_survives:
  assumes "e = nerr_raisef True func file lineno error msg" "etype \<noteq> NERR_PASS" "error \<noteq> NERR_PASS"
  shows "nerr_match (pass_through ps e) etype = (etype = error \<or> etype = STATUS_OK_INT) \<and>
     fst (nerr_handle (pass_through ps e) etype) = (etype = error \<or> etype = STATUS_OK_INT) \<and>
     nerr_error_string errors (pass_through ps e) [] = lookup_errname errors error @ '': '' @ take 1023 msg"
proof (intro conjI)
  have ne: "e \<noteq> INTERNAL_ERR" using assms(1) by (simp add: nerr_raisef_def)
  show "nerr_match (pass_through ps e) etype = (etype = error \<or> etype = STATUS_OK_INT)"
    using assms(1,2) by (auto simp: nerr_match_pass_through nerr_raisef_def)
  then show "fst (nerr_handle (pass_through ps e) etype) = (etype = error \<or> etype = STATUS_OK_INT)"
    by (simp add: nerr_handle_match)
  show "nerr_error_string errors (pass_through ps e) [] = lookup_errname errors error @ '': '' @ take 1023 msg"
    using assms(1,3) by (subst error_string_pass_through [OF ne]) (simp add: nerr_raisef_def)
qed

theorem error_identity_survives_witness:
  "nerr_match (pass_through [(True, ''g'', ''f.c'', 3), (False, ''h'', ''f.c'', 9)]
      (nerr_raisef True ''k'' ''f.c'' 1 NERR_NOMEM ''out'')) NERR_NOMEM"
  using error_identity_survives [of _ "''k''" "''f.c''" 1 NERR_NOMEM "''out''" NERR_NOMEM
      "[(True, ''g'', ''f.c'', 3), (False, ''h'', ''f.c'', 9)]"]
  by simp

end
