(* ===== verification/Hdf.thy ===== *)
theory Hdf
  imports Neo_Err
begin

text \<open>
  The hierarchical data format (clearsilver/util/neo_hdf.c): the tree of named values in which
  requests, replies and configuration are built. A tree is a datatype; a node handle \<open>HDF *\<close> is
  the path of child positions from the root, and \<open>hdf->top\<close> is the root. A node may be a link,
  whose value is the name of its target from the root; following links is a recursion the code does
  not bound, so a walk that does not end (links in a circle) is \<open>None\<close>, as is a NULL dereference.

  The lookup cache \<open>last_hp\<close>/\<open>last_hs\<close> and the per-level hash index of levels with more than ten
  children are not part of the tree: they find the same child as the linear search (the hash
  table itself is modelled in \<open>Neo_Hash\<close>). Allocation is assumed to succeed.
\<close>

section \<open>Data\<close>

type_synonym hattr = "string \<times> string option"
type_synonym path = "nat list"

datatype hdf = HDF (hname: "string option") (hvalue: "string option") (hlink: bool)
  (hattr: "hattr list") (hchild: "hdf list")

fun set_hchild :: "hdf list \<Rightarrow> hdf \<Rightarrow> hdf" where
  "set_hchild cs (HDF n v l a _) = HDF n v l a cs"

fun node_at :: "hdf \<Rightarrow> path \<Rightarrow> hdf option" where
  "node_at t [] = Some t"
| "node_at t (i # p) = (if i < length (hchild t) then node_at (hchild t ! i) p else None)"

fun update_at :: "path \<Rightarrow> (hdf \<Rightarrow> hdf) \<Rightarrow> hdf \<Rightarrow> hdf" where
  "update_at [] f t = f t"
| "update_at (i # p) f t = set_hchild ((hchild t)[i := update_at p f (hchild t ! i)]) t"

text \<open>The first child of a level with a given name.\<close>

fun find_child :: "string \<Rightarrow> hdf list \<Rightarrow> nat option" where
  "find_child n [] = None"
| "find_child n (c # cs) = (if hname c = Some n then Some 0 else map_option Suc (find_child n cs))"

text \<open>The components of a dotted name, cut at each \<open>strchr(n, '.')\<close>.\<close>

fun split_dots :: "string \<Rightarrow> string list" where
  "split_dots [] = [[]]"
| "split_dots (c # cs) =
     (if c = CHR ''.'' then [] # split_dots cs
      else (case split_dots cs of [] \<Rightarrow> [[c]] | w # ws \<Rightarrow> (c # w) # ws))"

definition hdf_init :: hdf where
  "hdf_init = HDF None None False [] []"

section \<open>Finding nodes\<close>

partial_function (option) walk_components :: "hdf \<Rightarrow> path \<Rightarrow> string list \<Rightarrow> path option option" where
  [code]: "walk_components root p names = do {
     hdf \<leftarrow> node_at root p;
     r \<leftarrow> (if hlink hdf then
             (case hvalue hdf of
                None \<Rightarrow> Some (Some [])
              | Some v \<Rightarrow> if v = [] then Some (Some []) else walk_components root [] (split_dots v))
           else Some (Some p));
     (case r of
        None \<Rightarrow> Some None
      | Some q \<Rightarrow>
          (case names of
             [] \<Rightarrow> Some (Some q)
           | n # ns \<Rightarrow> do {
               parent \<leftarrow> node_at root q;
               (case find_child n (hchild parent) of
                  None \<Rightarrow> Some None
                | Some i \<Rightarrow> walk_components root (q @ [i]) ns) })) }"

text \<open>\<open>_walk_hdf\<close>: \<open>Some None\<close> is the return value \<open>-1\<close>, \<open>Some (Some p)\<close> is 0 with the node.\<close>

definition walk_hdf :: "hdf \<Rightarrow> path \<Rightarrow> string option \<Rightarrow> path option option" where
  "walk_hdf root p name =
     (case name of
        None \<Rightarrow> Some (Some p)
      | Some n \<Rightarrow> if n = [] then Some (Some p) else walk_components root p (split_dots n))"

definition hdf_get_value :: "hdf \<Rightarrow> path \<Rightarrow> string option \<Rightarrow> string option \<Rightarrow> string option option" where
  "hdf_get_value root p name defval = do {
     r \<leftarrow> walk_hdf root p name;
     (case r of
        None \<Rightarrow> Some defval
      | Some q \<Rightarrow> do {
          node \<leftarrow> node_at root q;
          Some (case hvalue node of None \<Rightarrow> defval | Some v \<Rightarrow> Some v) }) }"

text \<open>\<open>strtol\<close> consumed nothing when there is no digit after the blanks and the sign.\<close>

definition no_number :: "string \<Rightarrow> bool" where
  "no_number s = (case dropWhile isspace s of
     [] \<Rightarrow> True
   | c # cs \<Rightarrow> if c = CHR ''-'' \<or> c = CHR ''+'' then (cs = [] \<or> \<not> isdigit (hd cs)) else \<not> isdigit c)"

definition hdf_get_int_value :: "hdf \<Rightarrow> path \<Rightarrow> string option \<Rightarrow> int \<Rightarrow> int option" where
  "hdf_get_int_value root p name defval = do {
     r \<leftarrow> walk_hdf root p name;
     (case r of
        None \<Rightarrow> Some defval
      | Some q \<Rightarrow> do {
          node \<leftarrow> node_at root q;
          Some (case hvalue node of None \<Rightarrow> defval
                | Some v \<Rightarrow> if no_number v then defval else to_int32 (strtoll v)) }) }"

definition hdf_get_copy :: "hdf \<Rightarrow> path \<Rightarrow> string option \<Rightarrow> string option \<Rightarrow> string option option" where
  "hdf_get_copy root p name defval = hdf_get_value root p name defval"

definition hdf_get_obj :: "hdf \<Rightarrow> path \<Rightarrow> string option \<Rightarrow> path option option" where
  "hdf_get_obj root p name = walk_hdf root p name"

text \<open>A pointer to the first child of a node, or NULL.\<close>

definition first_child :: "hdf \<Rightarrow> path \<Rightarrow> path option" where
  "first_child root q = (case node_at root q of None \<Rightarrow> None
     | Some n \<Rightarrow> if hchild n = [] then None else Some (q @ [0]))"

definition hdf_get_child :: "hdf \<Rightarrow> path \<Rightarrow> string option \<Rightarrow> path option option" where
  "hdf_get_child root p name = do {
     r \<leftarrow> walk_hdf root p name;
     Some (case r of None \<Rightarrow> None | Some q \<Rightarrow> first_child root q) }"

definition hdf_get_attr :: "hdf \<Rightarrow> path \<Rightarrow> string option \<Rightarrow> hattr list option" where
  "hdf_get_attr root p name = do {
     r \<leftarrow> walk_hdf root p name;
     (case r of None \<Rightarrow> Some [] | Some q \<Rightarrow> do { n \<leftarrow> node_at root q; Some (hattr n) }) }"

definition hdf_obj_child :: "hdf \<Rightarrow> path option \<Rightarrow> path option option" where
  "hdf_obj_child root hdf =
     (case hdf of
        None \<Rightarrow> Some None
      | Some p \<Rightarrow> do {
          n \<leftarrow> node_at root p;
          if hlink n then do {
            r \<leftarrow> walk_hdf root [] (hvalue n);
            Some (case r of None \<Rightarrow> None | Some q \<Rightarrow> first_child root q) }
          else Some (first_child root p) })"

definition hdf_obj_next :: "hdf \<Rightarrow> path option \<Rightarrow> path option" where
  "hdf_obj_next root hdf =
     (case hdf of
        None \<Rightarrow> None
      | Some [] \<Rightarrow> None
      | Some p \<Rightarrow> let q = butlast p @ [last p + 1] in if node_at root q = None then None else Some q)"

definition hdf_obj_name :: "hdf \<Rightarrow> path option \<Rightarrow> string option" where
  "hdf_obj_name root hdf = (case hdf of None \<Rightarrow> None
     | Some p \<Rightarrow> (case node_at root p of None \<Rightarrow> None | Some n \<Rightarrow> hname n))"

definition hdf_obj_attr :: "hdf \<Rightarrow> path option \<Rightarrow> hattr list" where
  "hdf_obj_attr root hdf = (case hdf of None \<Rightarrow> []
     | Some p \<Rightarrow> (case node_at root p of None \<Rightarrow> [] | Some n \<Rightarrow> hattr n))"

text \<open>\<open>hdf_obj_value\<close> follows at most a hundred links.\<close>

fun obj_value_loop :: "nat \<Rightarrow> hdf \<Rightarrow> path \<Rightarrow> string option option" where
  "obj_value_loop 0 root p = map_option hvalue (node_at root p)"
| "obj_value_loop (Suc k) root p = do {
     n \<leftarrow> node_at root p;
     if hlink n then do {
       r \<leftarrow> walk_hdf root [] (hvalue n);
       (case r of None \<Rightarrow> Some None | Some q \<Rightarrow> obj_value_loop k root q) }
     else Some (hvalue n) }"

definition hdf_obj_value :: "hdf \<Rightarrow> path option \<Rightarrow> string option option" where
  "hdf_obj_value root hdf = (case hdf of None \<Rightarrow> Some None | Some p \<Rightarrow> obj_value_loop 100 root p)"

section \<open>Attributes\<close>

fun attr_replace :: "string \<Rightarrow> string option \<Rightarrow> hattr list \<Rightarrow> hattr list" where
  "attr_replace k v [] = []"
| "attr_replace k v (a # as) = (if fst a = k then (k, v) # as else a # attr_replace k v as)"

fun attr_remove :: "string \<Rightarrow> hattr list \<Rightarrow> hattr list" where
  "attr_remove k [] = []"
| "attr_remove k (a # as) = (if fst a = k then as else a # attr_remove k as)"

text \<open>
  \<open>_merge_attr\<close>: \<open>first\<close> tells that \<open>ls == sa\<close>, which is so until an attribute of the source has been
  found in the destination. Unlinking a source attribute that is not found then also cuts the
  source list, and the rest of it is dropped.
\<close>

fun merge_attr :: "bool \<Rightarrow> hattr list \<Rightarrow> hattr list \<Rightarrow> hattr list" where
  "merge_attr first dest [] = dest"
| "merge_attr first dest ((k, v) # src) =
     (if k \<in> fst ` set dest then merge_attr False (attr_replace k v dest) src
      else if first then dest @ [(k, v)]
      else merge_attr False (dest @ [(k, v)]) src)"

definition join_attr :: "hattr list \<Rightarrow> hattr list \<Rightarrow> hattr list" where
  "join_attr dest src = (if dest = [] then src else merge_attr True dest src)"

section \<open>Setting values\<close>

record setting =
  s_value :: "string option"
  s_link :: bool
  s_attr :: "hattr list"

fun assign_node :: "setting \<Rightarrow> hdf \<Rightarrow> hdf" where
  "assign_node u (HDF n v l a cs) = HDF n (s_value u) (s_link u) (join_attr a (s_attr u)) cs"

fun add_child :: "hdf \<Rightarrow> hdf \<Rightarrow> hdf" where
  "add_child c (HDF n v l a cs) = HDF n v l a (cs @ [c])"

definition new_node :: "setting \<Rightarrow> string \<Rightarrow> bool \<Rightarrow> hdf" where
  "new_node u n final = (if final then HDF (Some n) (s_value u) (s_link u) (s_attr u) []
                         else HDF (Some n) None False [] [])"

text \<open>
  The loop of \<open>_set_value\<close> on the components of the name, with \<open>hn\<close> the node of the current level;
  \<open>entry\<close> marks the first component of a call, where the node itself may be a link.
\<close>

partial_function (option) set_components ::
    "hdf \<Rightarrow> path \<Rightarrow> string list \<Rightarrow> bool \<Rightarrow> setting \<Rightarrow> ((int + path) \<times> hdf) option" where
  [code]: "set_components root hn names entry u =
     (case names of
        [] \<Rightarrow> Some (Inr hn, root)
      | n # ns \<Rightarrow>
          if n = [] then Some (Inl NERR_ASSERT, root)
          else do {
            node \<leftarrow> node_at root hn;
            if entry \<and> hlink node then do {
              v \<leftarrow> hvalue node;
              set_components root [] (split_dots v @ n # ns) True u }
            else
              (case find_child n (hchild node) of
                 None \<Rightarrow>
                   let root' = update_at hn (add_child (new_node u n (ns = []))) root;
                       hp = hn @ [length (hchild node)]
                   in if ns = [] then Some (Inr hp, root') else set_components root' hp ns False u
               | Some i \<Rightarrow>
                   let hp = hn @ [i] in
                   if ns = [] then Some (Inr hp, update_at hp (assign_node u) root)
                   else do {
                     child \<leftarrow> node_at root hp;
                     if hlink child then do {
                       v \<leftarrow> hvalue child;
                       set_components root [] (split_dots v @ ns) True u }
                     else set_components root hp ns False u }) })"

definition set_value :: "hdf \<Rightarrow> path option \<Rightarrow> string option \<Rightarrow> setting \<Rightarrow> ((int + path) \<times> hdf) option" where
  "set_value root hdf name u =
     (case hdf of
        None \<Rightarrow> Some (Inl NERR_ASSERT, root)
      | Some p \<Rightarrow>
          (case name of
             None \<Rightarrow> Some (Inr p, update_at p (assign_node u) root)
           | Some n \<Rightarrow>
               if n = [] then Some (Inr p, update_at p (assign_node u) root)
               else set_components root p (split_dots n) True u))"

definition plain :: "string option \<Rightarrow> setting" where
  "plain v = \<lparr>s_value = v, s_link = False, s_attr = []\<rparr>"

definition hdf_set_value :: "hdf \<Rightarrow> path \<Rightarrow> string \<Rightarrow> string option \<Rightarrow> ((int + path) \<times> hdf) option" where
  "hdf_set_value root p name value = set_value root (Some p) (Some name) (plain value)"

definition hdf_set_value_attr :: "hdf \<Rightarrow> path \<Rightarrow> string \<Rightarrow> string option \<Rightarrow> hattr list \<Rightarrow> ((int + path) \<times> hdf) option" where
  "hdf_set_value_attr root p name value attr =
     set_value root (Some p) (Some name) \<lparr>s_value = value, s_link = False, s_attr = attr\<rparr>"

definition hdf_set_symlink :: "hdf \<Rightarrow> path \<Rightarrow> string \<Rightarrow> string \<Rightarrow> ((int + path) \<times> hdf) option" where
  "hdf_set_symlink root p src dest =
     set_value root (Some p) (Some src) \<lparr>s_value = Some dest, s_link = True, s_attr = []\<rparr>"

definition hdf_set_int_value :: "hdf \<Rightarrow> path \<Rightarrow> string \<Rightarrow> int \<Rightarrow> ((int + path) \<times> hdf) option" where
  "hdf_set_int_value root p name value = set_value root (Some p) (Some name) (plain (Some (show_int value)))"

definition hdf_set_buf :: "hdf \<Rightarrow> path \<Rightarrow> string \<Rightarrow> string option \<Rightarrow> ((int + path) \<times> hdf) option" where
  "hdf_set_buf root p name value = set_value root (Some p) (Some name) (plain value)"

definition hdf_set_copy :: "hdf \<Rightarrow> path \<Rightarrow> string \<Rightarrow> string \<Rightarrow> ((int + path) \<times> hdf) option" where
  "hdf_set_copy root p dest src = do {
     r \<leftarrow> walk_hdf root p (Some src);
     (case r of
        None \<Rightarrow> Some (Inl NERR_NOT_FOUND, root)
      | Some q \<Rightarrow> do {
          node \<leftarrow> node_at root q;
          (case hvalue node of
             None \<Rightarrow> Some (Inl NERR_NOT_FOUND, root)
           | Some v \<Rightarrow> set_value root (Some p) (Some dest) (plain (Some v))) }) }"

text \<open>\<open>hdf_set_valuef\<close>: the formatted text is cut at its first \<open>=\<close>.\<close>

definition hdf_set_valuevf :: "hdf \<Rightarrow> path \<Rightarrow> string \<Rightarrow> ((int + path) \<times> hdf) option" where
  "hdf_set_valuevf root p text =
     (if CHR ''='' \<notin> set text then Some (Inl NERR_ASSERT, root)
      else hdf_set_value root p (takeWhile (\<lambda>c. c \<noteq> CHR ''='') text)
             (Some (tl (dropWhile (\<lambda>c. c \<noteq> CHR ''='') text))))"

definition hdf_get_node :: "hdf \<Rightarrow> path \<Rightarrow> string \<Rightarrow> ((int + path) \<times> hdf) option" where
  "hdf_get_node root p name = do {
     r \<leftarrow> walk_hdf root p (Some name);
     (case r of
        Some q \<Rightarrow> Some (Inr q, root)
      | None \<Rightarrow> set_value root (Some p) (Some name) (plain None)) }"

definition hdf_set_attr :: "hdf \<Rightarrow> path \<Rightarrow> string option \<Rightarrow> string \<Rightarrow> string option \<Rightarrow> ((int + unit) \<times> hdf) option" where
  "hdf_set_attr root p name key value = do {
     r \<leftarrow> walk_hdf root p name;
     (case r of
        None \<Rightarrow> Some (Inl NERR_ASSERT, root)
      | Some q \<Rightarrow> do {
          obj \<leftarrow> node_at root q;
          let put = (\<lambda>as. update_at q (\<lambda>n. HDF (hname n) (hvalue n) (hlink n) as (hchild n)) root);
          if hattr obj \<noteq> [] then
            (if key \<in> fst ` set (hattr obj) then
               (if value = None then Some (Inr (), put (attr_remove key (hattr obj)))
                else Some (Inr (), put (attr_replace key value (hattr obj))))
             else if value = None then None
             else Some (Inr (), put (hattr obj @ [(key, value)])))
          else if value = None then Some (Inr (), root)
          else Some (Inr (), put [(key, value)]) }) }"

section \<open>Removing, sorting and copying\<close>

text \<open>\<open>hdf_remove_tree\<close> searches by name without following links.\<close>

fun remove_components :: "string list \<Rightarrow> hdf \<Rightarrow> hdf" where
  "remove_components [] t = t"
| "remove_components (n # ns) t =
     (case find_child n (hchild t) of
        None \<Rightarrow> t
      | Some i \<Rightarrow>
          if ns = [] then set_hchild (take i (hchild t) @ drop (Suc i) (hchild t)) t
          else set_hchild ((hchild t)[i := remove_components ns (hchild t ! i)]) t)"

definition hdf_remove_tree :: "hdf \<Rightarrow> path \<Rightarrow> string \<Rightarrow> hdf" where
  "hdf_remove_tree root p name = update_at p (remove_components (split_dots name)) root"

text \<open>\<open>hdf_sort_obj\<close> relinks the children in the order \<open>qsort\<close> (a parameter) gives them.\<close>

definition hdf_sort_obj :: "(hdf list \<Rightarrow> hdf list) \<Rightarrow> hdf \<Rightarrow> path \<Rightarrow> hdf" where
  "hdf_sort_obj qsort root p = update_at p (\<lambda>h. if hchild h = [] then h else set_hchild (qsort (hchild h)) h) root"

text \<open>\<open>_copy_nodes\<close>: each child of the source is set in the destination and then copied into.\<close>

fun copy_nodes :: "hdf list \<Rightarrow> path \<Rightarrow> hdf \<Rightarrow> ((int + unit) \<times> hdf) option" where
  "copy_nodes [] dest root = Some (Inr (), root)"
| "copy_nodes (HDF n v l a cs # sts) dest root = do {
     (r, root1) \<leftarrow> set_value root (Some dest) n \<lparr>s_value = v, s_link = l, s_attr = a\<rparr>;
     (case r of
        Inl e \<Rightarrow> Some (Inl e, root1)
      | Inr dt \<Rightarrow> do {
          (r, root2) \<leftarrow> copy_nodes cs dt root1;
          (case r of Inl e \<Rightarrow> Some (Inl e, root2) | Inr _ \<Rightarrow> copy_nodes sts dest root2) }) }"

definition hdf_copy :: "hdf \<Rightarrow> path \<Rightarrow> string \<Rightarrow> hdf \<Rightarrow> ((int + unit) \<times> hdf) option" where
  "hdf_copy root dest name src = do {
     r \<leftarrow> walk_hdf root dest (Some name);
     (case r of
        Some q \<Rightarrow> copy_nodes (hchild src) q root
      | None \<Rightarrow> do {
          (r, root1) \<leftarrow> set_value root (Some dest) (Some name) (plain None);
          (case r of Inl e \<Rightarrow> Some (Inl e, root1) | Inr q \<Rightarrow> copy_nodes (hchild src) q root1) }) }"

section \<open>Lemmas on trees and names\<close>

lemma find_child_None_iff: "find_child n cs = None \<longleftrightarrow> (\<forall>c \<in> set cs. hname c \<noteq> Some n)"
  by (induction cs) auto

lemma find_child_SomeD: "find_child n cs = Some i \<Longrightarrow> i < length cs \<and> hname (cs ! i) = Some n"
  by (induction cs arbitrary: i) (auto split: if_splits)

lemma find_child_append:
  "find_child n (cs @ ds) = (case find_child n cs of Some i \<Rightarrow> Some i
     | None \<Rightarrow> map_option ((+) (length cs)) (find_child n ds))"
proof (induction cs)
  case Nil
  then show ?case by (cases "find_child n ds") auto
next
  case (Cons c cs)
  then show ?case by (cases "find_child n cs"; cases "find_child n ds") auto
qed

lemma find_child_update:
  "hname c = hname (cs ! i) \<Longrightarrow> find_child n (cs[i := c]) = find_child n cs"
  by (induction cs arbitrary: i) (auto split: nat.splits)

lemma set_hchild_simps [simp]:
  "hname (set_hchild cs t) = hname t" "hvalue (set_hchild cs t) = hvalue t" "hlink (set_hchild cs t) = hlink t"
  "hattr (set_hchild cs t) = hattr t" "hchild (set_hchild cs t) = cs"
  "set_hchild ds (set_hchild cs t) = set_hchild ds t" "set_hchild (hchild t) t = t"
  by (cases t; simp)+

lemma add_child_conv: "add_child c t = set_hchild (hchild t @ [c]) t"
  by (cases t) simp

lemma node_at_append: "node_at t (p @ q) = do { s \<leftarrow> node_at t p; node_at s q }"
  by (induction t p rule: node_at.induct) auto

lemma update_at_append: "update_at (p @ q) f t = update_at p (update_at q f) t"
  by (induction p arbitrary: t) auto

lemma node_at_update_at: "node_at t p = Some s \<Longrightarrow> node_at (update_at p f t) p = Some (f s)"
  by (induction t p rule: node_at.induct) (auto split: if_splits)

lemma update_at_cong: "node_at t p = Some s \<Longrightarrow> f s = g s \<Longrightarrow> update_at p f t = update_at p g t"
  by (induction t p rule: node_at.induct) (auto split: if_splits)

lemma update_at_update_at: "update_at p f (update_at p g t) = update_at p (f \<circ> g) t"
proof (induction p arbitrary: t)
  case (Cons i p)
  then show ?case by (cases "i < length (hchild t)") (auto simp: list_update_beyond)
qed simp

text \<open>The components of a name, with none for the empty name.\<close>

definition components :: "string \<Rightarrow> string list" where
  "components name = (if name = [] then [] else split_dots name)"

fun join_dots :: "string list \<Rightarrow> string" where
  "join_dots [] = []"
| "join_dots [w] = w"
| "join_dots (w # ws) = w @ CHR ''.'' # join_dots ws"

lemma split_dots_nonempty [simp]: "split_dots s \<noteq> []"
  by (induction s) (auto split: list.splits)

lemma join_split [simp]: "join_dots (split_dots s) = s"
proof (induction s)
  case (Cons c cs)
  then show ?case
    by (cases "split_dots cs" rule: join_dots.cases) auto
qed simp

lemma components_inject: "components a = components b \<longleftrightarrow> a = b"
proof
  assume "components a = components b"
  then show "a = b"
    by (metis components_def join_dots.simps(1) join_split split_dots_nonempty)
qed simp

lemma split_dots_plain: "CHR ''.'' \<notin> set n \<Longrightarrow> split_dots n = [n]"
  by (induction n) auto

section \<open>Trees without links\<close>

text \<open>On a tree without links the components of a name are looked up level by level.\<close>

fun no_links :: "hdf \<Rightarrow> bool" where
  "no_links (HDF n v l a cs) \<longleftrightarrow> \<not> l \<and> (\<forall>c \<in> set cs. no_links c)"

fun lookup_path :: "hdf \<Rightarrow> string list \<Rightarrow> path option" where
  "lookup_path t [] = Some []"
| "lookup_path t (n # ns) =
     (case find_child n (hchild t) of
        None \<Rightarrow> None
      | Some i \<Rightarrow> map_option ((#) i) (lookup_path (hchild t ! i) ns))"

definition value_at :: "hdf \<Rightarrow> string list \<Rightarrow> string option" where
  "value_at t ns = (case lookup_path t ns of None \<Rightarrow> None
     | Some q \<Rightarrow> (case node_at t q of None \<Rightarrow> None | Some s \<Rightarrow> hvalue s))"

lemma no_links_hlink: "no_links t \<Longrightarrow> \<not> hlink t"
  by (cases t) auto

lemma no_links_child: "no_links t \<Longrightarrow> c \<in> set (hchild t) \<Longrightarrow> no_links c"
  by (cases t) auto

lemma no_links_nth: "no_links t \<Longrightarrow> i < length (hchild t) \<Longrightarrow> no_links (hchild t ! i)"
  by (rule no_links_child) auto

lemma no_links_node_at: "no_links t \<Longrightarrow> node_at t p = Some s \<Longrightarrow> no_links s"
  by (induction t p rule: node_at.induct) (auto split: if_splits simp: no_links_nth)

lemma no_links_set_hchild: "no_links (set_hchild cs t) \<longleftrightarrow> \<not> hlink t \<and> (\<forall>c \<in> set cs. no_links c)"
  by (cases t) auto

lemma no_links_set_child:
  "no_links t \<Longrightarrow> no_links c \<Longrightarrow> no_links (set_hchild ((hchild t)[i := c]) t)"
  using set_update_subset_insert [of "hchild t" i c] no_links_child [of t] no_links_hlink [of t]
  by (auto simp: no_links_set_hchild)

lemma no_links_update_at:
  "no_links t \<Longrightarrow> node_at t p = Some s \<Longrightarrow> no_links (f s) \<Longrightarrow> no_links (update_at p f t)"
proof (induction t p rule: node_at.induct)
  case (2 t i p)
  then have "no_links (update_at p f (hchild t ! i))"
    using no_links_nth by (auto split: if_splits)
  then show ?case using "2.prems"(1) by (simp add: no_links_set_child)
qed simp

lemma lookup_path_node: "lookup_path t ns = Some q \<Longrightarrow> \<exists>s. node_at t q = Some s"
proof (induction t ns arbitrary: q rule: lookup_path.induct)
  case (2 t n ns)
  then show ?case by (auto split: option.splits dest!: find_child_SomeD)
qed simp

lemma value_at_simps [simp]:
  "value_at t [] = hvalue t"
  "value_at t (n # ns) = (case find_child n (hchild t) of None \<Rightarrow> None | Some i \<Rightarrow> value_at (hchild t ! i) ns)"
proof -
  show "value_at t (n # ns) = (case find_child n (hchild t) of None \<Rightarrow> None | Some i \<Rightarrow> value_at (hchild t ! i) ns)"
    by (auto simp: value_at_def split: option.splits dest: find_child_SomeD)
qed (simp add: value_at_def)

lemma walk_components_link_free:
  assumes "no_links root" "node_at root p = Some t"
  shows "walk_components root p ns = Some (map_option ((@) p) (lookup_path t ns))"
  using assms(2)
proof (induction ns arbitrary: p t)
  case Nil
  have "\<not> hlink t" using no_links_node_at [OF assms(1) Nil] no_links_hlink by blast
  then show ?case using Nil by (subst walk_components.simps) simp
next
  case (Cons n ns)
  have nl: "\<not> hlink t" using no_links_node_at [OF assms(1) Cons.prems] no_links_hlink by blast
  show ?case
  proof (cases "find_child n (hchild t)")
    case None
    then show ?thesis using Cons.prems nl by (subst walk_components.simps) simp
  next
    case (Some i)
    then have "node_at root (p @ [i]) = Some (hchild t ! i)"
      using Cons.prems by (auto simp: node_at_append dest: find_child_SomeD)
    from Cons.IH [OF this] Some Cons.prems nl show ?thesis
      by (subst walk_components.simps) (auto simp: option.map_comp comp_def)
  qed
qed

lemma walk_hdf_link_free:
  assumes "no_links root" "node_at root p = Some t"
  shows "walk_hdf root p (Some name) = Some (map_option ((@) p) (lookup_path t (components name)))"
  using walk_components_link_free [OF assms] by (simp add: walk_hdf_def components_def)

lemma hdf_get_value_link_free:
  assumes "no_links root" "node_at root p = Some t"
  shows "hdf_get_value root p (Some name) d =
     Some (case value_at t (components name) of None \<Rightarrow> d | Some v \<Rightarrow> Some v)"
proof (cases "lookup_path t (components name)")
  case None
  then show ?thesis using walk_hdf_link_free [OF assms, of name] by (simp add: hdf_get_value_def value_at_def)
next
  case (Some q)
  then obtain s where "node_at t q = Some s" using lookup_path_node by blast
  then show ?thesis
    using Some walk_hdf_link_free [OF assms, of name] assms(2)
    by (simp add: hdf_get_value_def value_at_def node_at_append)
qed

text \<open>The tree after setting a name.\<close>

fun insert_at :: "setting \<Rightarrow> string list \<Rightarrow> hdf \<Rightarrow> hdf" where
  "insert_at u [] t = t"
| "insert_at u (n # ns) t =
     (case find_child n (hchild t) of
        None \<Rightarrow> add_child (if ns = [] then new_node u n True else insert_at u ns (new_node u n False)) t
      | Some i \<Rightarrow> set_hchild ((hchild t)[i := (if ns = [] then assign_node u (hchild t ! i)
                                               else insert_at u ns (hchild t ! i))]) t)"

lemma hname_insert_at [simp]: "hname (insert_at u ns t) = hname t"
  by (cases ns) (auto simp: add_child_conv split: option.splits)

lemma hvalue_insert_at [simp]: "hvalue (insert_at u ns t) = hvalue t"
  by (cases ns) (auto simp: add_child_conv split: option.splits)

lemma hlink_insert_at [simp]: "hlink (insert_at u ns t) = hlink t"
  by (cases ns) (auto simp: add_child_conv split: option.splits)

lemma assign_node_simps [simp]:
  "hname (assign_node u t) = hname t" "hvalue (assign_node u t) = s_value u" "hchild (assign_node u t) = hchild t"
  "hlink (assign_node u t) = s_link u"
  by (cases t; simp)+

lemma new_node_simps [simp]:
  "hname (new_node u n b) = Some n" "hchild (new_node u n b) = []"
  "hvalue (new_node u n b) = (if b then s_value u else None)" "hlink (new_node u n b) = (b \<and> s_link u)"
  by (simp_all add: new_node_def)

lemma no_links_assign: "no_links t \<Longrightarrow> \<not> s_link u \<Longrightarrow> no_links (assign_node u t)"
  by (cases t) auto

lemma no_links_insert_at: "no_links t \<Longrightarrow> \<not> s_link u \<Longrightarrow> no_links (insert_at u ns t)"
proof (induction ns arbitrary: t)
  case (Cons n ns)
  have new: "no_links (new_node u n b)" for b using Cons.prems by (simp add: new_node_def)
  show ?case
  proof (cases "find_child n (hchild t)")
    case None
    then show ?thesis
      using Cons new no_links_child [OF Cons.prems(1)] no_links_hlink [OF Cons.prems(1)]
      by (auto simp: add_child_conv no_links_set_hchild)
  next
    case (Some i)
    then have "no_links (hchild t ! i)" using Cons.prems(1) by (auto intro: no_links_nth dest: find_child_SomeD)
    then show ?thesis using Cons Some by (auto simp: no_links_set_child no_links_assign)
  qed
qed simp

lemma find_child_add:
  "find_child d (cs @ [c]) =
     (case find_child d cs of Some i \<Rightarrow> Some i | None \<Rightarrow> if hname c = Some d then Some (length cs) else None)"
  by (auto simp: find_child_append split: option.splits)

lemma value_at_insert_at:
  "ns \<noteq> [] \<Longrightarrow> value_at (insert_at u ns t) ds = (if ds = ns then s_value u else value_at t ds)"
proof (induction ns arbitrary: t ds)
  case (Cons n ns)
  show ?case
  proof (cases ds)
    case Nil
    then show ?thesis by (auto simp: add_child_conv split: option.splits)
  next
    case (Cons d es)
    note ds = this
    show ?thesis
    proof (cases "find_child n (hchild t)")
      case None
      let ?c = "if ns = [] then new_node u n True else insert_at u ns (new_node u n False)"
      have c: "hname ?c = Some n" by simp
      have v: "value_at ?c es = (if es = ns then s_value u else None)"
        using Cons.IH [of "new_node u n False" es] by (cases es) auto
      show ?thesis
        using None c v ds
        by (cases "find_child d (hchild t)") (auto simp: add_child_conv find_child_add nth_append dest: find_child_SomeD)
    next
      case (Some i)
      let ?c = "if ns = [] then assign_node u (hchild t ! i) else insert_at u ns (hchild t ! i)"
      have i: "i < length (hchild t)" "hname (hchild t ! i) = Some n" using find_child_SomeD [OF Some] by auto
      have v: "value_at ?c es = (if es = ns then s_value u else value_at (hchild t ! i) es)"
        using Cons.IH [of "hchild t ! i" es] by (cases es) (auto split: option.split)
      have f: "find_child d ((hchild t)[i := ?c]) = find_child d (hchild t)"
        by (rule find_child_update) simp
      show ?thesis
      proof (cases "d = n")
        case True
        then show ?thesis using Some ds v f i by simp
      next
        case False
        have "find_child d (hchild t) \<noteq> Some i" using False i(2) by (auto dest: find_child_SomeD)
        then show ?thesis
          using Some ds f i False by (cases "find_child d (hchild t)") (auto dest: find_child_SomeD)
      qed
    qed
  qed
qed simp

lemma set_components_link_free:
  assumes "no_links root" "node_at root p = Some t" "ns \<noteq> []" "[] \<notin> set ns"
  shows "\<exists>q. set_components root p ns entry u = Some (Inr q, update_at p (insert_at u ns) root)"
  using assms
proof (induction ns arbitrary: root p t entry)
  case (Cons n ns)
  have nl: "\<not> hlink t" using no_links_node_at [OF Cons.prems(1,2)] no_links_hlink by blast
  have n: "n \<noteq> []" using Cons.prems(4) by auto
  show ?case
  proof (cases "find_child n (hchild t)")
    case None
    let ?c = "new_node u n (ns = [])"
    let ?root = "update_at p (add_child ?c) root"
    let ?hp = "p @ [length (hchild t)]"
    show ?thesis
    proof (cases "ns = []")
      case True
      then have "update_at p (add_child ?c) root = update_at p (insert_at u [n]) root"
        using Cons.prems(2) None by (intro update_at_cong [of root p t]) simp_all
      then show ?thesis using True None Cons.prems(2) nl n by (subst set_components.simps) simp
    next
      case False
      have at: "node_at ?root p = Some (add_child ?c t)" using Cons.prems(2) by (rule node_at_update_at)
      then have hp: "node_at ?root ?hp = Some ?c" by (simp add: node_at_append add_child_conv)
      have "no_links ?root"
        using Cons.prems(1,2) False no_links_node_at [OF Cons.prems(1,2)]
        by (intro no_links_update_at) (auto simp: add_child_conv no_links_set_hchild nl new_node_def dest: no_links_child)
      from Cons.IH [OF this hp False, of False] Cons.prems(4) obtain q where q:
        "set_components ?root ?hp ns False u = Some (Inr q, update_at ?hp (insert_at u ns) ?root)" by auto
      have "update_at ?hp (insert_at u ns) ?root = update_at p (insert_at u (n # ns)) root"
        unfolding update_at_append update_at_update_at
        using Cons.prems(2) None False by (intro update_at_cong [of root p t]) (simp_all add: add_child_conv)
      with q show ?thesis using False None Cons.prems(2) nl n by (subst set_components.simps) simp
    qed
  next
    case (Some i)
    let ?hp = "p @ [i]"
    have hp: "node_at root ?hp = Some (hchild t ! i)"
      using Cons.prems(2) Some by (auto simp: node_at_append dest: find_child_SomeD)
    have eq: "update_at ?hp (if ns = [] then assign_node u else insert_at u ns) root = update_at p (insert_at u (n # ns)) root"
      unfolding update_at_append using Cons.prems(2) Some by (intro update_at_cong [of root p t]) simp_all
    show ?thesis
    proof (cases "ns = []")
      case True
      then show ?thesis using eq Some Cons.prems(2) nl n by (subst set_components.simps) simp
    next
      case False
      have nlc: "\<not> hlink (hchild t ! i)" using no_links_node_at [OF Cons.prems(1) hp] no_links_hlink by blast
      from Cons.IH [OF Cons.prems(1) hp False, of False] Cons.prems(4) obtain q where
        "set_components root ?hp ns False u = Some (Inr q, update_at ?hp (insert_at u ns) root)" by auto
      with eq False show ?thesis using Some Cons.prems(2) nl nlc n hp by (subst set_components.simps) simp
    qed
  qed
qed simp

lemma hdf_set_value_link_free:
  assumes "no_links root" "node_at root p = Some t" "name \<noteq> []" "[] \<notin> set (components name)"
  shows "\<exists>q. hdf_set_value root p name v = Some (Inr q, update_at p (insert_at (plain v) (components name)) root)"
  using set_components_link_free [OF assms(1,2), of "components name" True "plain v"] assms(3,4)
  by (simp add: hdf_set_value_def set_value_def components_def)

section \<open>Removing\<close>

text \<open>Sibling names are distinct; every operation keeps it so.\<close>

fun names_ok :: "hdf \<Rightarrow> bool" where
  "names_ok (HDF n v l a cs) \<longleftrightarrow> distinct (map hname cs) \<and> (\<forall>c \<in> set cs. names_ok c)"

lemma names_ok_child: "names_ok t \<Longrightarrow> c \<in> set (hchild t) \<Longrightarrow> names_ok c"
  by (cases t) auto

lemma names_ok_set_hchild: "names_ok (set_hchild cs t) \<longleftrightarrow> distinct (map hname cs) \<and> (\<forall>c \<in> set cs. names_ok c)"
  by (cases t) auto

lemma names_ok_distinct: "names_ok t \<Longrightarrow> distinct (map hname (hchild t))"
  by (cases t) auto

lemma names_ok_set_child:
  assumes "names_ok t" "names_ok c" "i < length (hchild t)" "hname c = hname (hchild t ! i)"
  shows "names_ok (set_hchild ((hchild t)[i := c]) t)"
proof -
  have "map hname ((hchild t)[i := c]) = map hname (hchild t)"
    using assms(3,4) by (metis list_update_id map_update nth_map length_map)
  then show ?thesis
    using assms(1,2) set_update_subset_insert [of "hchild t" i c] names_ok_child [OF assms(1)] names_ok_distinct [OF assms(1)]
    by (auto simp: names_ok_set_hchild)
qed

lemma names_ok_insert_at: "names_ok t \<Longrightarrow> names_ok (insert_at u ns t)"
proof (induction ns arbitrary: t)
  case (Cons n ns)
  have new: "names_ok (new_node u n b)" for b by (simp add: new_node_def)
  show ?case
  proof (cases "find_child n (hchild t)")
    case None
    then have "Some n \<notin> hname ` set (hchild t)" by (auto simp: find_child_None_iff)
    then show ?thesis
      using None Cons new names_ok_child [OF Cons.prems] names_ok_distinct [OF Cons.prems]
      by (auto simp: add_child_conv names_ok_set_hchild)
  next
    case (Some i)
    then have i: "i < length (hchild t)" by (auto dest: find_child_SomeD)
    then have ok: "names_ok (hchild t ! i)" using Cons.prems by (auto intro: names_ok_child)
    then have "names_ok (assign_node u (hchild t ! i))" by (cases "hchild t ! i") simp
    then have "names_ok (set_hchild ((hchild t)[i := assign_node u (hchild t ! i)]) t)"
      and "names_ok (set_hchild ((hchild t)[i := insert_at u ns (hchild t ! i)]) t)"
      using names_ok_set_child [OF Cons.prems _ i] Cons.IH [OF ok] by simp_all
    with Some show ?thesis by simp
  qed
qed simp

lemma find_child_remove:
  assumes "distinct (map hname cs)" "find_child n cs = Some i"
  shows "find_child d (take i cs @ drop (Suc i) cs) =
     (if d = n then None else map_option (\<lambda>j. if j < i then j else j - 1) (find_child d cs))"
  using assms
proof (induction cs arbitrary: i)
  case (Cons c cs)
  show ?case
  proof (cases "hname c = Some n")
    case True
    then have "i = 0" using Cons.prems(2) by simp
    moreover have "find_child n cs = None" using Cons.prems(1) True by (auto simp: find_child_None_iff image_iff)
    ultimately show ?thesis using True by (auto simp: option.map_comp comp_def option.map_id0 [unfolded id_def])
  next
    case False
    then obtain j where j: "find_child n cs = Some j" "i = Suc j" using Cons.prems(2) by auto
    have "distinct (map hname cs)" using Cons.prems(1) by simp
    note IH = Cons.IH [OF this j(1)]
    have "find_child d cs \<noteq> Some j" if "d \<noteq> n" using that j(1) by (auto dest!: find_child_SomeD)
    with IH False j(2) show ?thesis
      by (cases "find_child d cs") (auto simp: less_Suc_eq_0_disj)
  qed
qed simp

text \<open>\<open>starts ns ds\<close>: the name \<open>ds\<close> is \<open>ns\<close> or lies below it.\<close>

definition starts :: "string list \<Rightarrow> string list \<Rightarrow> bool" where
  "starts ns ds \<longleftrightarrow> take (length ns) ds = ns"

lemma value_at_remove:
  assumes "names_ok t" "ns \<noteq> []"
  shows "value_at (remove_components ns t) ds = (if starts ns ds then None else value_at t ds)"
  using assms
proof (induction ns arbitrary: t ds)
  case (Cons n ns)
  note d = names_ok_distinct [OF Cons.prems(1)]
  show ?case
  proof (cases ds)
    case Nil
    then show ?thesis by (auto simp: starts_def split: option.splits)
  next
    case (Cons e es)
    note ds = this
    show ?thesis
    proof (cases "find_child n (hchild t)")
      case None
      then show ?thesis using ds by (auto simp: starts_def)
    next
      case (Some i)
      have i: "i < length (hchild t)" "hname (hchild t ! i) = Some n" using find_child_SomeD [OF Some] by auto
      show ?thesis
      proof (cases "ns = []")
        case True
        have nth: "(take i (hchild t) @ drop (Suc i) (hchild t)) ! (if j < i then j else j - 1) = hchild t ! j"
          if "j < length (hchild t)" "j \<noteq> i" for j using that by (auto simp: nth_append)
        have "find_child e (hchild t) \<noteq> Some i" if "e \<noteq> n" using that i(2) by (auto dest: find_child_SomeD)
        moreover have "a < length (hchild t)" if "find_child e (hchild t) = Some a" for a
          using that by (auto dest: find_child_SomeD)
        ultimately show ?thesis
          using True Some ds find_child_remove [OF d Some, of e] nth [of "the (find_child e (hchild t))"]
          by (cases "find_child e (hchild t)") (auto simp: starts_def split: if_splits)
      next
        case False
        have ok: "names_ok (hchild t ! i)" using Cons.prems(1) i by (auto intro: names_ok_child)
        have nm: "hname (remove_components ns s) = hname s" for s by (cases ns) (auto split: option.splits)
        have f: "find_child e ((hchild t)[i := remove_components ns (hchild t ! i)]) = find_child e (hchild t)"
          by (rule find_child_update) (simp add: nm)
        show ?thesis
        proof (cases "e = n")
          case True
          then show ?thesis using Cons.IH [OF ok False, of es] Some ds f i False by (simp add: starts_def)
        next
          case ne: False
          then have "find_child e (hchild t) \<noteq> Some i" using i(2) by (auto dest: find_child_SomeD)
          then show ?thesis using Some ds f i False ne
            by (cases "find_child e (hchild t)") (auto simp: starts_def dest: find_child_SomeD)
        qed
      qed
    qed
  qed
qed simp

lemma no_links_remove: "no_links t \<Longrightarrow> no_links (remove_components ns t)"
proof (induction ns arbitrary: t)
  case (Cons n ns)
  show ?case
  proof (cases "find_child n (hchild t)")
    case (Some i)
    then have "no_links (hchild t ! i)" using Cons.prems by (auto intro: no_links_nth dest: find_child_SomeD)
    then have "no_links (set_hchild ((hchild t)[i := remove_components ns (hchild t ! i)]) t)"
      using Cons by (simp add: no_links_set_child)
    with Some show ?thesis
      using no_links_child [OF Cons.prems] no_links_hlink [OF Cons.prems]
      by (cases "ns = []") (auto simp: no_links_set_hchild dest: in_set_takeD in_set_dropD)
  qed (use Cons in simp)
qed simp

lemma update_at_id: "node_at t p = Some s \<Longrightarrow> update_at p id t = t"
  by (induction t p rule: node_at.induct) (auto split: if_splits)

lemma names_ok_nth [simp]: "names_ok t \<Longrightarrow> i < length (hchild t) \<Longrightarrow> names_ok (hchild t ! i)"
  by (meson names_ok_child nth_mem)

lemma names_ok_node_at: "names_ok t \<Longrightarrow> node_at t p = Some s \<Longrightarrow> names_ok s"
  by (induction t p rule: node_at.induct) (auto split: if_splits)

lemma hname_update_at: "node_at t p = Some s \<Longrightarrow> hname (f s) = hname s \<Longrightarrow> hname (update_at p f t) = hname t"
  by (cases p) auto

lemma names_ok_update_at:
  "names_ok t \<Longrightarrow> node_at t p = Some s \<Longrightarrow> names_ok (f s) \<Longrightarrow> hname (f s) = hname s \<Longrightarrow> names_ok (update_at p f t)"
proof (induction t p rule: node_at.induct)
  case (2 t i p)
  then have i: "i < length (hchild t)" "node_at (hchild t ! i) p = Some s" by (auto split: if_splits)
  then have "names_ok (update_at p f (hchild t ! i))" using 2 names_ok_child by (auto split: if_splits)
  with i 2 show ?case using hname_update_at [OF i(2), of f] by (simp add: names_ok_set_child)
qed simp

lemma show_int_number: "\<not> no_number (show_int i)"
proof (cases "i < 0")
  case True
  obtain c cs where "show_nat (nat (- i)) = c # cs" "isdigit c" using show_nat_Cons by blast
  with True show ?thesis by (simp add: no_number_def show_int_def isspace_def)
next
  case False
  obtain c cs where c: "show_nat (nat i) = c # cs" "isdigit c" using show_nat_Cons by blast
  then have "\<not> isspace c" "c \<noteq> CHR ''-''" "c \<noteq> CHR ''+''" by (auto simp: isdigit_def isspace_def)
  with False c show ?thesis by (simp add: no_number_def show_int_def)
qed

section \<open>Building a tree node by node\<close>

lemma set_value_new:
  assumes "node_at root p = Some t" "\<not> hlink t" "find_child n (hchild t) = None" "n \<noteq> []" "CHR ''.'' \<notin> set n"
  shows "set_value root (Some p) (Some n) u =
     Some (Inr (p @ [length (hchild t)]), update_at p (add_child (HDF (Some n) (s_value u) (s_link u) (s_attr u) [])) root)"
proof -
  have "new_node u n True = HDF (Some n) (s_value u) (s_link u) (s_attr u) []" by (simp add: new_node_def)
  then show ?thesis
    using assms by (subst set_value_def) (simp add: split_dots_plain, subst set_components.simps, simp)
qed

text \<open>
  Trees that can be rebuilt by setting their nodes one by one: names are non-empty, without dots
  and distinct among siblings, and a link has no children.
\<close>

definition simple_name :: "string option \<Rightarrow> bool" where
  "simple_name n \<longleftrightarrow> (case n of None \<Rightarrow> False | Some s \<Rightarrow> s \<noteq> [] \<and> CHR ''.'' \<notin> set s)"

fun buildable :: "hdf \<Rightarrow> bool" where
  "buildable (HDF n v l a cs) \<longleftrightarrow>
     simple_name n \<and> (l \<longrightarrow> cs = []) \<and> distinct (map hname cs) \<and> (\<forall>c \<in> set cs. buildable c)"

lemma hlink_add_child [simp]: "hlink (add_child c t) = hlink t"
  by (cases t) simp

lemma hchild_add_child [simp]: "hchild (add_child c t) = hchild t @ [c]"
  by (cases t) simp

lemma copy_nodes_build:
  assumes "node_at root p = Some t" "\<not> hlink t" "distinct (map hname (hchild t @ sts))" "\<forall>c \<in> set sts. buildable c"
  shows "copy_nodes sts p root = Some (Inr (), update_at p (\<lambda>t. set_hchild (hchild t @ sts) t) root)"
  using assms
proof (induction sts p root arbitrary: t rule: copy_nodes.induct)
  case (1 dest root)
  then have "update_at dest (\<lambda>t. set_hchild (hchild t @ []) t) root = update_at dest id root"
    by (intro update_at_cong [OF 1(1)]) simp
  moreover have "update_at dest id root = root" using 1(1) by (rule update_at_id)
  ultimately show ?case by simp
next
  case (2 n v l a cs sts dest root)
  obtain s where n: "n = Some s" "s \<noteq> []" "CHR ''.'' \<notin> set s"
    using "2.prems"(4) by (auto simp: simple_name_def split: option.splits)
  have cs: "l \<longrightarrow> cs = []" "distinct (map hname cs)" "\<forall>c \<in> set cs. buildable c" using "2.prems"(4) by auto
  have nf: "find_child s (hchild t) = None"
    using "2.prems"(3) n by (auto simp: find_child_None_iff image_iff)
  let ?c = "HDF (Some s) v l a []"
  let ?root1 = "update_at dest (add_child ?c) root"
  let ?dt = "dest @ [length (hchild t)]"
  have s1: "set_value root (Some dest) n \<lparr>s_value = v, s_link = l, s_attr = a\<rparr> = Some (Inr ?dt, ?root1)"
    using set_value_new [OF "2.prems"(1,2) nf n(2,3)] n by simp
  have at1: "node_at ?root1 dest = Some (add_child ?c t)" using "2.prems"(1) by (rule node_at_update_at)
  have dt: "node_at ?root1 ?dt = Some ?c" using at1 by (simp add: node_at_append)
  let ?root2 = "update_at dest (add_child (HDF (Some s) v l a cs)) root"
  have c2: "copy_nodes cs ?dt ?root1 = Some (Inr (), ?root2)"
  proof (cases "cs = []")
    case True
    then show ?thesis by simp
  next
    case False
    with cs have "copy_nodes cs ?dt ?root1 = Some (Inr (), update_at ?dt (\<lambda>t. set_hchild (hchild t @ cs) t) ?root1)"
      using "2.IH"(1) [OF s1 refl refl dt] by simp
    also have "update_at ?dt (\<lambda>t. set_hchild (hchild t @ cs) t) ?root1 = ?root2"
      unfolding update_at_append update_at_update_at
      by (rule update_at_cong [OF "2.prems"(1)]) (simp add: add_child_conv)
    finally show ?thesis .
  qed
  have at2: "node_at ?root2 dest = Some (add_child (HDF (Some s) v l a cs) t)" using "2.prems"(1) by (rule node_at_update_at)
  have "copy_nodes sts dest ?root2 = Some (Inr (), update_at dest (\<lambda>t. set_hchild (hchild t @ sts) t) ?root2)"
    using "2.IH"(2) [OF s1 refl refl c2 refl _ at2] "2.prems"(2-4) n by simp
  also have "update_at dest (\<lambda>t. set_hchild (hchild t @ sts) t) ?root2
      = update_at dest (\<lambda>t. set_hchild (hchild t @ HDF n v l a cs # sts) t) root"
    unfolding update_at_update_at by (rule update_at_cong [OF "2.prems"(1)]) (simp add: add_child_conv n)
  finally show ?case using s1 c2 by simp
qed

section \<open>Properties\<close>

text \<open>
  C27. Setting a value and reading it: on a tree without links, \<open>hdf_set_value\<close> of a name with
  non-empty components terminates without error; afterwards the name reads as the value (or as the
  default for NULL), every other name reads as before, and the tree is again without links and with
  distinct sibling names.
\<close>

theorem hdf_set_get:
  assumes "no_links root" "names_ok root" "node_at root p = Some t" "name \<noteq> []" "[] \<notin> set (components name)"
  shows "\<exists>q root'. hdf_set_value root p name v = Some (Inr q, root') \<and>
     hdf_get_value root' p (Some name) d = Some (case v of None \<Rightarrow> d | Some _ \<Rightarrow> v) \<and>
     (\<forall>other. other \<noteq> name \<longrightarrow> hdf_get_value root' p (Some other) d = hdf_get_value root p (Some other) d) \<and>
     no_links root' \<and> names_ok root'"
proof -
  let ?u = "plain v"
  let ?root = "update_at p (insert_at ?u (components name)) root"
  obtain q where q: "hdf_set_value root p name v = Some (Inr q, ?root)"
    using hdf_set_value_link_free [OF assms(1,3-5)] by blast
  have t': "node_at ?root p = Some (insert_at ?u (components name) t)" using assms(3) by (rule node_at_update_at)
  have nl: "no_links ?root"
    using no_links_node_at [OF assms(1,3)]
    by (intro no_links_update_at [OF assms(1,3)] no_links_insert_at) (auto simp: plain_def)
  have ok: "names_ok ?root"
    using names_ok_node_at [OF assms(2,3)]
    by (intro names_ok_update_at [OF assms(2,3)] names_ok_insert_at) auto
  have ne: "components name \<noteq> []" using assms(4) by (simp add: components_def)
  have pv: "s_value ?u = v" by (simp add: plain_def)
  note get = hdf_get_value_link_free [OF nl t'] hdf_get_value_link_free [OF assms(1,3)] value_at_insert_at [OF ne] pv
  show ?thesis
    using q nl ok by (intro exI conjI) (auto simp: get components_inject split: option.splits)
qed

definition demo_tree :: hdf where
  "demo_tree = HDF None None False [] [HDF (Some ''a'') (Some ''1'') False [] [HDF (Some ''b'') (Some ''2'') False [] []]]"

theorem hdf_set_get_witness:
  "\<exists>q root'. hdf_set_value demo_tree [] ''a.c'' (Some ''3'') = Some (Inr q, root') \<and>
     hdf_get_value root' [] (Some ''a.c'') None = Some (Some ''3'') \<and>
     hdf_get_value root' [] (Some ''a.b'') None = hdf_get_value demo_tree [] (Some ''a.b'') None"
  using hdf_set_get [of demo_tree "[]" demo_tree "''a.c''" "Some ''3''" None]
  by (auto simp: demo_tree_def components_def)

text \<open>
  C37. Removing a name: \<open>hdf_remove_tree\<close> makes the name and every name below it unset and leaves
  every other name as it was.
\<close>

theorem hdf_remove_get:
  assumes "no_links root" "names_ok root" "node_at root p = Some t" "name \<noteq> []"
  shows "hdf_get_value (hdf_remove_tree root p name) p (Some other) d =
     (if starts (components name) (components other) then Some d else hdf_get_value root p (Some other) d)"
proof -
  let ?root = "hdf_remove_tree root p name"
  have ne: "components name \<noteq> []" "split_dots name = components name" using assms(4) by (simp_all add: components_def)
  have t': "node_at ?root p = Some (remove_components (components name) t)"
    unfolding hdf_remove_tree_def ne(2) using assms(3) by (rule node_at_update_at)
  have nl: "no_links ?root"
    unfolding hdf_remove_tree_def
    by (intro no_links_update_at [OF assms(1,3)] no_links_remove no_links_node_at [OF assms(1,3)])
  show ?thesis
    using hdf_get_value_link_free [OF nl t'] hdf_get_value_link_free [OF assms(1,3)]
      value_at_remove [OF names_ok_node_at [OF assms(2,3)] ne(1)] by simp
qed

theorem hdf_remove_get_witness:
  "hdf_get_value (hdf_remove_tree demo_tree [] ''a'') [] (Some ''a.b'') (Some ''gone'') = Some (Some ''gone'')"
  using hdf_remove_get [of demo_tree "[]" demo_tree "''a''" "''a.b''" "Some ''gone''"]
  by (simp add: demo_tree_def components_def starts_def)

text \<open>
  A number survives: the value \<open>hdf_set_int_value\<close> stores for any 32-bit integer is read back by
  \<open>hdf_get_int_value\<close>, whatever the default.
\<close>

theorem hdf_int_roundtrip:
  assumes "no_links root" "node_at root p = Some t" "name \<noteq> []" "[] \<notin> set (components name)"
    and "- 2147483648 \<le> i" "i \<le> 2147483647"
  shows "\<exists>q root'. hdf_set_int_value root p name i = Some (Inr q, root') \<and>
     hdf_get_int_value root' p (Some name) d = Some i"
proof -
  let ?u = "plain (Some (show_int i))"
  let ?t = "insert_at ?u (components name) t"
  let ?root = "update_at p (insert_at ?u (components name)) root"
  obtain q where q: "hdf_set_int_value root p name i = Some (Inr q, ?root)"
    using hdf_set_value_link_free [OF assms(1-4)] by (auto simp: hdf_set_int_value_def hdf_set_value_def)
  have t': "node_at ?root p = Some ?t" using assms(2) by (rule node_at_update_at)
  have nl: "no_links ?root"
    using no_links_node_at [OF assms(1,2)]
    by (intro no_links_update_at [OF assms(1,2)] no_links_insert_at) (auto simp: plain_def)
  have ne: "components name \<noteq> []" using assms(3) by (simp add: components_def)
  have "value_at ?t (components name) = Some (show_int i)"
    using value_at_insert_at [OF ne, of ?u t "components name"] by (simp add: plain_def)
  then obtain r s where r: "lookup_path ?t (components name) = Some r" "node_at ?t r = Some s" "hvalue s = Some (show_int i)"
    by (auto simp: value_at_def split: option.splits)
  have "\<not> no_number (show_int i)" by (rule show_int_number)
  moreover have "to_int32 (strtoll (show_int i)) = i" using atoi_show_int [OF assms(5,6)] by (simp add: atoi_def)
  ultimately have "hdf_get_int_value ?root p (Some name) d = Some i"
    using r walk_hdf_link_free [OF nl t', of name] t' by (simp add: hdf_get_int_value_def node_at_append)
  with q show ?thesis by blast
qed

theorem hdf_int_roundtrip_witness:
  "\<exists>q root'. hdf_set_int_value demo_tree [] ''n'' (-42) = Some (Inr q, root') \<and>
     hdf_get_int_value root' [] (Some ''n'') 0 = Some (-42)"
  using hdf_int_roundtrip [of demo_tree "[]" demo_tree "''n''" "-42" 0] by (simp add: demo_tree_def components_def)

text \<open>
  Copying is exact: \<open>_copy_nodes\<close> into a node whose children have other names terminates and
  appends the source's children unchanged, with their values, links, attributes and subtrees.
\<close>

theorem copy_nodes_exact:
  assumes "node_at root p = Some t" "\<not> hlink t" "distinct (map hname (hchild t @ sts))" "\<forall>c \<in> set sts. buildable c"
  shows "\<exists>root'. copy_nodes sts p root = Some (Inr (), root') \<and> node_at root' p = Some (set_hchild (hchild t @ sts) t)"
  using copy_nodes_build [OF assms] node_at_update_at [OF assms(1), of "\<lambda>t. set_hchild (hchild t @ sts) t"] by blast

theorem copy_nodes_exact_witness:
  "\<exists>root'. copy_nodes (hchild demo_tree) [] hdf_init = Some (Inr (), root') \<and> node_at root' [] = Some demo_tree"
  using copy_nodes_exact [of hdf_init "[]" hdf_init "hchild demo_tree"]
  by (simp add: demo_tree_def hdf_init_def simple_name_def)

end
