(* ===== verification/Neo_Str.thy ===== *)
theory Neo_Str
  imports Cstring Neo_Err
begin

text \<open>
  Growing strings and escaping (clearsilver/util/neo_str.c). A \<open>STRING\<close> is a block of memory with a
  used length and a capacity; the block is a list of bytes and every write is checked against it,
  so that a write outside the block is \<open>None\<close>. \<open>malloc\<close> is a parameter: it may refuse, and a block
  it returns has the size asked for and any contents. The escaping routines run twice over their
  input, once to size the output block and once to fill it; the model keeps both passes and fills
  a block of the computed size, so a wrong size shows as \<open>None\<close>.

  The code keeps lengths and sizes in \<open>int\<close>. The growing string computes ten times a length and
  doubles its capacity in that type, so its overflow is written out: an \<open>int\<close> that would pass
  \<open>INT_MAX\<close> is \<open>None\<close>, and so are the sizes of the blocks of the escaping routines. Only
  \<open>repr_string_alloc\<close>, whose size is at most four times the input and three more, has no such test.
\<close>

section \<open>Trimming and copying\<close>

definition neos_rstrip :: "string \<Rightarrow> string" where
  "neos_rstrip s = rev (dropWhile isspace (rev s))"

definition neos_strip :: "string \<Rightarrow> string" where
  "neos_strip s = dropWhile isspace (neos_rstrip s)"

definition neos_lower :: "string \<Rightarrow> string" where
  "neos_lower s = map tolower s"

definition neos_strndup :: "string \<Rightarrow> nat \<Rightarrow> string" where
  "neos_strndup s len = takeWhile (\<lambda>c. c \<noteq> NUL) (take len s)"

section \<open>The growing string\<close>

record string_t =
  str_buf :: "bytes option"
  str_len :: nat
  str_max :: nat
  str_fixed :: bool

definition string_init :: string_t where
  "string_init = \<lparr>str_buf = None, str_len = 0, str_max = 0, str_fixed = False\<rparr>"

definition string_clear :: "string_t \<Rightarrow> string_t" where
  "string_clear str = string_init"

text \<open>The doubling loop \<open>do new_max *= 2; while (need >= new_max)\<close>, in \<open>int\<close>.\<close>

partial_function (option) double_max :: "nat \<Rightarrow> nat \<Rightarrow> nat option" where
  [code]: "double_max need m = do {
     m2 \<leftarrow> c_int (2 * m);
     if need \<ge> m2 then double_max need m2 else Some m2 }"

text \<open>\<open>realloc\<close> to a larger size: a new block that starts with the old contents.\<close>

definition grow_block :: "(nat \<Rightarrow> bytes option) \<Rightarrow> bytes \<Rightarrow> nat \<Rightarrow> bytes option" where
  "grow_block malloc b n = map_option (\<lambda>nb. b @ drop (length b) nb) (malloc n)"

type_synonym string_res = "((int + unit) \<times> string_t) option"

definition string_check_length :: "(nat \<Rightarrow> bytes option) \<Rightarrow> string_t \<Rightarrow> nat \<Rightarrow> string_res" where
  "string_check_length malloc str l =
     (case str_buf str of
        None \<Rightarrow> do {
          l10 \<leftarrow> c_int (l * 10);
          let mx = (if l10 > 256 then l10 else 256);
          (case malloc mx of
             None \<Rightarrow> Some (Inl NERR_NOMEM, str\<lparr>str_max := mx\<rparr>)
           | Some b \<Rightarrow> Some (Inr (), str\<lparr>str_buf := Some b, str_max := mx\<rparr>)) }
      | Some b \<Rightarrow> do {
          need \<leftarrow> c_int (str_len str + l);
          if need \<ge> str_max str then
            (if str_fixed str then Some (Inl NERR_ASSERT, str)
             else do {
               mx \<leftarrow> double_max need (str_max str);
               (case grow_block malloc b mx of
                  None \<Rightarrow> Some (Inl NERR_NOMEM, str)
                | Some b' \<Rightarrow> Some (Inr (), str\<lparr>str_buf := Some b', str_max := mx\<rparr>)) })
          else Some (Inr (), str) })"

text \<open>Write \<open>bs\<close> and a NUL at the end of the string and make it \<open>length bs\<close> longer.\<close>

definition string_write :: "string_t \<Rightarrow> bytes \<Rightarrow> string_res" where
  "string_write str bs = do {
     b \<leftarrow> str_buf str;
     b' \<leftarrow> wr b (str_len str) (bs @ [NUL]);
     Some (Inr (), str\<lparr>str_buf := Some b', str_len := str_len str + length bs\<rparr>) }"

definition string_append :: "(nat \<Rightarrow> bytes option) \<Rightarrow> string_t \<Rightarrow> string \<Rightarrow> string_res" where
  "string_append malloc str buf = do {
     (r, str') \<leftarrow> string_check_length malloc str (length buf);
     (case r of Inl e \<Rightarrow> Some (Inl e, str') | Inr _ \<Rightarrow> string_write str' buf) }"

definition string_appendn :: "(nat \<Rightarrow> bytes option) \<Rightarrow> string_t \<Rightarrow> bytes \<Rightarrow> nat \<Rightarrow> string_res" where
  "string_appendn malloc str buf l = do {
     (r, str') \<leftarrow> string_check_length malloc str (l + 1);
     (case r of Inl e \<Rightarrow> Some (Inl e, str') | Inr _ \<Rightarrow> do { bs \<leftarrow> rdn buf 0 l; string_write str' bs }) }"

definition string_append_char :: "(nat \<Rightarrow> bytes option) \<Rightarrow> string_t \<Rightarrow> char \<Rightarrow> string_res" where
  "string_append_char malloc str c = do {
     (r, str') \<leftarrow> string_check_length malloc str 1;
     (case r of Inl e \<Rightarrow> Some (Inl e, str') | Inr _ \<Rightarrow> string_write str' [c]) }"

text \<open>
  \<open>string_appendvf\<close> with the text \<open>vsnprintf\<close> produces: short texts go through a buffer on the stack,
  longer ones are formatted in place.
\<close>

definition string_appendvf :: "(nat \<Rightarrow> bytes option) \<Rightarrow> string_t \<Rightarrow> string \<Rightarrow> string_res" where
  "string_appendvf malloc str tx =
     (let bl = length tx in
      if bl < 4096 then string_appendn malloc str tx bl
      else do {
        (r, str') \<leftarrow> string_check_length malloc str (bl + 1);
        (case r of Inl e \<Rightarrow> Some (Inl e, str') | Inr _ \<Rightarrow> string_write str' tx) })"

definition string_set :: "(nat \<Rightarrow> bytes option) \<Rightarrow> string_t \<Rightarrow> string \<Rightarrow> string_res" where
  "string_set malloc str buf = string_append malloc (str\<lparr>str_len := 0\<rparr>) buf"

section \<open>Escaping\<close>

text \<open>\<open>emit cap out bs\<close>: the stores \<open>s[nl++] = ...\<close> into a block of \<open>cap\<close> bytes.\<close>

definition emit :: "nat \<Rightarrow> bytes \<Rightarrow> bytes \<Rightarrow> bytes option" where
  "emit cap out bs = (if length out + length bs \<le> cap then Some (out @ bs) else None)"

definition hex_digit :: "nat \<Rightarrow> char" where
  "hex_digit n = ''0123456789ABCDEF'' ! n"

definition hex2 :: "char \<Rightarrow> string" where
  "hex2 c = [hex_digit (code_of c div 16), hex_digit (code_of c mod 16)]"

text \<open>
  \<open>buf\<close> is unsigned and \<open>esc_char\<close> and \<open>escape\<close> are signed characters: a byte above 127 equals none
  of them.
\<close>

definition esc_match :: "char \<Rightarrow> string \<Rightarrow> char \<Rightarrow> bool" where
  "esc_match esc escape c \<longleftrightarrow> code_of c < 128 \<and> (c = esc \<or> c \<in> set escape)"

fun esc_size :: "char \<Rightarrow> string \<Rightarrow> bytes \<Rightarrow> nat" where
  "esc_size esc escape [] = 0"
| "esc_size esc escape (c # cs) = (if esc_match esc escape c then 2 else 0) + 1 + esc_size esc escape cs"

fun esc_fill :: "char \<Rightarrow> string \<Rightarrow> nat \<Rightarrow> bytes \<Rightarrow> bytes \<Rightarrow> bytes option" where
  "esc_fill esc escape cap out [] = emit cap out [NUL]"
| "esc_fill esc escape cap out (c # cs) = do {
     out' \<leftarrow> emit cap out (if esc_match esc escape c then esc # hex2 c else [c]);
     esc_fill esc escape cap out' cs }"

definition neos_escape :: "bool \<Rightarrow> bytes \<Rightarrow> char \<Rightarrow> string \<Rightarrow> (int + bytes) option" where
  "neos_escape nomem buf esc escape =
     do {
       size \<leftarrow> c_int (esc_size esc escape buf + 1);
       if nomem then Some (Inl NERR_NOMEM) else map_option Inr (esc_fill esc escape size [] buf) }"

definition isxdigit :: "char \<Rightarrow> bool" where
  "isxdigit c \<longleftrightarrow> isdigit c \<or> (65 \<le> code_of c \<and> code_of c \<le> 70) \<or> (97 \<le> code_of c \<and> code_of c \<le> 102)"

definition xvalue :: "char \<Rightarrow> nat" where
  "xvalue c = (if code_of c \<ge> 65 then (if code_of c \<ge> 97 then code_of c - 32 else code_of c) - 65 + 10 else code_of c - 48)"

text \<open>\<open>neos_unescape\<close> works in place; the reading index is never behind the writing index.\<close>

fun neos_unescape :: "char \<Rightarrow> bytes \<Rightarrow> bytes" where
  "neos_unescape esc [] = []"
| "neos_unescape esc (c # cs) =
     (if c = esc \<and> code_of esc < 128 \<and> 2 \<le> length cs \<and> isxdigit (cs ! 0) \<and> isxdigit (cs ! 1)
      then char_of (xvalue (cs ! 0) * 16 + xvalue (cs ! 1)) # neos_unescape esc (drop 2 cs)
      else c # neos_unescape esc cs)"

definition isprint :: "char \<Rightarrow> bool" where
  "isprint c \<longleftrightarrow> 32 \<le> code_of c \<and> code_of c \<le> 126"

definition octal3 :: "char \<Rightarrow> string" where
  "octal3 c = [char_of (48 + code_of c div 64), char_of (48 + code_of c div 8 mod 8), char_of (48 + code_of c mod 8)]"

definition repr_char :: "char \<Rightarrow> string" where
  "repr_char c =
     (if isprint c \<and> c \<noteq> CHR 34 \<and> c \<noteq> CHR 92 then [c]
      else CHR 92 # (if c = CHR 10 then ''n'' else if c = CHR 9 then ''t'' else if c = CHR 13 then ''r''
                     else if c = CHR 34 \<or> c = CHR 92 then [c] else octal3 c))"

fun repr_size :: "string \<Rightarrow> nat" where
  "repr_size [] = 0"
| "repr_size (c # cs) =
     (if isprint c \<and> c \<noteq> CHR 34 \<and> c \<noteq> CHR 92 then 1
      else if c \<in> {CHR 10, CHR 9, CHR 13, CHR 34, CHR 92} then 2 else 4) + repr_size cs"

fun repr_fill :: "nat \<Rightarrow> bytes \<Rightarrow> string \<Rightarrow> bytes option" where
  "repr_fill cap out [] = emit cap out [CHR 34, NUL]"
| "repr_fill cap out (c # cs) = do { out' \<leftarrow> emit cap out (repr_char c); repr_fill cap out' cs }"

definition repr_string_alloc :: "string option \<Rightarrow> bytes option" where
  "repr_string_alloc s =
     (case s of
        None \<Rightarrow> Some (''NULL'' @ [NUL])
      | Some s \<Rightarrow> do { out \<leftarrow> emit (repr_size s + 3) [] [CHR 34]; repr_fill (repr_size s + 3) out s })"

definition js_special :: "char \<Rightarrow> bool" where
  "js_special c \<longleftrightarrow> c \<in> set [CHR 47, CHR 34, CHR 39, CHR 92, CHR 62, CHR 60, CHR 38, CHR 59] \<or> code_of c < 32"

fun js_size :: "string \<Rightarrow> nat" where
  "js_size [] = 0"
| "js_size (c # cs) = (if js_special c then 3 else 0) + 1 + js_size cs"

fun js_fill :: "nat \<Rightarrow> bytes \<Rightarrow> string \<Rightarrow> bytes option" where
  "js_fill cap out [] = emit cap out [NUL]"
| "js_fill cap out (c # cs) = do {
     out' \<leftarrow> emit cap out (if js_special c then CHR 92 # CHR ''x'' # hex2 c else [c]);
     js_fill cap out' cs }"

definition neos_js_escape :: "bool \<Rightarrow> string \<Rightarrow> (int + bytes) option" where
  "neos_js_escape nomem s =
     do {
       size \<leftarrow> c_int (js_size s + 1);
       if nomem then Some (Inl NERR_NOMEM) else map_option Inr (js_fill size [] s) }"

definition QueryReservedChars :: string where
  "QueryReservedChars = ''$&+,/:;=?@ '' @ [CHR 34] @ ''<>#%{}|'' @ [CHR 92] @ ''^~[]'' @ [CHR 96, CHR 39]"

definition CssReservedChars :: string where
  "CssReservedChars = [CHR 10, CHR 13, CHR 34, CHR 39] @ ''()*<>'' @ [CHR 92]"

definition url_match :: "string \<Rightarrow> string option \<Rightarrow> bool \<Rightarrow> char \<Rightarrow> bool" where
  "url_match reserved other nonprint c \<longleftrightarrow>
     c \<in> set reserved \<or> (nonprint \<and> (code_of c < 32 \<or> code_of c > 126)) \<or>
     (case other of None \<Rightarrow> False | Some cs \<Rightarrow> c \<in> set cs)"

fun url_size :: "string \<Rightarrow> string option \<Rightarrow> bool \<Rightarrow> string \<Rightarrow> nat" where
  "url_size reserved other np [] = 0"
| "url_size reserved other np (c # cs) = (if url_match reserved other np c then 2 else 0) + 1 + url_size reserved other np cs"

definition url_char :: "string \<Rightarrow> string option \<Rightarrow> bool \<Rightarrow> char \<Rightarrow> string" where
  "url_char reserved other np c =
     (if c = CHR '' '' \<and> c \<in> set reserved then ''+''
      else if url_match reserved other np c then CHR ''%'' # hex2 c else [c])"

fun url_fill :: "string \<Rightarrow> string option \<Rightarrow> bool \<Rightarrow> nat \<Rightarrow> bytes \<Rightarrow> string \<Rightarrow> bytes option" where
  "url_fill reserved other np cap out [] = emit cap out [NUL]"
| "url_fill reserved other np cap out (c # cs) = do {
     out' \<leftarrow> emit cap out (url_char reserved other np c);
     url_fill reserved other np cap out' cs }"

definition url_escape_helper :: "bool \<Rightarrow> string \<Rightarrow> string \<Rightarrow> string option \<Rightarrow> bool \<Rightarrow> (int + bytes) option" where
  "url_escape_helper nomem s reserved other np =
     do {
       size \<leftarrow> c_int (url_size reserved other np s + 1);
       if nomem then Some (Inl NERR_NOMEM) else map_option Inr (url_fill reserved other np size [] s) }"

definition neos_url_escape :: "bool \<Rightarrow> string \<Rightarrow> string option \<Rightarrow> (int + bytes) option" where
  "neos_url_escape nomem s other = url_escape_helper nomem s QueryReservedChars other True"

definition css_url_escape :: "bool \<Rightarrow> string \<Rightarrow> (int + bytes) option" where
  "css_url_escape nomem s = url_escape_helper nomem s CssReservedChars None False"

definition html_special :: "char \<Rightarrow> bool" where
  "html_special c \<longleftrightarrow> c \<in> set [CHR 38, CHR 60, CHR 62, CHR 34, CHR 39, CHR 13]"

definition html_entity :: "char \<Rightarrow> string" where
  "html_entity c =
     (if c = CHR 38 then ''&amp;'' else if c = CHR 60 then ''&lt;'' else if c = CHR 62 then ''&gt;''
      else if c = CHR 34 then ''&quot;'' else if c = CHR 39 then ''&#39;'' else [])"

text \<open>
  The loop of \<open>neos_html_escape\<close> on what is left of the input; \<open>strpbrk\<close> stops at a NUL, and then the
  whole rest is copied as it is.
\<close>

function html_loop :: "(nat \<Rightarrow> bytes option) \<Rightarrow> string_t \<Rightarrow> bytes \<Rightarrow> string_res" where
  "html_loop malloc out_s src =
     (if src = [] then Some (Inr (), out_s)
      else
        let pre = takeWhile (\<lambda>c. \<not> html_special c \<and> c \<noteq> NUL) src; rest = drop (length pre) src in
        if rest = [] \<or> hd rest = NUL then string_appendn malloc out_s src (length src)
        else do {
          (r, out1) \<leftarrow> string_appendn malloc out_s src (length pre);
          (case r of
             Inl e \<Rightarrow> Some (Inl e, out1)
           | Inr _ \<Rightarrow> do {
               (r2, out2) \<leftarrow> (if hd rest = CHR 13 then Some (Inr (), out1)
                              else string_append malloc out1 (html_entity (hd rest)));
               (case r2 of Inl e \<Rightarrow> Some (Inl e, out2) | Inr _ \<Rightarrow> html_loop malloc out2 (tl rest)) }) })"
  by auto
termination
proof (relation "measure (\<lambda>(malloc, out_s, src). length src)", goal_cases)
  case 1
  then show ?case by simp
next
  case (2 malloc out_s src pre rest)
  then have "rest \<noteq> []" "length rest \<le> length src" by auto
  then show ?case by (cases rest) auto
qed

definition neos_html_escape :: "(nat \<Rightarrow> bytes option) \<Rightarrow> bytes \<Rightarrow> (int + bytes) option" where
  "neos_html_escape malloc src = do {
     (r, s0) \<leftarrow> string_append malloc string_init [];
     (case r of
        Inl e \<Rightarrow> Some (Inl e)
      | Inr _ \<Rightarrow> do {
          (r, s1) \<leftarrow> html_loop malloc s0 src;
          (case r of Inl e \<Rightarrow> Some (Inl e) | Inr _ \<Rightarrow> map_option Inr (str_buf s1)) }) }"

datatype neos_escape_mode = NEOS_ESCAPE_HTML | NEOS_ESCAPE_CSS_URL | NEOS_ESCAPE_OTHER

definition URL_PROTOCOLS :: "string list" where
  "URL_PROTOCOLS = [''http://'', ''https://'', ''ftp://'', ''mailto:'']"

definition url_ok :: "string \<Rightarrow> bool" where
  "url_ok s \<longleftrightarrow>
     CHR '':'' \<notin> set (takeWhile (\<lambda>c. c \<noteq> CHR ''/'') s) \<or>
     (\<exists>p \<in> set URL_PROTOCOLS. length p \<le> length s \<and> map tolower (take (length p) s) = map tolower p)"

definition url_validate :: "(nat \<Rightarrow> bytes option) \<Rightarrow> string \<Rightarrow> neos_escape_mode \<Rightarrow> (int + bytes) option" where
  "url_validate malloc s mode =
     (if url_ok s then
        (case mode of
           NEOS_ESCAPE_HTML \<Rightarrow> neos_html_escape malloc s
         | NEOS_ESCAPE_CSS_URL \<Rightarrow> css_url_escape (malloc (url_size CssReservedChars None False s + 1) = None) s
         | NEOS_ESCAPE_OTHER \<Rightarrow> Some (Inl NERR_ASSERT))
      else do {
        (r, out_s) \<leftarrow> string_append malloc string_init ''#'';
        (case r of Inl e \<Rightarrow> Some (Inl e) | Inr _ \<Rightarrow> map_option Inr (str_buf out_s)) })"

definition neos_url_validate :: "(nat \<Rightarrow> bytes option) \<Rightarrow> string \<Rightarrow> (int + bytes) option" where
  "neos_url_validate malloc s = url_validate malloc s NEOS_ESCAPE_HTML"

definition neos_css_url_validate :: "(nat \<Rightarrow> bytes option) \<Rightarrow> string \<Rightarrow> (int + bytes) option" where
  "neos_css_url_validate malloc s = url_validate malloc s NEOS_ESCAPE_CSS_URL"

text \<open>
  \<open>neos_var_escape\<close>: the context is a set of bits, of which \<open>URL\<close> comes before \<open>SCRIPT\<close> before
  \<open>HTML\<close>.
\<close>

definition neos_var_escape :: "(nat \<Rightarrow> bytes option) \<Rightarrow> u32 \<Rightarrow> string \<Rightarrow> (int + bytes) option" where
  "neos_var_escape malloc context s =
     (if context = 1 \<or> context = 32 then Some (Inr (s @ [NUL]))
      else if context AND 8 \<noteq> 0 then neos_url_escape (malloc (url_size QueryReservedChars None True s + 1) = None) s None
      else if context AND 4 \<noteq> 0 then neos_js_escape (malloc (js_size s + 1) = None) s
      else if context AND 2 \<noteq> 0 then neos_html_escape malloc s
      else Some (Inl NERR_ASSERT))"

section \<open>The growing string is safe\<close>

definition malloc_ok :: "(nat \<Rightarrow> bytes option) \<Rightarrow> bool" where
  "malloc_ok malloc \<longleftrightarrow> (\<forall>n b. malloc n = Some b \<longrightarrow> length b = n)"

text \<open>\<open>str_inv str s\<close>: the block is as large as recorded and starts with \<open>s\<close> and a NUL.\<close>

definition str_inv :: "string_t \<Rightarrow> bytes \<Rightarrow> bool" where
  "str_inv str s \<longleftrightarrow> str_len str = length s \<and>
     (case str_buf str of None \<Rightarrow> s = []
      | Some b \<Rightarrow> length b = str_max str \<and> length s < str_max str \<and> take (length s) b = s \<and> b ! length s = NUL)"

definition str_room :: "string_t \<Rightarrow> bytes \<Rightarrow> nat \<Rightarrow> bool" where
  "str_room str s l \<longleftrightarrow> str_len str = length s \<and>
     (\<exists>b. str_buf str = Some b \<and> length b = str_max str \<and> length s + l < str_max str \<and> take (length s) b = s)"

text \<open>
  An append of \<open>l\<close> bytes stays inside \<open>int\<close>: ten times \<open>l\<close> when it allocates the block, twice the new
  length otherwise.
\<close>

definition in_int :: "string_t \<Rightarrow> nat \<Rightarrow> bool" where
  "in_int str l \<longleftrightarrow> (if str_buf str = None then l * 10 \<le> INT_MAX else 2 * (str_len str + l) \<le> INT_MAX)"

lemma double_max_Some:
  "0 < m \<Longrightarrow> m \<le> need \<Longrightarrow> 2 * need \<le> INT_MAX \<Longrightarrow> double_max need m \<noteq> None"
proof (induction "need - m" arbitrary: m rule: less_induct)
  case less
  have m: "c_int (2 * m) = Some (2 * m)" using less.prems by simp
  show ?case
  proof (cases "need \<ge> 2 * m")
    case True
    then have "need - 2 * m < need - m" "0 < 2 * m" using less.prems by auto
    from less.hyps [OF this True less.prems(3)] show ?thesis using True m by (subst double_max.simps) simp
  next
    case False
    then show ?thesis using m by (subst double_max.simps) simp
  qed
qed

lemma double_max_large:
  assumes "double_max need m = Some m'" "0 < m"
  shows "need < m' \<and> m < m'"
proof -
  have "0 < m \<longrightarrow> need < m' \<and> m < m'"
    by (rule double_max.raw_induct [OF _ assms(1), of "\<lambda>need m m'. 0 < m \<longrightarrow> need < m' \<and> m < m'"])
       (fastforce simp: bind_eq_Some_conv split: if_splits)
  then show ?thesis using assms(2) by simp
qed

lemma check_length_room:
  assumes "malloc_ok malloc" "str_inv str s"
  shows "in_int str l \<Longrightarrow> string_check_length malloc str l \<noteq> None"
    and "string_check_length malloc str l = Some (r, str') \<Longrightarrow> if r = Inr () then str_room str' s l else str_inv str' s"
proof -
  assume i: "in_int str l"
  show "string_check_length malloc str l \<noteq> None"
  proof (cases "str_buf str")
    case None
    then show ?thesis using i by (auto simp: string_check_length_def in_int_def Let_def split: option.splits)
  next
    case (Some b)
    have "0 < str_max str" using assms(2) Some by (auto simp: str_inv_def)
    then have "double_max (str_len str + l) (str_max str) \<noteq> None" if "str_len str + l \<ge> str_max str"
      using double_max_Some that i Some by (simp add: in_int_def)
    then obtain mx where "str_len str + l \<ge> str_max str \<Longrightarrow> double_max (str_len str + l) (str_max str) = Some mx" by blast
    moreover have "c_int (str_len str + l) = Some (str_len str + l)" using i Some by (simp add: in_int_def)
    ultimately show ?thesis using Some by (cases "grow_block malloc b mx") (simp_all add: string_check_length_def del: c_int_eq_Some)
  qed
next
  assume run: "string_check_length malloc str l = Some (r, str')"
  show "if r = Inr () then str_room str' s l else str_inv str' s"
  proof (cases "str_buf str")
    case None
    define mx where "mx = (if l * 10 > 256 then l * 10 else (256 :: nat))"
    have lt: "l < mx" by (auto simp: mx_def)
    have s: "s = []" "str_len str = 0" using assms(2) None by (auto simp: str_inv_def)
    have "(case malloc mx of
        None \<Rightarrow> Some (Inl NERR_NOMEM, str\<lparr>str_max := mx\<rparr>)
      | Some b \<Rightarrow> Some (Inr (), str\<lparr>str_buf := Some b, str_max := mx\<rparr>)) = Some (r, str')"
      using run by (cases "l * 10 \<le> INT_MAX") (simp_all only: string_check_length_def None option.case Let_def mx_def c_int_simps not_le
        bind.bind_lunit bind.bind_lzero option.distinct)
    then show ?thesis using assms(1,2) lt s None
      by (auto simp: str_inv_def str_room_def malloc_ok_def split: option.splits)
  next
    case (Some b)
    have b: "str_len str = length s" "length b = str_max str" "length s < str_max str" "take (length s) b = s"
      using assms(2) Some by (auto simp: str_inv_def)
    have need: "c_int (str_len str + l) = Some (str_len str + l)"
      using run by (cases "str_len str + l \<le> INT_MAX") (simp_all add: string_check_length_def Some)
    note run' = run [unfolded string_check_length_def Some option.case need bind.bind_lunit]
    show ?thesis
    proof (cases "str_len str + l \<ge> str_max str \<and> \<not> str_fixed str")
      case True
      then obtain mx where mx: "double_max (str_len str + l) (str_max str) = Some mx"
        using run' by (auto simp: bind_eq_Some_conv)
      have lt: "str_len str + l < mx" "str_max str < mx" using double_max_large [OF mx] b by auto
      have "(case malloc mx of None \<Rightarrow> Some (Inl NERR_NOMEM, str)
         | Some nb \<Rightarrow> Some (Inr (), str\<lparr>str_buf := Some (b @ drop (length b) nb), str_max := mx\<rparr>)) = Some (r, str')"
        using run' True by (simp add: mx grow_block_def split: option.splits)
      then show ?thesis using assms b lt by (auto simp: str_room_def malloc_ok_def split: option.splits)
    next
      case False
      then show ?thesis using run' assms(2) b Some by (auto simp: str_room_def split: if_splits)
    qed
  qed
qed

lemma string_write_inv:
  assumes "str_room str s l" "length bs \<le> l"
  shows "\<exists>str'. string_write str bs = Some (Inr (), str') \<and> str_inv str' (s @ bs) \<and> str_buf str' \<noteq> None"
proof -
  obtain b where b: "str_buf str = Some b" "length b = str_max str" "length s + l < str_max str" "take (length s) b = s"
    "str_len str = length s" using assms(1) by (auto simp: str_room_def)
  have "wr b (length s) (bs @ [NUL]) = Some (s @ bs @ NUL # drop (length s + Suc (length bs)) b)"
    using b assms(2) by (auto simp: wr_def)
  then show ?thesis using b assms(2) by (auto simp: string_write_def str_inv_def nth_append)
qed

text \<open>
  What every append does when it returns: it fails and keeps the string, or it appends its text; and it
  returns when its lengths stay inside \<open>int\<close>.
\<close>

definition appends :: "bool \<Rightarrow> string_res \<Rightarrow> bytes \<Rightarrow> bytes \<Rightarrow> bool" where
  "appends fits res s bs \<longleftrightarrow> (fits \<longrightarrow> res \<noteq> None) \<and>
     (\<forall>r str'. res = Some (r, str') \<longrightarrow> str_inv str' (if r = Inr () then s @ bs else s) \<and> (r = Inr () \<longrightarrow> str_buf str' \<noteq> None))"

lemma appendsD:
  assumes "appends fits res s bs" "res = Some (r, str')"
  shows "str_inv str' (if r = Inr () then s @ bs else s)" "r = Inr () \<Longrightarrow> str_buf str' \<noteq> None"
  using assms by (auto simp: appends_def)

lemma check_then_write:
  assumes "malloc_ok malloc" "str_inv str s" "length bs \<le> l"
  shows "appends (in_int str l) (do { (r, str') \<leftarrow> string_check_length malloc str l;
     (case r of Inl e \<Rightarrow> Some (Inl e, str') | Inr _ \<Rightarrow> string_write str' bs) }) s bs"
proof (cases "string_check_length malloc str l")
  case None
  then show ?thesis using check_length_room(1) [OF assms(1,2), of l] by (simp add: appends_def) blast
next
  case (Some res)
  obtain r str' where res: "res = (r, str')" by (cases res)
  have c: "if r = Inr () then str_room str' s l else str_inv str' s" using check_length_room(2) [OF assms(1,2)] Some res by simp
  show ?thesis
  proof (cases r)
    case (Inl e)
    then show ?thesis using Some res c by (simp add: appends_def)
  next
    case (Inr u)
    then have "str_room str' s l" using c by simp
    from string_write_inv [OF this assms(3)] show ?thesis using Some res Inr by (auto simp: appends_def)
  qed
qed

lemma string_append_appends:
  "malloc_ok malloc \<Longrightarrow> str_inv str s \<Longrightarrow> appends (in_int str (length buf)) (string_append malloc str buf) s buf"
  unfolding string_append_def by (rule check_then_write) simp_all

lemma string_append_char_appends:
  "malloc_ok malloc \<Longrightarrow> str_inv str s \<Longrightarrow> appends (in_int str 1) (string_append_char malloc str c) s [c]"
  unfolding string_append_char_def by (rule check_then_write) simp_all

lemma rdn_0 [simp]: "l \<le> length buf \<Longrightarrow> rdn buf 0 l = Some (take l buf)"
  by (simp add: rdn_def)

lemma string_appendn_appends:
  assumes "malloc_ok malloc" "str_inv str s" "l \<le> length buf"
  shows "appends (in_int str (l + 1)) (string_appendn malloc str buf l) s (take l buf)"
proof -
  have r: "rdn buf 0 l = Some (take l buf)" using assms(3) by simp
  show ?thesis
    unfolding string_appendn_def r bind.bind_lunit using assms by (intro check_then_write) simp_all
qed

lemma string_appendvf_appends:
  "malloc_ok malloc \<Longrightarrow> str_inv str s \<Longrightarrow> appends (in_int str (length tx + 1)) (string_appendvf malloc str tx) s tx"
  unfolding string_appendvf_def Let_def
  using check_then_write [of malloc str s tx "length tx + 1"] string_appendn_appends [of malloc str s "length tx" tx]
  by simp

lemma in_int_le: "in_int str l \<Longrightarrow> l' \<le> l \<Longrightarrow> in_int str l'"
  by (auto simp: in_int_def split: if_splits)

lemma str_inv_init [simp]: "str_inv string_init s \<longleftrightarrow> s = []"
  by (auto simp: str_inv_def string_init_def)


text \<open>Sequences of appends.\<close>

datatype strop = Append string | AppendN string nat | AppendChar char | AppendF string

fun string_step :: "(nat \<Rightarrow> bytes option) \<Rightarrow> strop \<Rightarrow> string_t \<Rightarrow> string_res" where
  "string_step malloc (Append s) str = string_append malloc str s"
| "string_step malloc (AppendN s n) str = string_appendn malloc str s n"
| "string_step malloc (AppendChar c) str = string_append_char malloc str c"
| "string_step malloc (AppendF s) str = string_appendvf malloc str s"

fun strop_bytes :: "strop \<Rightarrow> bytes" where
  "strop_bytes (Append s) = s"
| "strop_bytes (AppendN s n) = take n s"
| "strop_bytes (AppendChar c) = [c]"
| "strop_bytes (AppendF s) = s"

fun strop_ok :: "strop \<Rightarrow> bool" where
  "strop_ok (AppendN s n) = (n \<le> length s)"
| "strop_ok _ = True"

fun appended :: "strop list \<Rightarrow> (int + unit) list \<Rightarrow> bytes" where
  "appended (x # xs) (r # rs) = (if r = Inr () then strop_bytes x else []) @ appended xs rs"
| "appended _ _ = []"

text \<open>The bytes of all calls together.\<close>

definition strops_size :: "strop list \<Rightarrow> nat" where
  "strops_size ops = sum_list (map (\<lambda>x. length (strop_bytes x)) ops)"

lemma strops_size_simps [simp]: "strops_size [] = 0" "strops_size (x # xs) = length (strop_bytes x) + strops_size xs"
  by (simp_all add: strops_size_def)

lemma appends_less: "appends fits' res s bs \<Longrightarrow> (fits \<Longrightarrow> fits') \<Longrightarrow> appends fits res s bs"
  by (auto simp: appends_def)

lemma string_step_appends:
  assumes "malloc_ok malloc" "str_inv str s" "strop_ok x"
  shows "appends (in_int str (length (strop_bytes x) + 1)) (string_step malloc x str) s (strop_bytes x)"
proof (cases x)
  case (Append tx)
  then show ?thesis using appends_less [OF string_append_appends [OF assms(1,2), of tx]] by (simp add: in_int_le)
next
  case (AppendN tx n)
  then show ?thesis using string_appendn_appends [OF assms(1,2), of n tx] assms(3) by (auto simp: min_def)
next
  case (AppendChar c)
  then show ?thesis using appends_less [OF string_append_char_appends [OF assms(1,2), of c]] by (simp add: in_int_le)
next
  case (AppendF tx)
  then show ?thesis using string_appendvf_appends [OF assms(1,2), of tx] by simp
qed

lemma string_run_inv:
  assumes "malloc_ok malloc"
  shows "run_ops (string_step malloc) ops str = Some (rs, str') \<Longrightarrow> str_inv str s \<Longrightarrow> list_all strop_ok ops \<Longrightarrow>
     length rs = length ops \<and> str_inv str' (s @ appended ops rs)"
proof (induction ops arbitrary: str s rs)
  case Nil
  then show ?case by simp
next
  case (Cons x xs)
  then obtain r str1 rs1 where r: "string_step malloc x str = Some (r, str1)" "run_ops (string_step malloc) xs str1 = Some (rs1, str')" "rs = r # rs1"
    by (auto simp: bind_eq_Some_conv)
  have "str_inv str1 (if r = Inr () then s @ strop_bytes x else s)"
    using string_step_appends [OF assms Cons.prems(2), of x] Cons.prems(3) r(1) by (auto simp: appends_def)
  with Cons.IH [OF r(2) this] Cons.prems(3) r(3) show ?case by (cases "r = Inr ()") auto
qed

lemma string_run_returns:
  assumes "malloc_ok malloc"
  shows "str_inv str s \<Longrightarrow> list_all strop_ok ops \<Longrightarrow> 10 * (length s + strops_size ops + 1) \<le> INT_MAX \<Longrightarrow>
     run_ops (string_step malloc) ops str \<noteq> None"
proof (induction ops arbitrary: str s)
  case Nil
  then show ?case by simp
next
  case (Cons x xs)
  have a: "appends (in_int str (length (strop_bytes x) + 1)) (string_step malloc x str) s (strop_bytes x)"
    using string_step_appends [OF assms Cons.prems(1), of x] Cons.prems(2) by simp
  have "str_len str = length s" using Cons.prems(1) by (simp add: str_inv_def)
  then have "in_int str (length (strop_bytes x) + 1)" using Cons.prems(3) by (simp add: in_int_def)
  then obtain r str1 where r: "string_step malloc x str = Some (r, str1)" using a by (auto simp: appends_def)
  have "10 * (length (if r = Inr () then s @ strop_bytes x else s) + strops_size xs + 1) \<le> INT_MAX" using Cons.prems(3) by simp
  from Cons.IH [OF appendsD(1) [OF a r] _ this] Cons.prems(2) r show ?case by auto
qed

text \<open>An \<open>int\<close> that overflows: ten times the length of the first text.\<close>

lemma string_append_overflow: "10 * length s > INT_MAX \<Longrightarrow> string_append malloc string_init s = None"
  by (simp add: string_append_def string_check_length_def string_init_def)

section \<open>Escaping in two passes\<close>

text \<open>
  What the escaping routines share: one pass sums up a size, the other fills a block of that size
  with the encodings of the characters and a terminator.
\<close>

locale two_pass =
  fixes enc :: "char \<Rightarrow> bytes"
    and cost :: "bytes \<Rightarrow> nat"
    and fill :: "nat \<Rightarrow> bytes \<Rightarrow> bytes \<Rightarrow> bytes option"
    and stop :: bytes
  assumes fill_end: "fill cap out [] = emit cap out stop"
    and fill_char: "fill cap out (c # cs) = do { out' \<leftarrow> emit cap out (enc c); fill cap out' cs }"
    and cost_char: "length (enc c) + cost cs \<le> cost (c # cs)"
begin

lemma fill_fits: "length out + cost s + length stop \<le> cap \<Longrightarrow> fill cap out s = Some (out @ concat (map enc s) @ stop)"
proof (induction s arbitrary: out)
  case Nil
  then show ?case by (simp add: fill_end emit_def)
next
  case (Cons c cs)
  have "length (out @ enc c) + cost cs + length stop \<le> cap" using Cons.prems cost_char [of c cs] by simp
  with Cons.IH [OF this] show ?case by (simp add: fill_char emit_def)
qed

end

definition esc_char :: "char \<Rightarrow> string \<Rightarrow> char \<Rightarrow> string" where
  "esc_char esc escape c = (if esc_match esc escape c then esc # hex2 c else [c])"

definition js_char :: "char \<Rightarrow> string" where
  "js_char c = (if js_special c then CHR 92 # CHR ''x'' # hex2 c else [c])"

lemma length_hex2 [simp]: "length (hex2 c) = 2"
  by (simp add: hex2_def)

interpretation percent: two_pass "esc_char e es" "esc_size e es" "esc_fill e es" "[NUL]" for e es
  by unfold_locales (auto simp: esc_char_def)

interpretation js: two_pass js_char js_size js_fill "[NUL]"
  by unfold_locales (auto simp: js_char_def)

interpretation url: two_pass "url_char r other np" "url_size r other np" "url_fill r other np" "[NUL]" for r other np
  by unfold_locales (auto simp: url_char_def url_match_def)

interpretation repr: two_pass repr_char repr_size repr_fill "[CHR 34, NUL]"
  by unfold_locales (auto simp: repr_char_def octal3_def)

lemma repr_string_Some:
  "repr_string_alloc (Some s) = Some (CHR 34 # concat (map repr_char s) @ [CHR 34, NUL])"
  using repr.fill_fits [of "[CHR 34]" s "repr_size s + 3"] by (simp add: repr_string_alloc_def emit_def)

lemma hex_cases: "n < 16 \<Longrightarrow> isxdigit (hex_digit n) \<and> xvalue (hex_digit n) = n"
proof -
  have "list_all (\<lambda>n. isxdigit (hex_digit n) \<and> xvalue (hex_digit n) = n) [0..<16]" by code_simp
  then show "n < 16 \<Longrightarrow> ?thesis" by (simp add: list_all_iff)
qed

lemma code_of_less: "code_of c < 256"
  by simp

lemma unescape_hex2:
  "code_of e < 128 \<Longrightarrow> neos_unescape e (e # hex2 c @ rest) = c # neos_unescape e rest"
proof -
  have "code_of c div 16 < 16" using code_of_less [of c] by linarith
  moreover have "code_of c div 16 * 16 + code_of c mod 16 = code_of c" by simp
  ultimately show "code_of e < 128 \<Longrightarrow> ?thesis" by (simp add: hex2_def hex_cases)
qed

lemma unescape_other: "c \<noteq> e \<or> 128 \<le> code_of e \<Longrightarrow> neos_unescape e (c # rest) = c # neos_unescape e rest"
  by auto

lemma unescape_esc_char: "code_of e < 128 \<Longrightarrow> neos_unescape e (esc_char e es c @ rest) = c # neos_unescape e rest"
  using unescape_hex2 [of e c rest] unescape_other [of c e rest]
  by (cases "esc_match e es c") (auto simp: esc_char_def esc_match_def simp del: neos_unescape.simps)


section \<open>HTML\<close>

definition html_char :: "char \<Rightarrow> string" where
  "html_char c = (if html_special c then html_entity c else [c])"

declare html_loop.simps [simp del]

lemma html_char_plain: "\<forall>c \<in> set cs. \<not> html_special c \<Longrightarrow> concat (map html_char cs) = cs"
  by (induction cs) (auto simp: html_char_def)

lemma length_html_char: "length (html_char c) \<le> 6"
  by (simp add: html_char_def html_entity_def)

lemma html_step:
  assumes "malloc_ok malloc" "str_inv str s" "rest \<noteq> []" "html_special (hd rest)" "str_buf str \<noteq> None"
  shows "appends (in_int str 6) (if hd rest = CHR 13 then Some (Inr (), str) else string_append malloc str (html_entity (hd rest)))
     s (html_char (hd rest))"
proof -
  have "length (html_entity (hd rest)) \<le> 6" by (simp add: html_entity_def)
  then show ?thesis
    using appends_less [OF string_append_appends [OF assms(1,2), of "html_entity (hd rest)"] in_int_le] assms
    by (auto simp: appends_def html_char_def) (auto simp: html_entity_def)
qed

text \<open>What the loop does to a string with a block; it returns when six bytes for each one fit.\<close>

definition html_post :: "string_res \<Rightarrow> bytes \<Rightarrow> bytes \<Rightarrow> bool" where
  "html_post res s src \<longleftrightarrow> (2 * (length s + 6 * length src + 1) \<le> INT_MAX \<longrightarrow> res \<noteq> None) \<and>
     (\<forall>str'. res = Some (Inr (), str') \<longrightarrow> str_inv str' (s @ concat (map html_char src)) \<and> str_buf str' \<noteq> None)"

lemma html_loop_correct:
  assumes "malloc_ok malloc" "str_inv str s" "NUL \<notin> set src" "str_buf str \<noteq> None"
  shows "html_post (html_loop malloc str src) s src"
  using assms(2-4)
proof (induction "length src" arbitrary: str src s rule: less_induct)
  case less
  define pre where "pre = takeWhile (\<lambda>c. \<not> html_special c \<and> c \<noteq> NUL) src"
  define rest where "rest = drop (length pre) src"
  have rest: "rest = dropWhile (\<lambda>c. \<not> html_special c \<and> c \<noteq> NUL) src"
    by (simp add: rest_def pre_def dropWhile_eq_drop)
  have src: "src = pre @ rest" by (simp add: rest pre_def)
  have pre: "concat (map html_char pre) = pre"
    by (rule html_char_plain) (auto simp: pre_def dest: set_takeWhileD)
  have len: "str_len str = length s" using less.prems(1) by (simp add: str_inv_def)
  show ?case
  proof (cases "src = []")
    case True
    then show ?thesis using less.prems by (simp add: html_loop.simps html_post_def)
  next
    case ne: False
    have loop: "html_loop malloc str src = (if rest = [] \<or> hd rest = NUL then string_appendn malloc str src (length src)
        else do {
          (r, out1) \<leftarrow> string_appendn malloc str src (length pre);
          (case r of
             Inl e \<Rightarrow> Some (Inl e, out1)
           | Inr _ \<Rightarrow> do {
               (r2, out2) \<leftarrow> (if hd rest = CHR 13 then Some (Inr (), out1)
                              else string_append malloc out1 (html_entity (hd rest)));
               (case r2 of Inl e \<Rightarrow> Some (Inl e, out2) | Inr _ \<Rightarrow> html_loop malloc out2 (tl rest)) }) })"
      by (subst html_loop.simps) (simp only: ne if_False Let_def pre_def [symmetric] rest_def [symmetric])
    show ?thesis
    proof (cases "rest = []")
      case True
      have "html_loop malloc str src = string_appendn malloc str src (length src)" using loop True by simp
      moreover have "concat (map html_char src) = src" using True pre src by simp
      moreover have "in_int str (length src + 1)" if "2 * (length s + 6 * length src + 1) \<le> INT_MAX"
        using that less.prems(3) by (auto simp: in_int_def len)
      ultimately show ?thesis
        using string_appendn_appends [OF assms(1) less.prems(1), of "length src" src]
        by (auto simp: appends_def html_post_def)
    next
      case False
      have "hd rest \<in> set src" using hd_in_set [OF False] by (simp add: src)
      then have nn: "hd rest \<noteq> NUL" using less.prems(2) by metis
      have sp: "html_special (hd rest)"
        using hd_dropWhile [of "\<lambda>c. \<not> html_special c \<and> c \<noteq> NUL" src, folded rest, OF False] nn by simp
      have a1: "appends (in_int str (length pre + 1)) (string_appendn malloc str src (length pre)) s pre"
        using string_appendn_appends [OF assms(1) less.prems(1), of "length pre" src] src by simp
      have more: "length src = length pre + Suc (length (tl rest))" using False by (simp add: src)
      have fit: "in_int str (length pre + 1)" if "2 * (length s + 6 * length src + 1) \<le> INT_MAX"
        using that less.prems(3) more by (simp add: in_int_def len)
      show ?thesis
      proof (cases "string_appendn malloc str src (length pre)")
        case None
        then show ?thesis using a1 fit loop False nn by (auto simp: html_post_def appends_def)
      next
        case (Some res1)
        obtain r1 out1 where r1: "res1 = (r1, out1)" by (cases res1)
        note o1 = Some [unfolded r1] appendsD [OF a1 Some [unfolded r1]]
        show ?thesis
        proof (cases r1)
          case (Inl e)
          then show ?thesis using loop False nn o1(1) by (simp add: html_post_def)
        next
          case (Inr u)
          then have inv1: "str_inv out1 (s @ pre)" "str_buf out1 \<noteq> None" using o1 by simp_all
          then have len1: "str_len out1 = length s + length pre" by (simp add: str_inv_def)
          let ?step = "if hd rest = CHR 13 then Some (Inr (), out1) else string_append malloc out1 (html_entity (hd rest))"
          note a2 = html_step [OF assms(1) inv1(1) False sp inv1(2)]
          show ?thesis
          proof (cases ?step)
            case None
            have "in_int out1 6" if "2 * (length s + 6 * length src + 1) \<le> INT_MAX"
              using that inv1(2) more by (auto simp: in_int_def len1)
            then show ?thesis using a2 None loop False nn o1(1) Inr unfolding html_post_def appends_def by auto
          next
            case (Some res2)
            obtain r2 out2 where r2: "res2 = (r2, out2)" by (cases res2)
            note o2 = Some [unfolded r2] appendsD [OF a2 Some [unfolded r2]]
            show ?thesis
            proof (cases r2)
              case (Inl e)
              then show ?thesis using loop False nn o1(1) o2(1) Inr by (simp add: html_post_def)
            next
              case (Inr u2)
              have nul: "NUL \<notin> set (tl rest)" using less.prems(2) src by (cases rest) auto
              have inv2: "str_inv out2 ((s @ pre) @ html_char (hd rest))" "str_buf out2 \<noteq> None" using o2 Inr by simp_all
              have nx: "html_loop malloc str src = html_loop malloc out2 (tl rest)"
                using loop False nn o1(1) o2(1) Inr \<open>r1 = Inr u\<close> by simp
              have eq: "s @ concat (map html_char src) = ((s @ pre) @ html_char (hd rest)) @ concat (map html_char (tl rest))"
                using False pre by (cases rest) (simp_all add: src)
              have "length (tl rest) < length src" using more by simp
              from less.hyps [OF this inv2(1) nul inv2(2)]
              have "html_post (html_loop malloc str src) ((s @ pre) @ html_char (hd rest)) (tl rest)" unfolding nx .
              then show ?thesis using more length_html_char [of "hd rest"] unfolding html_post_def eq by auto
            qed
          qed
        qed
      qed
    qed
  qed
qed

lemma neos_html_escape_correct:
  assumes "malloc_ok malloc" "NUL \<notin> set s"
  shows "12 * length s + 2 \<le> INT_MAX \<Longrightarrow> neos_html_escape malloc s \<noteq> None"
    and "neos_html_escape malloc s = Some (Inr b) \<Longrightarrow> \<exists>junk. b = concat (map html_char s) @ NUL # junk"
proof -
  have a0: "appends (in_int string_init 0) (string_append malloc string_init []) [] []"
    using string_append_appends [OF assms(1), of string_init "[]" "[]"] by simp
  have "in_int string_init 0" by (simp add: in_int_def string_init_def)
  then obtain r0 s0 where s0: "string_append malloc string_init [] = Some (r0, s0)" using a0 by (auto simp: appends_def)
  have i0: "str_inv s0 []" "r0 = Inr () \<Longrightarrow> str_buf s0 \<noteq> None"
    using appendsD [OF a0 s0] by (simp_all del: split_paired_Ex split: if_splits)
  have post: "html_post (html_loop malloc s0 s) [] s" if "r0 = Inr ()"
    using html_loop_correct [OF assms(1) i0(1) assms(2) i0(2) [OF that]] .
  have esc: "neos_html_escape malloc s = (case r0 of
        Inl e \<Rightarrow> Some (Inl e)
      | Inr _ \<Rightarrow> do {
          (r, s1) \<leftarrow> html_loop malloc s0 s;
          (case r of Inl e \<Rightarrow> Some (Inl e) | Inr _ \<Rightarrow> map_option Inr (str_buf s1)) })"
    by (simp add: neos_html_escape_def s0)
  {
    assume small: "12 * length s + 2 \<le> INT_MAX"
    show "neos_html_escape malloc s \<noteq> None"
    proof (cases r0)
      case (Inr u)
      then obtain r1 s1 where s1: "html_loop malloc s0 s = Some (r1, s1)" using post small by (auto simp: html_post_def)
      then show ?thesis using post Inr by (cases r1) (auto simp: esc html_post_def)
    qed (simp add: esc)
  next
    assume run: "neos_html_escape malloc s = Some (Inr b)"
    then have r0: "r0 = Inr ()" by (cases r0) (auto simp: esc)
    with run obtain r s1 where "html_loop malloc s0 s = Some (r, s1)"
        "(case r of Inl e \<Rightarrow> Some (Inl e) | Inr _ \<Rightarrow> map_option Inr (str_buf s1)) = Some (Inr b)"
      by (auto simp: esc bind_eq_Some_conv)
    then have s1: "html_loop malloc s0 s = Some (Inr (), s1)" "str_buf s1 = Some b" by (cases r; auto)+
    let ?o = "concat (map html_char s)"
    have "str_inv s1 ?o" using post [OF r0] s1(1) by (simp add: html_post_def)
    then have "b = ?o @ NUL # drop (Suc (length ?o)) b"
      using s1(2) id_take_nth_drop [of "length ?o" b] by (simp add: str_inv_def)
    then show "\<exists>junk. b = ?o @ NUL # junk" by blast
  }
qed

text \<open>Reading the entities back.\<close>

fun html_decode :: "string \<Rightarrow> string" where
  "html_decode [] = []"
| "html_decode (c # cs) =
     (if c = CHR 38 then
        (if take 4 cs = ''amp;'' then CHR 38 # html_decode (drop 4 cs)
         else if take 3 cs = ''lt;'' then CHR 60 # html_decode (drop 3 cs)
         else if take 3 cs = ''gt;'' then CHR 62 # html_decode (drop 3 cs)
         else if take 5 cs = ''quot;'' then CHR 34 # html_decode (drop 5 cs)
         else if take 4 cs = ''#39;'' then CHR 39 # html_decode (drop 4 cs)
         else c # html_decode cs)
      else c # html_decode cs)"

lemma html_decode_char: "c \<noteq> CHR 13 \<Longrightarrow> html_decode (html_char c @ rest) = c # html_decode rest"
  by (auto simp: html_char_def html_entity_def html_special_def)

lemma html_decode_chars: "html_decode (concat (map html_char s)) = filter (\<lambda>c. c \<noteq> CHR 13) s"
proof (induction s)
  case (Cons c s)
  then show ?case
    using html_decode_char [of c "concat (map html_char s)"]
    by (cases "c = CHR 13") (auto simp: html_char_def html_entity_def html_special_def)
qed simp

lemma html_char_safe: "x \<in> set (html_char c) \<Longrightarrow> x \<notin> set [CHR 60, CHR 62, CHR 34, CHR 39, CHR 13]"
  by (auto simp: html_char_def html_entity_def html_special_def split: if_splits)

lemma hex2_alnum: "x \<in> set (hex2 c) \<Longrightarrow> isxdigit x"
proof -
  have "code_of c div 16 < 16" "code_of c mod 16 < 16" using code_of_less [of c] by linarith+
  then show "x \<in> set (hex2 c) \<Longrightarrow> isxdigit x" by (auto simp: hex2_def hex_cases)
qed

lemma xdigit_not_special: "isxdigit x \<Longrightarrow> \<not> js_special x"
  by (auto simp: isxdigit_def isdigit_def js_special_def)

lemma js_char_safe: "x \<in> set (js_char c) \<Longrightarrow> js_special x \<Longrightarrow> x = CHR 92"
  by (auto simp: js_char_def js_special_def [of "CHR ''x''"] dest: hex2_alnum xdigit_not_special split: if_splits)

section \<open>Sizes of the blocks\<close>

lemma esc_fill_Some: "esc_fill e es cap out s = Some b \<Longrightarrow> length b = length out + esc_size e es s + 1 \<and> length b \<le> cap"
proof (induction e es cap out s rule: esc_fill.induct)
  case (1 e es cap out)
  then show ?case by (auto simp: emit_def split: if_splits)
next
  case (2 e es cap out c cs)
  then show ?case by (auto simp: emit_def bind_eq_Some_conv split: if_splits)
qed

lemma esc_size_le: "esc_size e es s \<le> 3 * length s"
  by (induction s) auto

lemma js_size_le: "js_size s \<le> 4 * length s"
  by (induction s) auto

text \<open>An escape character above 127 is a negative \<open>char\<close>: nothing is recognised as escaped.\<close>

lemma unescape_high: "128 \<le> code_of e \<Longrightarrow> neos_unescape e s = s"
  by (induction e s rule: neos_unescape.induct) auto

section \<open>Properties\<close>

text \<open>
  C31. Growing strings are memory safe and exact. From an empty \<open>STRING\<close>, no sequence of appends that
  returns has written outside the block it owns, whatever memory \<open>malloc\<close> returns and whenever it
  refuses: the block starts with the texts of the calls that succeeded, in order, and a NUL. Every
  sequence of less than 214748364 bytes in all returns; and the bound is sharp for the first text: ten
  times its length is computed in \<open>int\<close>, so that from 214748365 bytes on it overflows.
\<close>

theorem string_buffer_safe:
  assumes "malloc_ok malloc" "list_all strop_ok ops"
  shows "(strops_size ops < 214748364 \<longrightarrow> (\<exists>rs str. run_ops (string_step malloc) ops string_init = Some (rs, str))) \<and>
     (\<forall>rs str. run_ops (string_step malloc) ops string_init = Some (rs, str) \<longrightarrow> length rs = length ops \<and> str_inv str (appended ops rs)) \<and>
     (\<forall>s. 214748365 \<le> length s \<longrightarrow> string_step malloc (Append s) string_init = None)"
proof (intro conjI allI impI)
  assume "strops_size ops < 214748364"
  then have "run_ops (string_step malloc) ops string_init \<noteq> None"
    using string_run_returns [OF assms(1) _ assms(2), of string_init "[]"] by (simp add: INT_MAX_def)
  then show "\<exists>rs str. run_ops (string_step malloc) ops string_init = Some (rs, str)" by auto
next
  fix rs str
  assume "run_ops (string_step malloc) ops string_init = Some (rs, str)"
  from string_run_inv [OF assms(1) this, of "[]"] assms(2) show "length rs = length ops" "str_inv str (appended ops rs)" by simp_all
next
  fix s :: bytes
  assume "214748365 \<le> length s"
  then show "string_step malloc (Append s) string_init = None" by (simp add: string_append_overflow INT_MAX_def)
qed

definition small_malloc :: "nat \<Rightarrow> bytes option" where
  "small_malloc n = (if n < 1000 then Some (replicate n (CHR ''?'')) else None)"

lemma small_malloc_ok: "malloc_ok small_malloc"
  by (auto simp: malloc_ok_def small_malloc_def)

theorem string_buffer_safe_witness:
  "\<exists>rs str. run_ops (string_step small_malloc)
      [Append ''name'', AppendChar (CHR ''=''), AppendN ''value and more'' 5, AppendF (replicate 900 (CHR ''x''))] string_init
      = Some (rs, str) \<and> length rs = 4 \<and> str_inv str (appended
      [Append ''name'', AppendChar (CHR ''=''), AppendN ''value and more'' 5, AppendF (replicate 900 (CHR ''x''))] rs)"
proof -
  let ?ops = "[Append ''name'', AppendChar (CHR ''=''), AppendN ''value and more'' 5, AppendF (replicate 900 (CHR ''x''))]"
  have "list_all strop_ok ?ops" "strops_size ?ops < 214748364" "length ?ops = 4" by simp_all
  then show ?thesis using string_buffer_safe [OF small_malloc_ok, of ?ops] by metis
qed

text \<open>
  C32. Escaping with \<open>neos_escape\<close> and undoing it with \<open>neos_unescape\<close>, for an escape character below
  128 and an input of less than 715827882 bytes. The block allocated has exactly the size of the
  output and its NUL: the output fills it, and one byte less would be overrun; \<open>neos_unescape\<close> gives the
  input back; a character that is asked to be escaped does not occur in the output when it is below
  128 and neither a hex digit nor the escape character; and one of 128 or more is never escaped, since
  the code compares unsigned bytes with signed characters.
\<close>

theorem escape_roundtrip:
  assumes "code_of e < 128" "length buf < 715827882"
  shows "\<exists>out. neos_escape False buf e escape = Some (Inr (out @ [NUL])) \<and> neos_unescape e out = buf \<and>
     length (out @ [NUL]) = esc_size e escape buf + 1 \<and> esc_fill e escape (esc_size e escape buf) [] buf = None \<and>
     (\<forall>c \<in> set escape. code_of c < 128 \<and> \<not> isxdigit c \<and> c \<noteq> e \<longrightarrow> c \<notin> set out) \<and>
     (\<forall>c \<in> set buf. 128 \<le> code_of c \<longrightarrow> c \<in> set out)"
proof -
  let ?out = "concat (map (esc_char e escape) buf)"
  have fill: "esc_fill e escape (esc_size e escape buf + 1) [] buf = Some (?out @ [NUL])"
    using percent.fill_fits [of "[]" e escape buf "esc_size e escape buf + 1"] by simp
  have "esc_size e escape buf + 1 \<le> INT_MAX" using esc_size_le [of e escape buf] assms(2) by (simp add: INT_MAX_def)
  then have 1: "neos_escape False buf e escape = Some (Inr (?out @ [NUL]))" using fill by (simp add: neos_escape_def)
  have 2: "neos_unescape e ?out = buf" by (induction buf) (simp_all add: unescape_esc_char [OF assms(1)])
  have 3: "length (?out @ [NUL]) = esc_size e escape buf + 1" using esc_fill_Some [OF fill] by simp
  have 4: "esc_fill e escape (esc_size e escape buf) [] buf = None"
    using esc_fill_Some [of e escape "esc_size e escape buf" "[]" buf] by (cases "esc_fill e escape (esc_size e escape buf) [] buf") fastforce+
  have 5: "\<forall>c \<in> set escape. code_of c < 128 \<and> \<not> isxdigit c \<and> c \<noteq> e \<longrightarrow> c \<notin> set ?out"
    by (auto simp: esc_char_def esc_match_def dest: hex2_alnum split: if_splits)
  have "c \<in> set (esc_char e escape c)" if "128 \<le> code_of c" for c using that by (simp add: esc_char_def esc_match_def)
  then have "\<forall>c \<in> set buf. 128 \<le> code_of c \<longrightarrow> c \<in> set ?out" by fastforce
  with 1 2 3 4 5 show ?thesis by blast
qed

theorem escape_roundtrip_witness:
  "\<exists>out. neos_escape False ''a=b&c'' (CHR ''%'') ''=&'' = Some (Inr (out @ [NUL])) \<and>
     neos_unescape (CHR ''%'') out = ''a=b&c'' \<and> length (out @ [NUL]) = 10 \<and> CHR ''='' \<notin> set out"
proof -
  have "esc_size (CHR ''%'') ''=&'' ''a=b&c'' + 1 = 10" by code_simp
  moreover have "code_of (CHR ''='') < 128 \<and> \<not> isxdigit (CHR ''='') \<and> CHR ''='' \<noteq> CHR ''%''" by (simp add: isxdigit_def isdigit_def)
  ultimately show ?thesis using escape_roundtrip [of "CHR ''%''" "''a=b&c''" "''=&''"] by (simp del: neos_unescape.simps) blast
qed

text \<open>
  C33. Text escaped for a page cannot leave its place. Whatever memory is available, when
  \<open>neos_html_escape\<close> of a C string returns a string, it is one without \<open><\<close>, \<open>>\<close>, quotes and
  carriage returns from which the entities give back the input without its carriage returns; and what
  \<open>neos_js_escape\<close> returns has no character special to a script but its own backslashes. Up to
  178956970 bytes of input, where no \<open>int\<close> overflows, both return: the first with a string or an
  error, the second with a string when there is memory.
\<close>

theorem escaped_text_is_inert:
  assumes "malloc_ok malloc" "NUL \<notin> set s"
  shows "(\<forall>b. neos_html_escape malloc s = Some (Inr b) \<longrightarrow> (\<exists>out junk. b = out @ NUL # junk \<and> html_decode out = filter (\<lambda>c. c \<noteq> CHR 13) s \<and>
         (\<forall>c \<in> set [CHR 60, CHR 62, CHR 34, CHR 39, CHR 13]. c \<notin> set out))) \<and>
     (\<forall>nomem b. neos_js_escape nomem s = Some (Inr b) \<longrightarrow> (\<exists>out. b = out @ [NUL] \<and> (\<forall>c \<in> set out. js_special c \<longrightarrow> c = CHR 92))) \<and>
     (length s \<le> 178956970 \<longrightarrow> (\<exists>r. neos_html_escape malloc s = Some r) \<and> (\<exists>b. neos_js_escape False s = Some (Inr b)))"
proof (intro conjI allI impI)
  let ?out = "concat (map html_char s)"
  have safe: "\<forall>c \<in> set [CHR 60, CHR 62, CHR 34, CHR 39, CHR 13]. c \<notin> set ?out"
    using html_char_safe by fastforce
  fix b
  assume "neos_html_escape malloc s = Some (Inr b)"
  from neos_html_escape_correct(2) [OF assms this] obtain junk where "b = ?out @ NUL # junk" by blast
  then show "\<exists>out junk. b = out @ NUL # junk \<and> html_decode out = filter (\<lambda>c. c \<noteq> CHR 13) s \<and>
         (\<forall>c \<in> set [CHR 60, CHR 62, CHR 34, CHR 39, CHR 13]. c \<notin> set out)"
    using html_decode_chars safe by blast
next
  have fill: "js_fill (js_size s + 1) [] s = Some (concat (map js_char s) @ [NUL])"
    using js.fill_fits [of "[]" s "js_size s + 1"] by simp
  fix nomem b
  assume "neos_js_escape nomem s = Some (Inr b)"
  then have "b = concat (map js_char s) @ [NUL]" using fill by (auto simp: neos_js_escape_def split: if_splits)
  moreover have "\<forall>c \<in> set (concat (map js_char s)). js_special c \<longrightarrow> c = CHR 92" using js_char_safe by auto
  ultimately show "\<exists>out. b = out @ [NUL] \<and> (\<forall>c \<in> set out. js_special c \<longrightarrow> c = CHR 92)" by blast
next
  assume len: "length s \<le> 178956970"
  then have "neos_html_escape malloc s \<noteq> None" using neos_html_escape_correct(1) [OF assms] by (simp add: INT_MAX_def)
  then show "\<exists>r. neos_html_escape malloc s = Some r" by auto
  have "js_size s + 1 \<le> INT_MAX" using len js_size_le [of s] by (simp add: INT_MAX_def)
  then show "\<exists>b. neos_js_escape False s = Some (Inr b)"
    using js.fill_fits [of "[]" s "js_size s + 1"] by (simp add: neos_js_escape_def)
qed

theorem escaped_text_is_inert_witness:
  "(\<exists>r. neos_html_escape small_malloc ''<b>'' = Some r) \<and>
     (\<exists>out. neos_js_escape False ''<b>'' = Some (Inr (out @ [NUL])) \<and> list_all (\<lambda>c. js_special c = (c = CHR 92) \<or> c = CHR ''b'') out)"
proof -
  note t = escaped_text_is_inert [OF small_malloc_ok, of "''<b>''"]
  have "\<exists>r. neos_html_escape small_malloc ''<b>'' = Some r" using t by simp
  moreover have "js_size ''<b>'' = 9" "js_fill 10 [] ''<b>'' = Some ((CHR 92 # ''x3Cb'' @ CHR 92 # ''x3E'') @ [NUL])" by code_simp+
  then have "neos_js_escape False ''<b>'' = Some (Inr ((CHR 92 # ''x3Cb'' @ CHR 92 # ''x3E'') @ [NUL]))"
    by (simp add: neos_js_escape_def INT_MAX_def del: js_size.simps js_fill.simps)
  moreover have "list_all (\<lambda>c. js_special c = (c = CHR 92) \<or> c = CHR ''b'') (CHR 92 # ''x3Cb'' @ CHR 92 # ''x3E'')" by code_simp
  ultimately show ?thesis by blast
qed

end
