(* ===== verification/Hdf_Text.thy ===== *)
theory Hdf_Text
  imports Hdf Neo_Str
begin

text \<open>
  The text form of the hierarchical data (clearsilver/util/neo_hdf.c): \<open>hdf_dump_cb\<close>, which every
  message is written with, and \<open>_hdf_read_string\<close>, which every message and every configuration file
  is read with.

  The reader is a recursion on the nesting of the text, which the code does not bound; it is a
  partial function and a run that does not end (through links in a circle) or that reads outside a
  string is \<open>None\<close>. The file behind an \<open>#include\<close> line comes from the parameter \<open>load\<close>
  (\<open>top->fileload\<close>, or a search along the load paths and \<open>ne_load_file\<close>). The terminator of a
  multi-line value that contains the usual one is random: the source of randomness is the parameter
  \<open>rnd\<close>, the results of the successive \<open>neo_rand\<close> calls.
\<close>

section \<open>Writing\<close>

abbreviation newline :: char where
  "newline \<equiv> CHR 10"

text \<open>
  \<open>gen_ml_break\<close> with the position \<open>k\<close> in the stream of random numbers: \<open>2 + neo_rand(5)\<close> capital
  letters.
\<close>

definition gen_ml_break :: "(nat \<Rightarrow> nat) \<Rightarrow> nat \<Rightarrow> string \<times> nat" where
  "gen_ml_break rnd k =
     (let nlen = 2 + rnd k mod 5 in
      (newline # map (\<lambda>i. char_of (65 + rnd (k + 1 + i) mod 26)) [0..<nlen] @ [newline], k + 1 + nlen))"

fun is_infix :: "string \<Rightarrow> string \<Rightarrow> bool" where
  "is_infix p [] = (p = [])"
| "is_infix p (c # s) = (take (length p) (c # s) = p \<or> is_infix p s)"

text \<open>The condition of the loop: the value contains the terminator, or ends with it but its last newline.\<close>

definition ml_clash :: "string \<Rightarrow> string \<Rightarrow> bool" where
  "ml_clash v ml \<longleftrightarrow> is_infix ml v \<or>
     (length v > length ml \<and> drop (length v - length ml + 1) v = butlast ml)"

partial_function (option) choose_ml :: "(nat \<Rightarrow> nat) \<Rightarrow> string \<Rightarrow> string \<Rightarrow> nat \<Rightarrow> (string \<times> nat) option" where
  [code]: "choose_ml rnd v ml k =
     (if ml_clash v ml then choose_ml rnd v (fst (gen_ml_break rnd k)) (snd (gen_ml_break rnd k)) else Some (ml, k))"

fun dump_attrs :: "hattr list \<Rightarrow> string option" where
  "dump_attrs [] = Some []"
| "dump_attrs ((k, v) # as) = do {
     x \<leftarrow> (if v = None \<or> v = Some ''1'' then Some k
           else do { r \<leftarrow> repr_string_alloc v; Some (k @ ''='' @ butlast r) });
     rest \<leftarrow> dump_attrs as;
     Some (x @ (if as = [] then [] else '', '') @ rest) }"

datatype dump_type = DUMP_TYPE_DOTTED | DUMP_TYPE_COMPACT | DUMP_TYPE_PRETTY

text \<open>The white space before a line, which only the pretty format has.\<close>

definition indent :: "dump_type \<Rightarrow> nat \<Rightarrow> string" where
  "indent dtype lvl = (if dtype = DUMP_TYPE_PRETTY then replicate (2 * min lvl 127) (CHR '' '') else [])"

definition usual_ml :: string where
  "usual_ml = newline # ''EOM'' @ [newline]"

text \<open>The text of a node's own value; the random position and the terminator in use are threaded.\<close>

definition dump_value :: "(nat \<Rightarrow> nat) \<Rightarrow> bool \<Rightarrow> string \<Rightarrow> string \<Rightarrow> nat \<Rightarrow> (string \<times> string \<times> nat) option" where
  "dump_value rnd link v ml k =
     (if newline \<in> set v then do {
        (ml', k') \<leftarrow> choose_ml rnd v ml k;
        Some ('' << '' @ tl ml' @ v @ (if last v \<noteq> newline then ml' else tl ml'), ml', k') }
      else Some ('' '' @ (if link then '':'' else ''='') @ '' '' @ v @ [newline], ml, k))"

definition dump_name :: "string option \<Rightarrow> dump_type \<Rightarrow> nat \<Rightarrow> string \<Rightarrow> string" where
  "dump_name prefix dtype lvl n =
     (case prefix of
        Some p \<Rightarrow> if dtype = DUMP_TYPE_DOTTED then p @ ''.'' @ n else indent dtype lvl @ n
      | None \<Rightarrow> indent dtype lvl @ n)"

text \<open>\<open>hdf_dump_cb\<close> on the children of a node; every child has a name.\<close>

fun hdf_dump_cb :: "(nat \<Rightarrow> nat) \<Rightarrow> string option \<Rightarrow> dump_type \<Rightarrow> nat \<Rightarrow> hdf list \<Rightarrow> string \<Rightarrow> nat \<Rightarrow> (string \<times> nat) option" where
  "hdf_dump_cb rnd prefix dtype lvl [] ml k = Some ([], k)"
| "hdf_dump_cb rnd prefix dtype lvl (HDF name value link attr child # sibs) ml k = do {
     n \<leftarrow> name;
     (own, ml1, k1) \<leftarrow>
       (case value of
          None \<Rightarrow> Some ([], ml, k)
        | Some v \<Rightarrow> do {
            as \<leftarrow> dump_attrs attr;
            (tx, ml1, k1) \<leftarrow> dump_value rnd link v ml k;
            Some (dump_name prefix dtype lvl n @ (if attr = [] then [] else '' ['' @ as @ ''] '') @ tx, ml1, k1) });
     (below, k2) \<leftarrow>
       (if child = [] then Some ([], k1)
        else if prefix \<noteq> None \<and> dtype = DUMP_TYPE_DOTTED then
          hdf_dump_cb rnd (Some (the prefix @ ''.'' @ n)) dtype (lvl + 1) child usual_ml k1
        else if dtype \<noteq> DUMP_TYPE_DOTTED then do {
          (inner, k2) \<leftarrow> hdf_dump_cb rnd (Some n) dtype (lvl + 1) child usual_ml k1;
          Some (indent dtype lvl @ n @ '' {'' @ [newline] @ inner @ indent dtype lvl @ ''}'' @ [newline], k2) }
        else hdf_dump_cb rnd (Some n) dtype (lvl + 1) child usual_ml k1);
     (rest, k3) \<leftarrow> hdf_dump_cb rnd prefix dtype lvl sibs ml1 k2;
     Some (own @ below @ rest, k3) }"

definition hdf_dump_str :: "(nat \<Rightarrow> nat) \<Rightarrow> hdf option \<Rightarrow> string option \<Rightarrow> dump_type \<Rightarrow> string option" where
  "hdf_dump_str rnd hdf prefix dtype =
     (case hdf of None \<Rightarrow> Some [] | Some t \<Rightarrow> map_option fst (hdf_dump_cb rnd prefix dtype 0 (hchild t) usual_ml 0))"

definition hdf_write_string :: "(nat \<Rightarrow> nat) \<Rightarrow> hdf \<Rightarrow> string option" where
  "hdf_write_string rnd hdf = hdf_dump_str rnd (Some hdf) None DUMP_TYPE_COMPACT"

section \<open>Reading: lines\<close>

text \<open>\<open>_copy_line\<close> into a buffer with room for \<open>k\<close> characters: up to and including a newline.\<close>

fun copy_line :: "nat \<Rightarrow> string \<Rightarrow> string \<times> string" where
  "copy_line 0 st = ([], st)"
| "copy_line (Suc k) [] = ([], [])"
| "copy_line (Suc k) (c # st) =
     (if c = newline then ([c], st) else (let (l, r) = copy_line k st in (c # l, r)))"

lemma copy_line_code [code]:
  "copy_line k st =
     (if k = 0 then ([], st)
      else case st of [] \<Rightarrow> ([], [])
        | c # st \<Rightarrow> if c = newline then ([c], st) else (let (l, r) = copy_line (k - 1) st in (c # l, r)))"
  by (cases k; cases st) auto

lemma copy_line_append: "fst (copy_line k s) @ snd (copy_line k s) = s"
  by (induction k s rule: copy_line.induct) (auto split: prod.splits)

definition copy_line_advance :: "string \<Rightarrow> string \<times> string" where
  "copy_line_advance s = (takeWhile (\<lambda>c. c \<noteq> newline) s, tl (dropWhile (\<lambda>c. c \<noteq> newline) s))"

text \<open>SKIPWS\<close>

abbreviation skipws :: "string \<Rightarrow> string" where
  "skipws s \<equiv> dropWhile isspace s"

text \<open>
  The quoted value of an attribute, after the opening quote: \<open>Inl\<close> when the quote is not closed, and
  \<open>None\<close> when a backslash is the last character, where the code steps over the end of the line.
\<close>

definition octal_char :: "string \<Rightarrow> char" where
  "octal_char ds = char_of (foldl (\<lambda>c d. 8 * c + (code_of d - 48)) 0 ds)"

definition escape_char :: "char \<Rightarrow> char" where
  "escape_char d = (if d = CHR ''n'' then newline else if d = CHR ''t'' then CHR 9 else if d = CHR ''r'' then CHR 13 else d)"

function parse_quoted :: "string \<Rightarrow> string \<Rightarrow> (int + string \<times> string) option" where
  "parse_quoted buf [] = Some (Inl NERR_PARSE)"
| "parse_quoted buf (c # s) =
     (if c = CHR 34 then Some (Inr (buf, s))
      else if c = CHR 92 then
        (case s of
           [] \<Rightarrow> None
         | d # s' \<Rightarrow>
             if isdigit d then
               (let ds = take 3 (takeWhile isdigit s) in parse_quoted (buf @ [octal_char ds]) (drop (length ds) s))
             else parse_quoted (buf @ [escape_char d]) s')
      else parse_quoted (buf @ [c]) s)"
  by pat_completeness auto
termination
  by (relation "measure (\<lambda>(buf, s). length s)") auto

definition unquoted_end :: "char \<Rightarrow> bool" where
  "unquoted_end c \<longleftrightarrow> c = CHR '' '' \<or> c = CHR '','' \<or> c = CHR '']''"

text \<open>The value after a key: the attribute's value and the rest of the line.\<close>

definition parse_attr_value :: "string \<Rightarrow> (int + string \<times> string) option" where
  "parse_attr_value s =
     (if s \<noteq> [] \<and> hd s = CHR ''='' then
        (let s1 = skipws (tl s) in
         if s1 \<noteq> [] \<and> hd s1 = CHR 34 then do {
           r \<leftarrow> parse_quoted [] (tl s1);
           Some (case r of Inl e \<Rightarrow> Inl e | Inr (buf, rest) \<Rightarrow> Inr (neos_strndup buf (length buf), rest)) }
         else
           (let v = takeWhile (\<lambda>c. \<not> unquoted_end c) s1; rest = dropWhile (\<lambda>c. \<not> unquoted_end c) s1 in
            if rest = [] then Some (Inl NERR_PARSE) else Some (Inr (v, rest))))
      else Some (Inr (neos_strndup ''1'' 0, s)))"

definition skip_comma :: "string \<Rightarrow> string" where
  "skip_comma s = (let s1 = skipws s in if s1 \<noteq> [] \<and> hd s1 = CHR '','' then skipws (tl s1) else s1)"

lemma length_dropWhile_le: "length (dropWhile P xs) \<le> length xs"
  by (induction xs) auto

lemma parse_quoted_shorter: "parse_quoted buf s = Some (Inr (v, rest)) \<Longrightarrow> length rest < length s"
proof (induction buf s rule: parse_quoted.induct)
  case (2 buf c s)
  then show ?case
    by (fastforce split: if_splits list.splits simp: Let_def)
qed simp

lemma parse_attr_value_shorter: "parse_attr_value s = Some (Inr (v, rest)) \<Longrightarrow> length rest \<le> length s"
proof (cases "s \<noteq> [] \<and> hd s = CHR ''=''")
  case eq: True
  define s1 where "s1 = skipws (tl s)"
  have le: "length s1 \<le> length s" using length_dropWhile_le [of isspace "tl s"] by (simp add: s1_def)
  assume r: "parse_attr_value s = Some (Inr (v, rest))"
  show ?thesis
  proof (cases "s1 \<noteq> [] \<and> hd s1 = CHR 34")
    case True
    then have "parse_attr_value s = do { r \<leftarrow> parse_quoted [] (tl s1);
        Some (case r of Inl e \<Rightarrow> Inl e | Inr (buf, rest) \<Rightarrow> Inr (neos_strndup buf (length buf), rest)) }"
      using eq by (simp add: parse_attr_value_def Let_def s1_def)
    with r obtain x where "parse_quoted [] (tl s1) = Some x"
      "(case x of Inl e \<Rightarrow> Inl e | Inr (buf, rest) \<Rightarrow> Inr (neos_strndup buf (length buf), rest)) = Inr (v, rest)"
      by auto
    then obtain buf where "parse_quoted [] (tl s1) = Some (Inr (buf, rest))" by (cases x) (auto split: prod.splits)
    from parse_quoted_shorter [OF this] le show ?thesis by simp
  next
    case False
    with r eq have "rest = dropWhile (\<lambda>c. \<not> unquoted_end c) s1"
      by (simp add: parse_attr_value_def Let_def s1_def [symmetric] split: if_splits)
    with le length_dropWhile_le [of "\<lambda>c. \<not> unquoted_end c" s1] show ?thesis by simp
  qed
qed (auto simp: parse_attr_value_def)

lemma skip_comma_shorter: "length (skip_comma s) \<le> length s"
  using length_dropWhile_le [of isspace s] length_dropWhile_le [of isspace "tl (skipws s)"]
  by (auto simp: skip_comma_def Let_def)

function parse_attr :: "string \<Rightarrow> (int + hattr list \<times> string) option" where
  "parse_attr s =
     (if s = [] then Some (Inl NERR_PARSE)
      else if hd s = CHR '']'' then Some (Inr ([], tl s))
      else
        let k = takeWhile isalnum s; s1 = dropWhile isalnum s in
        if s1 = [] \<or> k = [] then Some (Inl NERR_PARSE)
        else
          (case parse_attr_value (skipws s1) of
             None \<Rightarrow> None
           | Some (Inl e) \<Rightarrow> Some (Inl e)
           | Some (Inr (v, s2)) \<Rightarrow>
               (case parse_attr (skip_comma s2) of
                  None \<Rightarrow> None
                | Some (Inl e) \<Rightarrow> Some (Inl e)
                | Some (Inr (as, rest)) \<Rightarrow> Some (Inr ((k, Some v) # as, rest)))))"
  by auto
termination
proof (relation "measure length", goal_cases)
  case 1
  then show ?case by simp
next
  case (2 s k s1 a b v s2)
  then have "k \<noteq> []" and v: "parse_attr_value (skipws s1) = Some (Inr (v, s2))" by auto
  have "length k + length s1 = length s" using 2(3,4) takeWhile_dropWhile_id [of isalnum s] by (metis length_append)
  moreover have "length s2 \<le> length s1"
    using parse_attr_value_shorter [OF v] length_dropWhile_le [of isspace s1] by simp
  ultimately show ?case using skip_comma_shorter [of s2] \<open>k \<noteq> []\<close> by (cases k) auto
qed

text \<open>
  The lines of a multi-line value, \<open>m\<close> what was collected so far in a buffer of \<open>mmax\<close> bytes. A line
  longer than the buffer's room is taken in pieces, and each piece is compared with the terminator.
\<close>

function read_multi :: "string \<Rightarrow> string \<Rightarrow> nat \<Rightarrow> string \<Rightarrow> string \<times> string" where
  "read_multi value m mmax str =
     (let chunk = fst (copy_line (mmax - length m - 1) str); rest = snd (copy_line (mmax - length m - 1) str);
          l = length value in
      if chunk = [] then (m, rest)
      else if take l chunk = value \<and> l < length chunk \<and> isspace (chunk ! l) then (m, rest)
      else
        let m' = m @ chunk; mmax' = (if length m' + l + 10 > mmax then mmax + 128 else mmax) in
        read_multi value m' mmax' rest)"
  by auto
termination
proof (relation "measure (\<lambda>(value, m, mmax, str). length str)", goal_cases)
  case 1
  then show ?case by simp
next
  case (2 _ m mmax str chunk rest l m' mmax')
  have "length chunk + length rest = length str"
    using 2(1,2) copy_line_append [of "mmax - length m - 1" str] by (metis length_append)
  then show ?case using 2(4) by (cases chunk) auto
qed

declare parse_attr.simps [simp del] read_multi.simps [simp del]

text \<open>What a line is, with the name and the attributes before the operator.\<close>

datatype hdf_line =
    Blank
  | Include (included: string)
  | Up (clean: bool)
  | Assign string "hattr list" string
  | Copy string "hattr list" string
  | Link string "hattr list" string
  | Deeper (lower_name: string) (lower_attr: "hattr list")
  | Multi string "hattr list" string
  | Bad int

definition name_char :: "char \<Rightarrow> bool" where
  "name_char c \<longleftrightarrow> isalnum c \<or> c = CHR ''_'' \<or> c = CHR ''.'' \<or> code_of c > 127"

definition scan_operator :: "string \<Rightarrow> hattr list \<Rightarrow> string \<Rightarrow> hdf_line" where
  "scan_operator name attr s =
     (if s \<noteq> [] \<and> hd s = CHR ''='' then Assign name attr (neos_strip (tl s))
      else if take 2 s = '':='' then Copy name attr (neos_strip (drop 2 s))
      else if s \<noteq> [] \<and> hd s = CHR '':'' then Link name attr (neos_strip (tl s))
      else if s \<noteq> [] \<and> hd s = CHR ''{'' then Deeper name attr
      else if take 2 s = ''<<'' then Multi name attr (neos_strip (drop 2 s))
      else Bad NERR_PARSE)"

definition scan_assignment :: "string \<Rightarrow> hdf_line option" where
  "scan_assignment s =
     (let name = takeWhile name_char s; s1 = skipws (dropWhile name_char s) in
      if s1 \<noteq> [] \<and> hd s1 = CHR ''['' then do {
        r \<leftarrow> parse_attr (tl s1);
        Some (case r of Inl e \<Rightarrow> Bad e | Inr (attr, s2) \<Rightarrow> scan_operator name attr (skipws s2)) }
      else Some (scan_operator name [] s1))"

text \<open>The name in an \<open>#include\<close> line; a single quote character makes the code leave the string.\<close>

definition include_name :: "string \<Rightarrow> string option" where
  "include_name s =
     (let name = neos_strip s in
      if name \<noteq> [] \<and> hd name = CHR 34 \<and> last name = CHR 34
      then (if length name = 1 then None else Some (butlast (tl name)))
      else Some name)"

abbreviation (input) INCLUDE_ERROR :: int where "INCLUDE_ERROR \<equiv> -1"
abbreviation (input) INCLUDE_IGNORE :: int where "INCLUDE_IGNORE \<equiv> -2"
abbreviation (input) INCLUDE_FILE :: int where "INCLUDE_FILE \<equiv> 0"
abbreviation (input) INCLUDE_MAX_DEPTH :: int where "INCLUDE_MAX_DEPTH \<equiv> 50"

definition scan_line :: "int \<Rightarrow> string \<Rightarrow> hdf_line option" where
  "scan_line handle line =
     (let s = skipws line in
      if take 9 s = ''#include '' \<and> handle \<noteq> INCLUDE_IGNORE then
        (if handle = INCLUDE_ERROR then Some (Bad NERR_PARSE)
         else if handle < INCLUDE_MAX_DEPTH then map_option Include (include_name (drop 9 s))
         else Some (Bad NERR_MAX_RECURSION))
      else if s = [] then Some Blank
      else if hd s = CHR ''#'' then Some Blank
      else if hd s = CHR ''}'' then Some (Up (neos_strip s = ''}''))
      else scan_assignment s)"

section \<open>Reading: trees\<close>

type_synonym loader = "hdf \<Rightarrow> path \<Rightarrow> string \<Rightarrow> int + string"

text \<open>The lines that set one node: the result of \<open>_set_value\<close> and what is left of the text.\<close>

definition set_line :: "hdf \<Rightarrow> path \<Rightarrow> hdf_line \<Rightarrow> string \<Rightarrow> ((int + path) \<times> string \<times> hdf) option" where
  "set_line root p ln rest =
     (let set = (\<lambda>name u rest. map_option (\<lambda>(r, root'). (r, rest, root')) (set_value root (Some p) (Some name) u)) in
      case ln of
        Assign name attr value \<Rightarrow> set name \<lparr>s_value = Some value, s_link = False, s_attr = attr\<rparr> rest
      | Copy name attr src \<Rightarrow> do {
          v \<leftarrow> hdf_get_value root [] (Some src) (Some []);
          set name \<lparr>s_value = v, s_link = False, s_attr = attr\<rparr> rest }
      | Link name attr value \<Rightarrow> set name \<lparr>s_value = Some value, s_link = True, s_attr = attr\<rparr> rest
      | Multi name attr mark \<Rightarrow>
          if mark = [] then Some (Inl NERR_PARSE, rest, root)
          else set name \<lparr>s_value = Some (fst (read_multi mark [] 128 rest)), s_link = False, s_attr = attr\<rparr>
                 (snd (read_multi mark [] 128 rest))
      | Up _ \<Rightarrow> Some (Inl NERR_PARSE, rest, root)
      | Bad e \<Rightarrow> Some (Inl e, rest, root)
      | _ \<Rightarrow> Some (Inr p, rest, root))"

text \<open>The node an opening brace descends to: the one of that name, or a new one.\<close>

definition open_node :: "hdf \<Rightarrow> path \<Rightarrow> string \<Rightarrow> hattr list \<Rightarrow> ((int + path) \<times> hdf) option" where
  "open_node root p name attr = do {
     lower \<leftarrow> hdf_get_obj root p (Some name);
     (case lower of
        None \<Rightarrow> set_value root (Some p) (Some name) \<lparr>s_value = None, s_link = False, s_attr = attr\<rparr>
      | Some q \<Rightarrow> do {
          n \<leftarrow> node_at root q;
          set_value root (Some q) None \<lparr>s_value = hvalue n, s_link = False, s_attr = attr\<rparr> }) }"

text \<open>
  \<open>_hdf_read_string\<close> at the node \<open>p\<close>: the error number or none, what is left of the text, and the
  tree. A line with an opening brace reads the lines up to the closing one into the node it names.
\<close>

partial_function (option) hdf_read_lines ::
    "loader \<Rightarrow> hdf \<Rightarrow> path \<Rightarrow> string \<Rightarrow> int \<Rightarrow> (int option \<times> string \<times> hdf) option" where
  [code]: "hdf_read_lines load root p str handle =
     (if str = [] then Some (None, [], root)
      else do {
        ln \<leftarrow> scan_line handle (fst (copy_line_advance str));
        if is_Include ln then
          (case load root p (included ln) of
             Inl e \<Rightarrow> Some (Some e, snd (copy_line_advance str), root)
           | Inr content \<Rightarrow> do {
               r \<leftarrow> hdf_read_lines load root p content (handle + 1);
               (case fst r of
                  Some e \<Rightarrow> Some (Some e, snd (copy_line_advance str), snd (snd r))
                | None \<Rightarrow> hdf_read_lines load (snd (snd r)) p (snd (copy_line_advance str)) handle) })
        else if is_Up ln then Some (if clean ln then None else Some NERR_PARSE, snd (copy_line_advance str), root)
        else if is_Deeper ln then do {
          r \<leftarrow> open_node root p (lower_name ln) (lower_attr ln);
          (case fst r of
             Inl e \<Rightarrow> Some (Some e, snd (copy_line_advance str), snd r)
           | Inr q \<Rightarrow> do {
               r2 \<leftarrow> hdf_read_lines load (snd r) q (snd (copy_line_advance str)) handle;
               (case fst r2 of
                  Some e \<Rightarrow> Some r2
                | None \<Rightarrow> hdf_read_lines load (snd (snd r2)) p (fst (snd r2)) handle) }) }
        else do {
          r \<leftarrow> set_line root p ln (snd (copy_line_advance str));
          (case fst r of
             Inl e \<Rightarrow> Some (Some e, snd r)
           | Inr _ \<Rightarrow> hdf_read_lines load (snd (snd r)) p (fst (snd r)) handle) } })"

definition no_files :: loader where
  "no_files root p name = Inl NERR_NOT_FOUND"

definition hdf_read_string :: "hdf \<Rightarrow> path \<Rightarrow> string \<Rightarrow> (int option \<times> hdf) option" where
  "hdf_read_string root p str = do {
     r \<leftarrow> hdf_read_lines no_files root p str INCLUDE_ERROR;
     Some (fst r, snd (snd r)) }"

definition hdf_read_string_ignore :: "hdf \<Rightarrow> path \<Rightarrow> string \<Rightarrow> bool \<Rightarrow> (int option \<times> hdf) option" where
  "hdf_read_string_ignore root p str ignore = do {
     r \<leftarrow> hdf_read_lines no_files root p str (if ignore then INCLUDE_IGNORE else INCLUDE_ERROR);
     Some (fst r, snd (snd r)) }"

text \<open>\<open>hdf_read_file\<close> of a path that \<open>load\<close> resolves.\<close>

definition hdf_read_file :: "loader \<Rightarrow> hdf \<Rightarrow> path \<Rightarrow> string \<Rightarrow> (int option \<times> hdf) option" where
  "hdf_read_file load root p name =
     (case load root p name of
        Inl e \<Rightarrow> Some (Some e, root)
      | Inr content \<Rightarrow> do {
          r \<leftarrow> hdf_read_lines load root p content INCLUDE_FILE;
          Some (fst r, snd (snd r)) })"

end
