(* ===== verification/Hdf_Roundtrip.thy ===== *)
theory Hdf_Roundtrip
  imports Hdf_Text
begin

text \<open>
  Writing a tree as text and reading it back gives the tree.
\<close>

section \<open>Which trees survive writing and reading\<close>

definition valid_name :: "string \<Rightarrow> bool" where
  "valid_name n \<longleftrightarrow> n \<noteq> [] \<and> (\<forall>c \<in> set n. name_char c \<and> c \<noteq> CHR ''.'')"

text \<open>
  A value on one line has no blanks around it; a value on several lines ends with a newline and
  does not contain the terminator.
\<close>

definition trimmed :: "string \<Rightarrow> bool" where
  "trimmed v \<longleftrightarrow> v = [] \<or> (\<not> isspace (hd v) \<and> \<not> isspace (last v))"

definition value_ok :: "bool \<Rightarrow> string \<Rightarrow> bool" where
  "value_ok link v \<longleftrightarrow>
     (if newline \<in> set v then \<not> link \<and> last v = newline \<and> \<not> is_infix ''EOM'' v else trimmed v)"

definition attr_ok :: "hattr \<Rightarrow> bool" where
  "attr_ok a \<longleftrightarrow> fst a \<noteq> [] \<and> list_all isalnum (fst a) \<and>
     (case snd a of None \<Rightarrow> False | Some v \<Rightarrow> v \<noteq> ''1'' \<and> NUL \<notin> set v)"

fun writable :: "hdf \<Rightarrow> bool" where
  "writable (HDF n v l a cs) \<longleftrightarrow>
     (case n of None \<Rightarrow> False | Some s \<Rightarrow> valid_name s) \<and>
     (case v of None \<Rightarrow> a = [] \<and> \<not> l \<and> cs \<noteq> [] | Some s \<Rightarrow> value_ok l s \<and> list_all attr_ok a) \<and>
     (l \<longrightarrow> cs = []) \<and> distinct (map hname cs) \<and> (\<forall>c \<in> set cs. writable c)"

section \<open>The text of such a tree\<close>

fun attr_text :: "hattr list \<Rightarrow> string" where
  "attr_text [] = []"
| "attr_text ((k, v) # as) =
     k @ ''='' @ CHR 34 # concat (map repr_char (the v)) @ [CHR 34] @ (if as = [] then [] else '', '') @ attr_text as"

definition attr_part :: "hattr list \<Rightarrow> string" where
  "attr_part a = (if a = [] then [] else '' ['' @ attr_text a @ ''] '')"

definition value_part :: "bool \<Rightarrow> string \<Rightarrow> string" where
  "value_part l v =
     (if newline \<in> set v then '' << EOM'' @ newline # v @ ''EOM'' @ [newline]
      else '' '' @ (if l then '':'' else ''='') @ '' '' @ v @ [newline])"

fun plain_dump :: "hdf list \<Rightarrow> string" where
  "plain_dump [] = []"
| "plain_dump (HDF n v l a cs # sts) =
     (case v of None \<Rightarrow> [] | Some s \<Rightarrow> the n @ attr_part a @ value_part l s) @
     (if cs = [] then [] else the n @ '' {'' @ newline # plain_dump cs @ ''}'' @ [newline]) @
     plain_dump sts"

lemma is_infix_append: "is_infix p s \<Longrightarrow> is_infix p (t @ s)"
  by (induction t) auto

lemma is_infix_take: "take (length p) s = p \<Longrightarrow> is_infix p s"
  by (cases s) auto

lemma is_infix_mid: "is_infix (t @ p @ u) s \<Longrightarrow> is_infix p s"
proof (induction s)
  case Nil
  then show ?case by simp
next
  case (Cons c s)
  show ?case
  proof (cases "is_infix (t @ p @ u) s")
    case True
    then show ?thesis using Cons.IH by simp
  next
    case False
    then have "take (length (t @ p @ u)) (c # s) = t @ p @ u" using Cons.prems by simp
    then have cs: "c # s = t @ p @ u @ drop (length (t @ p @ u)) (c # s)"
      by (metis append.assoc append_take_drop_id)
    have "is_infix p (t @ p @ u @ drop (length (t @ p @ u)) (c # s))"
      by (intro is_infix_append is_infix_take) simp
    then show ?thesis using cs by metis
  qed
qed

lemma no_clash: "\<not> is_infix ''EOM'' v \<Longrightarrow> \<not> ml_clash v usual_ml"
proof
  assume n: "\<not> is_infix ''EOM'' v" and c: "ml_clash v usual_ml"
  from c consider "is_infix usual_ml v" | "drop (length v - length usual_ml + 1) v = butlast usual_ml"
    by (auto simp: ml_clash_def)
  then show False
  proof cases
    case 1
    then have "is_infix ([newline] @ ''EOM'' @ [newline]) v" by (simp add: usual_ml_def)
    from is_infix_mid [OF this] n show False by simp
  next
    case 2
    let ?k = "length v - length usual_ml + 1"
    have "drop ?k v = [newline] @ ''EOM''" using 2 by (simp add: usual_ml_def)
    then have "v = (take ?k v @ [newline]) @ ''EOM''" by (metis append.assoc append_take_drop_id)
    moreover have "is_infix ''EOM'' ((take ?k v @ [newline]) @ ''EOM'')" by (rule is_infix_append) simp
    ultimately show False using n by simp
  qed
qed

lemma dump_attrs_text: "list_all attr_ok as \<Longrightarrow> dump_attrs as = Some (attr_text as)"
  by (induction as rule: dump_attrs.induct) (auto simp: attr_ok_def repr_string_Some butlast_append split: option.splits)

lemma dump_value_text:
  "value_ok l v \<Longrightarrow> dump_value rnd l v usual_ml k = Some (value_part l v, usual_ml, k)"
proof (cases "newline \<in> set v")
  case True
  moreover assume "value_ok l v"
  ultimately have "\<not> ml_clash v usual_ml" "last v = newline" using no_clash by (auto simp: value_ok_def)
  moreover from this have "choose_ml rnd v usual_ml k = Some (usual_ml, k)" by (subst choose_ml.simps) simp
  ultimately show ?thesis using True by (simp add: dump_value_def value_part_def) (simp add: usual_ml_def)
qed (simp add: dump_value_def value_part_def)

lemma dump_is_plain:
  "\<forall>c \<in> set sts. writable c \<Longrightarrow>
     hdf_dump_cb rnd prefix DUMP_TYPE_COMPACT lvl sts usual_ml k = Some (plain_dump sts, k)"
proof (induction sts arbitrary: prefix lvl k rule: plain_dump.induct)
  case (2 name v link attr child sibs)
  obtain n where n: "name = Some n" using "2.prems"(1) by (auto split: option.splits)
  have own: "(case v of
          None \<Rightarrow> Some ([], usual_ml, k)
        | Some v \<Rightarrow> do {
            as \<leftarrow> dump_attrs attr;
            (tx, ml1, k1) \<leftarrow> dump_value rnd link v usual_ml k;
            Some (dump_name prefix DUMP_TYPE_COMPACT lvl n @ (if attr = [] then [] else '' ['' @ as @ ''] '') @ tx, ml1, k1) })
      = Some (case v of None \<Rightarrow> [] | Some s \<Rightarrow> n @ attr_part attr @ value_part link s, usual_ml, k)"
    using "2.prems"
    by (auto simp: dump_attrs_text dump_value_text dump_name_def indent_def attr_part_def split: option.splits)
  have "child \<noteq> [] \<Longrightarrow> hdf_dump_cb rnd (Some n) DUMP_TYPE_COMPACT (lvl + 1) child usual_ml k = Some (plain_dump child, k)"
    using "2.IH"(1) "2.prems" by auto
  moreover have "hdf_dump_cb rnd prefix DUMP_TYPE_COMPACT lvl sibs usual_ml k = Some (plain_dump sibs, k)"
    using "2.IH"(2) "2.prems" by auto
  ultimately show ?case using own n by (auto simp: indent_def cong del: option.case_cong_weak)
qed simp

section \<open>Lines\<close>

lemma name_charD: "name_char c \<Longrightarrow> \<not> isspace c \<and> c \<noteq> newline \<and> c \<notin> set (''#}[{=:<'' @ '' '')"
  by (auto simp: name_char_def isspace_def isalnum_def isalpha_def isdigit_def)

lemma alnumD: "isalnum c \<Longrightarrow> \<not> isspace c \<and> c \<noteq> newline \<and> c \<notin> set ''[]=,'' \<and> name_char c"
  by (auto simp: name_char_def isspace_def isalnum_def isalpha_def isdigit_def)

lemma copy_line_advance_line: "newline \<notin> set l \<Longrightarrow> copy_line_advance (l @ newline # rest) = (l, rest)"
proof -
  assume "newline \<notin> set l"
  then have "takeWhile (\<lambda>c. c \<noteq> newline) (l @ newline # rest) = l" "dropWhile (\<lambda>c. c \<noteq> newline) (l @ newline # rest) = newline # rest"
    by (auto intro: takeWhile_stop simp: dropWhile_append)
  then show ?thesis by (simp add: copy_line_advance_def)
qed

lemma skipws_start: "s \<noteq> [] \<Longrightarrow> \<not> isspace (hd s) \<Longrightarrow> skipws s = s"
  by (cases s) auto

lemma isspace_blank [simp]: "isspace (CHR '' '')" "isspace newline"
  by (simp_all add: isspace_def)

lemma strip_trimmed: "trimmed v \<Longrightarrow> neos_strip (CHR '' '' # v) = v"
proof (cases "v = []")
  case False
  moreover assume "trimmed v"
  ultimately have t: "\<not> isspace (hd v)" "\<not> isspace (last v)" by (auto simp: trimmed_def)
  obtain u where "v = u @ [last v]" using False by (metis append_butlast_last_id)
  then have "neos_rstrip (CHR '' '' # v) = CHR '' '' # v"
    using t(2) by (metis Cons_eq_appendI dropWhile.simps(2) neos_rstrip_def rev_eq_Cons_iff rev_rev_ident)
  then show ?thesis using t(1) False skipws_start [of v] by (simp add: neos_strip_def)
qed (simp add: neos_strip_def neos_rstrip_def)

lemma takeWhile_until: "\<forall>x \<in> set xs. P x \<Longrightarrow> ys = [] \<or> \<not> P (hd ys) \<Longrightarrow> takeWhile P (xs @ ys) = xs \<and> dropWhile P (xs @ ys) = ys"
  by (cases ys) (auto simp: takeWhile_append dropWhile_append)

lemma octal_octal3: "octal_char (octal3 c) = c"
proof -
  have "code_of c div 64 < 4" using code_of_less [of c] by linarith
  moreover have "8 * (8 * (code_of c div 64) + code_of c div 8 mod 8) + code_of c mod 8 = code_of c"
  proof -
    have "code_of c div 8 = 8 * (code_of c div 64) + code_of c div 8 mod 8"
      using div_mult2_eq [of "code_of c" 8 8] by simp
    then have "8 * (8 * (code_of c div 64) + code_of c div 8 mod 8) + code_of c mod 8 = 8 * (code_of c div 8) + code_of c mod 8"
      by (simp only:)
    then show ?thesis by simp
  qed
  ultimately show ?thesis by (simp add: octal_char_def octal3_def)
qed


lemma octal3_digits: "list_all isdigit (octal3 c)" "length (octal3 c) = 3"
proof -
  have "code_of c div 64 < 4" using code_of_less [of c] by linarith
  moreover have "n mod 8 \<le> 9" for n :: nat using mod_less_divisor [of 8 n] by linarith
  ultimately show "list_all isdigit (octal3 c)" by (simp add: octal3_def isdigit_def)
qed (simp add: octal3_def)

lemma parse_quoted_char:
  "parse_quoted buf (repr_char c @ rest) = parse_quoted (buf @ [c]) rest"
proof (cases "isprint c \<and> c \<noteq> CHR 34 \<and> c \<noteq> CHR 92")
  case True
  then show ?thesis by (simp add: repr_char_def)
next
  case False
  show ?thesis
  proof (cases "c \<in> {newline, CHR 9, CHR 13, CHR 34, CHR 92}")
    case True
    then show ?thesis by (auto simp: repr_char_def isprint_def escape_char_def isdigit_def)
  next
    case oct: False
    obtain d e f where o3: "octal3 c = [d, e, f]" "isdigit d" "isdigit e" "isdigit f"
      using octal3_digits [of c] by (simp add: octal3_def)
    have "repr_char c = CHR 92 # octal3 c" using False oct by (auto simp: repr_char_def)
    then show ?thesis using o3 octal_octal3 [of c] by (simp add: isdigit_def [of "CHR 92"])
  qed
qed

lemma parse_quoted_repr:
  "parse_quoted buf (concat (map repr_char v) @ CHR 34 # rest) = Some (Inr (buf @ v, rest))"
proof (induction v arbitrary: buf)
  case (Cons c v)
  then show ?case using parse_quoted_char [of buf c "concat (map repr_char v) @ CHR 34 # rest"] by simp
qed simp

lemma strndup_all: "NUL \<notin> set v \<Longrightarrow> neos_strndup v (length v) = v"
  by (simp add: neos_strndup_def) (metis takeWhile_eq_all_conv)

lemma attr_text_start:
  "as \<noteq> [] \<Longrightarrow> list_all attr_ok as \<Longrightarrow> \<exists>c cs. attr_text as = c # cs \<and> isalnum c"
  by (cases as; cases "fst (hd as)") (auto simp: attr_ok_def)

lemma parse_attr_text:
  "list_all attr_ok as \<Longrightarrow> parse_attr (attr_text as @ CHR '']'' # rest) = Some (Inr (as, rest))"
proof (induction as rule: attr_text.induct)
  case 1
  then show ?case by (subst parse_attr.simps) simp
next
  case (2 k v as)
  obtain u where u: "v = Some u" "NUL \<notin> set u" using "2.prems" by (auto simp: attr_ok_def split: option.splits)
  have k: "k \<noteq> []" "\<forall>c \<in> set k. isalnum c" using "2.prems" by (auto simp: attr_ok_def list_all_iff)
  define more where "more = (if as = [] then [] else '', '') @ attr_text as @ CHR '']'' # rest"
  define body where "body = CHR 34 # concat (map repr_char u) @ CHR 34 # more"
  have s: "attr_text ((k, v) # as) @ CHR '']'' # rest = k @ CHR ''='' # body" by (simp add: u more_def body_def)
  have tw: "takeWhile isalnum (k @ CHR ''='' # body) = k" "dropWhile isalnum (k @ CHR ''='' # body) = CHR ''='' # body"
    using takeWhile_until [OF k(2), of "CHR ''='' # body"] alnumD [of "CHR ''=''"] by auto
  have hdk: "hd (k @ CHR ''='' # body) \<noteq> CHR '']''" using k alnumD by (cases k) auto
  have sp: "skipws (CHR ''='' # body) = CHR ''='' # body" "skipws body = body"
    by (simp_all add: isspace_def body_def)
  have val: "parse_attr_value (CHR ''='' # body) = Some (Inr (u, more))"
    using parse_quoted_repr [of "[]" u more] sp(2)
    by (simp add: parse_attr_value_def body_def strndup_all [OF u(2)])
  have comma: "skip_comma more = attr_text as @ CHR '']'' # rest"
  proof (cases "as = []")
    case True
    then show ?thesis by (simp add: more_def skip_comma_def isspace_def)
  next
    case False
    moreover have "list_all attr_ok as" using "2.prems" by simp
    ultimately obtain c cs where "attr_text as = c # cs" "isalnum c" using attr_text_start by blast
    moreover have "\<not> isspace (CHR '','')" by (simp add: isspace_def)
    ultimately show ?thesis using alnumD [of c] False by (simp add: more_def skip_comma_def)
  qed
  have "parse_attr (k @ CHR ''='' # body) = Some (Inr ((k, v) # as, rest))"
    using 2 k tw hdk sp(1) val comma u by (subst parse_attr.simps) (simp add: Let_def)
  then show ?case by (simp only: s)
qed


section \<open>Scanning the lines of a dump\<close>

lemma scan_assignment_dump:
  assumes "valid_name n" "list_all attr_ok a" "o1 \<noteq> []" "\<not> isspace (hd o1)" "hd o1 \<noteq> CHR ''[''"
  shows "scan_assignment (n @ attr_part a @ CHR '' '' # o1) = Some (scan_operator n a o1)"
proof -
  have n: "\<forall>c \<in> set n. name_char c" using assms(1) by (simp add: valid_name_def)
  have blank: "\<not> name_char (CHR '' '')" using name_charD [of "CHR '' ''"] by auto
  have sk: "skipws (CHR '' '' # o1) = o1" using skipws_start [OF assms(3,4)] by simp
  show ?thesis
  proof (cases "a = []")
    case True
    then show ?thesis
      using takeWhile_until [OF n, of "CHR '' '' # o1"] blank sk assms(3,5)
      by (simp add: scan_assignment_def attr_part_def Let_def)
  next
    case False
    let ?t = "CHR ''['' # attr_text a @ CHR '']'' # CHR '' '' # CHR '' '' # o1"
    have br: "\<not> isspace (CHR ''['')" by (simp add: isspace_def)
    have "takeWhile name_char (n @ CHR '' '' # ?t) = n" "dropWhile name_char (n @ CHR '' '' # ?t) = CHR '' '' # ?t"
      using takeWhile_until [OF n, of "CHR '' '' # ?t"] blank by simp_all
    moreover have "parse_attr (attr_text a @ CHR '']'' # CHR '' '' # CHR '' '' # o1) = Some (Inr (a, CHR '' '' # CHR '' '' # o1))"
      by (rule parse_attr_text [OF assms(2)])
    ultimately show ?thesis using False br sk by (simp add: scan_assignment_def attr_part_def Let_def)
  qed
qed

lemma scan_line_name:
  assumes "valid_name n"
  shows "scan_line h (n @ rest) = scan_assignment (n @ rest)"
proof -
  obtain c cs where n: "n = c # cs" "name_char c" using assms by (cases n) (auto simp: valid_name_def)
  then show ?thesis using name_charD [of c] by (auto simp: scan_line_def Let_def)
qed

lemma scan_single:
  assumes "valid_name n" "list_all attr_ok a" "trimmed v"
  shows "scan_line h (n @ attr_part a @ CHR '' '' # (if l then CHR '':'' else CHR ''='') # CHR '' '' # v) =
     Some (if l then Link n a v else Assign n a v)"
  using scan_assignment_dump [OF assms(1,2), of "(if l then CHR '':'' else CHR ''='') # CHR '' '' # v"]
    scan_line_name [OF assms(1), of h "attr_part a @ CHR '' '' # (if l then CHR '':'' else CHR ''='') # CHR '' '' # v"]
    strip_trimmed [OF assms(3)]
  by (auto simp: scan_operator_def isspace_def)

lemma scan_multi:
  assumes "valid_name n" "list_all attr_ok a"
  shows "scan_line h (n @ attr_part a @ '' << EOM'') = Some (Multi n a ''EOM'')"
proof -
  have "neos_strip '' EOM'' = ''EOM''" by (rule strip_trimmed) (simp add: trimmed_def isspace_def)
  then show ?thesis
    using scan_assignment_dump [OF assms, of "''<< EOM''"] scan_line_name [OF assms(1), of h "attr_part a @ '' << EOM''"]
    by (simp add: scan_operator_def isspace_def)
qed

lemma scan_deeper:
  assumes "valid_name n"
  shows "scan_line h (n @ '' {'') = Some (Deeper n [])"
  using scan_assignment_dump [OF assms, of "[]" "''{''"] scan_line_name [OF assms, of h "'' {''"]
  by (simp add: scan_operator_def isspace_def attr_part_def)

lemma scan_up: "scan_line h ''}'' = Some (Up True)"
  by (simp add: scan_line_def isspace_def neos_strip_def neos_rstrip_def)

lemma newline_name: "valid_name n \<Longrightarrow> newline \<notin> set n"
  using name_charD by (auto simp: valid_name_def)

lemma newline_repr: "newline \<notin> set (repr_char c)"
proof -
  have "newline \<notin> set (octal3 c)" using octal3_digits(1) [of c] by (auto simp: list_all_iff isdigit_def)
  then show ?thesis by (auto simp: repr_char_def isprint_def)
qed

lemma newline_attr: "list_all attr_ok a \<Longrightarrow> newline \<notin> set (attr_part a)"
proof -
  have "newline \<notin> set (attr_text a)" if "list_all attr_ok a"
    using that by (induction a rule: attr_text.induct)
      (auto simp: attr_ok_def newline_repr list_all_iff dest: alnumD)
  then show "list_all attr_ok a \<Longrightarrow> ?thesis" by (simp add: attr_part_def)
qed

section \<open>Reading several lines\<close>

lemma copy_line_room:
  "v \<noteq> [] \<Longrightarrow> last v = newline \<Longrightarrow> 0 < k \<Longrightarrow>
     \<exists>c v'. copy_line k (v @ tx) = (c, v' @ tx) \<and> v = c @ v' \<and> c \<noteq> [] \<and> (v' \<noteq> [] \<longrightarrow> last v' = newline)"
proof (induction v arbitrary: k)
  case (Cons x v)
  then obtain k' where k: "k = Suc k'" by (cases k) auto
  show ?case
  proof (cases "x = newline")
    case True
    then show ?thesis using Cons.prems k by (auto split: if_splits)
  next
    case False
    then have v: "v \<noteq> []" "last v = newline" using Cons.prems by (auto split: if_splits)
    show ?thesis
    proof (cases k')
      case 0
      then show ?thesis using False k v by simp
    next
      case (Suc k2)
      then have "0 < k'" by simp
      from Cons.IH [OF v this] obtain c v' where "copy_line k' (v @ tx) = (c, v' @ tx)" "v = c @ v'"
        "v' \<noteq> [] \<longrightarrow> last v' = newline" by blast
      then show ?thesis using False k by auto
    qed
  qed
qed simp


lemma copy_line_length: "length (fst (copy_line k s)) \<le> k"
  by (induction k s rule: copy_line.induct) (auto split: prod.splits)

lemma read_multi_value:
  assumes "v \<noteq> [] \<longrightarrow> last v = newline" "\<not> is_infix ''EOM'' v" "length m + 13 \<le> mmax"
  shows "read_multi ''EOM'' m mmax (v @ ''EOM'' @ newline # rest) = (m @ v, rest)"
  using assms
proof (induction "length v" arbitrary: v m mmax rule: less_induct)
  case less
  let ?k = "mmax - length m - 1"
  show ?case
  proof (cases "v = []")
    case True
    define k where "k = ?k - 4"
    have "?k = Suc (Suc (Suc (Suc k)))" using less.prems(3) unfolding k_def by arith
    then show ?thesis using True by (subst read_multi.simps) simp
  next
    case False
    have "0 < ?k" using less.prems(3) by simp
    then obtain c v' where c: "copy_line ?k (v @ ''EOM'' @ newline # rest) = (c, v' @ ''EOM'' @ newline # rest)" "v = c @ v'" "c \<noteq> []"
      "v' \<noteq> [] \<longrightarrow> last v' = newline"
      using copy_line_room [OF False, of ?k "''EOM'' @ newline # rest"] less.prems(1) False by blast
    have lc: "length c \<le> ?k" using copy_line_length [of ?k "v @ ''EOM'' @ newline # rest"] c(1) by simp
    have n: "\<not> (take 3 c = ''EOM'' \<and> 3 < length c \<and> isspace (c ! 3))"
      using is_infix_take [of "''EOM''" v] less.prems(2) c(2) by (auto simp: numeral_3_eq_3)
    have n': "\<not> is_infix ''EOM'' v'" using is_infix_append less.prems(2) c(2) by blast
    let ?mmax = "if length (m @ c) + 3 + 10 > mmax then mmax + 128 else mmax"
    have "length (m @ c) + 13 \<le> ?mmax" using lc less.prems(3) by auto
    moreover have "length v' < length v" using c(2,3) by simp
    ultimately have "read_multi ''EOM'' (m @ c) ?mmax (v' @ ''EOM'' @ newline # rest) = ((m @ c) @ v', rest)"
      using less.hyps [of v' "m @ c" ?mmax] c(4) n' by blast
    then show ?thesis using c n by (subst read_multi.simps) (simp add: Let_def numeral_3_eq_3)
  qed
qed

section \<open>Reading a node\<close>

lemma read_line_set:
  assumes "newline \<notin> set line" "line \<noteq> []" "scan_line h line = Some ln" "\<not> is_Include ln" "\<not> is_Up ln" "\<not> is_Deeper ln"
    and "set_line root p ln rest = Some (Inr q, rest', root')"
  shows "hdf_read_lines load root p (line @ newline # rest) h = hdf_read_lines load root' p rest' h"
  using assms copy_line_advance_line [OF assms(1), of rest] by (subst hdf_read_lines.simps) simp

lemma valid_simple: "valid_name n \<Longrightarrow> n \<noteq> [] \<and> CHR ''.'' \<notin> set n"
  by (auto simp: valid_name_def)

lemma read_own:
  assumes "node_at root p = Some t" "\<not> hlink t" "find_child n (hchild t) = None" "valid_name n"
    and "value_ok l v" "list_all attr_ok a"
  shows "hdf_read_lines load root p (n @ attr_part a @ value_part l v @ rest) h =
     hdf_read_lines load (update_at p (add_child (HDF (Some n) (Some v) l a [])) root) p rest h"
proof -
  have sv: "set_value root (Some p) (Some n) \<lparr>s_value = Some v, s_link = l, s_attr = a\<rparr> =
     Some (Inr (p @ [length (hchild t)]), update_at p (add_child (HDF (Some n) (Some v) l a [])) root)"
    using set_value_new [OF assms(1-3)] valid_simple [OF assms(4)] by simp
  have nl: "newline \<notin> set n" "newline \<notin> set (attr_part a)"
    using newline_name [OF assms(4)] newline_attr [OF assms(6)] by auto
  show ?thesis
  proof (cases "newline \<in> set v")
    case True
    let ?line = "n @ attr_part a @ '' << EOM''"
    have v: "\<not> l" "v \<noteq> [] \<longrightarrow> last v = newline" "\<not> is_infix ''EOM'' v" using assms(5) True by (auto simp: value_ok_def)
    have rm: "read_multi ''EOM'' [] 128 (v @ ''EOM'' @ newline # rest) = (v, rest)"
      using read_multi_value [OF v(2,3), of "[]" 128 rest] by simp
    have "set_line root p (Multi n a ''EOM'') (v @ ''EOM'' @ newline # rest)
        = Some (Inr (p @ [length (hchild t)]), rest, update_at p (add_child (HDF (Some n) (Some v) l a [])) root)"
      using sv rm v(1) by (simp add: set_line_def)
    moreover have "newline \<notin> set ?line" using nl by simp
    ultimately have "hdf_read_lines load root p (?line @ newline # v @ ''EOM'' @ newline # rest) h =
       hdf_read_lines load (update_at p (add_child (HDF (Some n) (Some v) l a [])) root) p rest h"
      using read_line_set [OF _ _ scan_multi [OF assms(4,6)], of root p "v @ ''EOM'' @ newline # rest"] by simp
    then show ?thesis using True by (simp add: value_part_def)
  next
    case False
    let ?line = "n @ attr_part a @ CHR '' '' # (if l then CHR '':'' else CHR ''='') # CHR '' '' # v"
    have v: "trimmed v" using assms(5) False by (simp add: value_ok_def)
    let ?ln = "if l then Link n a v else Assign n a v"
    have "set_line root p ?ln rest
        = Some (Inr (p @ [length (hchild t)]), rest, update_at p (add_child (HDF (Some n) (Some v) l a [])) root)"
      using sv by (cases l) (simp_all add: set_line_def)
    moreover have "newline \<notin> set ?line" using nl False by simp
    ultimately have "hdf_read_lines load root p (?line @ newline # rest) h =
       hdf_read_lines load (update_at p (add_child (HDF (Some n) (Some v) l a [])) root) p rest h"
      using read_line_set [OF _ _ scan_single [OF assms(4,6) v], of l root p rest] by simp
    then show ?thesis using False by (cases l) (simp_all add: value_part_def)
  qed
qed


lemma walk_child:
  assumes "node_at root p = Some t" "\<not> hlink t" "valid_name n"
  shows "find_child n (hchild t) = None \<Longrightarrow> hdf_get_obj root p (Some n) = Some None"
    and "find_child n (hchild t) = Some i \<Longrightarrow> \<not> hlink (hchild t ! i) \<Longrightarrow> hdf_get_obj root p (Some n) = Some (Some (p @ [i]))"
proof -
  have n: "n \<noteq> []" "split_dots n = [n]" using valid_simple [OF assms(3)] by (auto simp: split_dots_plain)
  show "find_child n (hchild t) = None \<Longrightarrow> hdf_get_obj root p (Some n) = Some None"
    using assms n by (simp add: hdf_get_obj_def walk_hdf_def walk_components.simps)
  assume f: "find_child n (hchild t) = Some i" "\<not> hlink (hchild t ! i)"
  then have "node_at root (p @ [i]) = Some (hchild t ! i)"
    using assms(1) find_child_SomeD [OF f(1)] by (simp add: node_at_append)
  then have "walk_components root (p @ [i]) [] = Some (Some (p @ [i]))" using f(2) by (subst walk_components.simps) simp
  then show "hdf_get_obj root p (Some n) = Some (Some (p @ [i]))"
    using assms n f(1) by (simp add: hdf_get_obj_def walk_hdf_def) (subst walk_components.simps, simp)
qed

text \<open>Opening the braces of a node, whether its value was written before or not.\<close>

lemma open_node_child:
  assumes "node_at root p = Some t" "\<not> hlink t" "find_child n (hchild t) = None" "valid_name n"
    and "v = None \<Longrightarrow> a = []"
  shows "open_node (case v of None \<Rightarrow> root | Some s \<Rightarrow> update_at p (add_child (HDF (Some n) (Some s) False a [])) root) p n []
     = Some (Inr (p @ [length (hchild t)]), update_at p (add_child (HDF (Some n) v False a [])) root)"
proof (cases v)
  case None
  then show ?thesis
    using set_value_new [OF assms(1-3)] walk_child(1) [OF assms(1,2,4,3)] valid_simple [OF assms(4)] assms(5)
    by (simp add: open_node_def)
next
  case (Some s)
  let ?c = "HDF (Some n) (Some s) False a []"
  let ?root = "update_at p (add_child ?c) root"
  let ?q = "p @ [length (hchild t)]"
  have at: "node_at ?root p = Some (add_child ?c t)" using assms(1) by (rule node_at_update_at)
  have q: "node_at ?root ?q = Some ?c" using at by (simp add: node_at_append)
  have "hdf_get_obj ?root p (Some n) = Some (Some ?q)"
    using walk_child(2) [OF at, of n "length (hchild t)"] assms(2-4) by (simp add: find_child_add)
  moreover have "update_at ?q (assign_node \<lparr>s_value = Some s, s_link = False, s_attr = []\<rparr>) ?root = ?root"
    using update_at_cong [OF q, of "assign_node \<lparr>s_value = Some s, s_link = False, s_attr = []\<rparr>" id] update_at_id [OF q]
    by (simp add: join_attr_def)
  ultimately show ?thesis using Some q by (simp add: open_node_def set_value_def)
qed

lemma read_up: "hdf_read_lines load root p (CHR ''}'' # newline # rest) h = Some (None, rest, root)"
  using copy_line_advance_line [of "''}''" rest] by (subst hdf_read_lines.simps) (simp add: scan_up)

lemma read_braces:
  assumes "valid_name n" "open_node root p n [] = Some (Inr q, root1)"
    and "hdf_read_lines load root1 q tx h = Some (None, rest, root2)"
  shows "hdf_read_lines load root p (n @ '' {'' @ newline # tx) h = hdf_read_lines load root2 p rest h"
proof -
  have "newline \<notin> set (n @ '' {'')" using newline_name [OF assms(1)] by simp
  from copy_line_advance_line [OF this, of tx]
  have "copy_line_advance (n @ '' {'' @ newline # tx) = (n @ '' {'', tx)" by simp
  then show ?thesis
    using assms(2,3) scan_deeper [OF assms(1), of h] by (subst hdf_read_lines.simps) simp
qed

lemma read_plain_dump:
  assumes "\<forall>c \<in> set sts. writable c" "node_at root p = Some t" "\<not> hlink t" "distinct (map hname (hchild t @ sts))"
  shows "hdf_read_lines load root p (plain_dump sts @ rest) h =
     hdf_read_lines load (update_at p (\<lambda>t. set_hchild (hchild t @ sts) t) root) p rest h"
  using assms
proof (induction sts arbitrary: root p t rest rule: plain_dump.induct)
  case 1
  then have "update_at p (\<lambda>t. set_hchild (hchild t @ []) t) root = update_at p id root"
    by (intro update_at_cong [OF 1(2)]) simp
  with 1 show ?case by (simp add: update_at_id)
next
  case (2 name v l a cs sts)
  obtain n where n: "name = Some n" "valid_name n" using "2.prems"(1) by (auto split: option.splits)
  have w: "l \<longrightarrow> cs = []" "distinct (map hname cs)" "\<forall>c \<in> set cs. writable c"
    "v = None \<longrightarrow> a = [] \<and> \<not> l \<and> cs \<noteq> []" "\<And>s. v = Some s \<Longrightarrow> value_ok l s \<and> list_all attr_ok a"
    using "2.prems"(1) by (auto split: option.splits)
  have nf: "find_child n (hchild t) = None"
    using "2.prems"(4) n by (auto simp: find_child_None_iff image_iff)
  let ?c = "HDF name v l a cs"
  let ?root1 = "case v of None \<Rightarrow> root | Some s \<Rightarrow> update_at p (add_child (HDF (Some n) (Some s) l a [])) root"
  let ?root3 = "update_at p (add_child ?c) root"
  let ?braces = "if cs = [] then [] else n @ '' {'' @ newline # plain_dump cs @ ''}'' @ [newline]"
  have own: "hdf_read_lines load root p ((case v of None \<Rightarrow> [] | Some s \<Rightarrow> n @ attr_part a @ value_part l s) @ tx) h
      = hdf_read_lines load ?root1 p tx h" for tx
    using read_own [OF "2.prems"(2,3) nf n(2)] w(5) by (auto split: option.splits)
  have braces: "hdf_read_lines load ?root1 p (?braces @ tx) h = hdf_read_lines load ?root3 p tx h" for tx
  proof (cases "cs = []")
    case True
    then show ?thesis using w(4) n by (cases v) auto
  next
    case False
    then have l: "\<not> l" using w(1) by simp
    let ?root2 = "update_at p (add_child (HDF (Some n) v False a [])) root"
    let ?q = "p @ [length (hchild t)]"
    have q: "node_at ?root2 ?q = Some (HDF (Some n) v False a [])"
      using node_at_update_at [OF "2.prems"(2)] by (simp add: node_at_append)
    have "hdf_read_lines load ?root2 ?q (plain_dump cs @ CHR ''}'' # newline # tx) h
        = Some (None, tx, update_at ?q (\<lambda>t. set_hchild (hchild t @ cs) t) ?root2)"
      using "2.IH"(1) [OF False w(3) q, of "CHR ''}'' # newline # tx"] w(2) by (simp add: read_up)
    moreover have "update_at ?q (\<lambda>t. set_hchild (hchild t @ cs) t) ?root2 = ?root3"
      unfolding update_at_append update_at_update_at
      by (rule update_at_cong [OF "2.prems"(2)]) (simp add: add_child_conv l n)
    ultimately show ?thesis
      using read_braces [OF n(2) open_node_child [OF "2.prems"(2,3) nf n(2), of v a], of load "plain_dump cs @ CHR ''}'' # newline # tx" h tx]
        w(4) False l by (simp cong del: option.case_cong_weak)
  qed
  have at3: "node_at ?root3 p = Some (add_child ?c t)" using "2.prems"(2) by (rule node_at_update_at)
  have "hdf_read_lines load ?root3 p (plain_dump sts @ rest) h
      = hdf_read_lines load (update_at p (\<lambda>t. set_hchild (hchild t @ sts) t) ?root3) p rest h"
    using "2.IH"(2) [OF _ at3, of rest] "2.prems" by simp
  moreover have "update_at p (\<lambda>t. set_hchild (hchild t @ sts) t) ?root3 = update_at p (\<lambda>t. set_hchild (hchild t @ ?c # sts) t) root"
    unfolding update_at_update_at by (rule update_at_cong [OF "2.prems"(2)]) (simp add: add_child_conv)
  moreover have "plain_dump (?c # sts) @ rest = (case v of None \<Rightarrow> [] | Some s \<Rightarrow> n @ attr_part a @ value_part l s) @ ?braces @ plain_dump sts @ rest"
    using n by (simp split: option.splits)
  ultimately show ?case
    using own [of "?braces @ plain_dump sts @ rest"] braces [of "plain_dump sts @ rest"] by (simp only:)
qed

lemma write_plain:
  "\<forall>c \<in> set cs. writable c \<Longrightarrow> hdf_write_string rnd (HDF None None False [] cs) = Some (plain_dump cs)"
  by (simp add: hdf_write_string_def hdf_dump_str_def dump_is_plain)

lemma read_plain:
  assumes "\<forall>c \<in> set cs. writable c" "distinct (map hname cs)"
  shows "hdf_read_string hdf_init [] (plain_dump cs) = Some (None, HDF None None False [] cs)"
proof -
  have end': "hdf_read_lines no_files root [] [] h = Some (None, [], root)" for root h
    by (subst hdf_read_lines.simps) simp
  show ?thesis
    using read_plain_dump [OF assms(1), of hdf_init "[]" hdf_init no_files "[]"] assms(2)
    by (simp add: hdf_read_string_def hdf_init_def end')
qed

section \<open>Properties\<close>

text \<open>
  C28. Text round trip: a tree whose names are plain, whose siblings differ, whose values have no
  blanks around them (or are several lines that end with a newline and do not contain the
  terminator), whose leaves have values and whose attributes have values other than "1" is
  written without error, and \<open>hdf_read_string\<close> of that text into an empty tree ends without error
  with the same tree, links, attributes and subtrees included.
\<close>

theorem hdf_text_roundtrip:
  assumes "\<forall>c \<in> set cs. writable c" "distinct (map hname cs)"
  shows "\<exists>tx. hdf_write_string rnd (HDF None None False [] cs) = Some tx \<and>
     hdf_read_string hdf_init [] tx = Some (None, HDF None None False [] cs)"
  using write_plain [OF assms(1)] read_plain [OF assms] by blast

definition demo_doc :: "hdf list" where
  "demo_doc = [HDF (Some ''user'') (Some ''bob dylan'') False [(''role'', Some ''a,b'')] [HDF (Some ''id'') (Some ''7'') False [] []],
     HDF (Some ''text'') (Some (''l1'' @ [newline])) False [] []]"

theorem hdf_text_roundtrip_witness:
  "\<exists>tx. hdf_write_string id (HDF None None False [] demo_doc) = Some tx \<and>
     hdf_read_string hdf_init [] tx = Some (None, HDF None None False [] demo_doc)"
  by (rule hdf_text_roundtrip)
    (simp_all add: demo_doc_def valid_name_def name_char_def isalnum_def isalpha_def isdigit_def value_ok_def trimmed_def
      isspace_def attr_ok_def)

end
