(* ===== verification/Packet.thy ===== *)
theory Packet
  imports Hdf_Roundtrip
begin

text \<open>
  The packet body (client/packet.c), shared by client and server: a data tree as text, wrapped as one
  typed, named, length-prefixed string. Buffers are blocks of bytes with checked access. Sizes are
  \<open>size_t\<close>, written out modulo \<open>2 ^ 64\<close> where the code subtracts, and \<open>uint32_t\<close> on the wire.
\<close>

abbreviation (input) MAX_PACKET_LEN :: nat where "MAX_PACKET_LEN \<equiv> 65536"
abbreviation (input) RESERVE_SIZE :: nat where "RESERVE_SIZE \<equiv> 512"
abbreviation (input) DATA_TYPE_EOF :: u32 where "DATA_TYPE_EOF \<equiv> 0"
abbreviation (input) DATA_TYPE_STRING :: u32 where "DATA_TYPE_STRING \<equiv> 3"

definition size_sub :: "nat \<Rightarrow> nat \<Rightarrow> nat" where
  "size_sub a b = (a + 2 ^ 64 - b) mod 2 ^ 64"

section \<open>Packing\<close>

definition pack_data_str :: "string \<Rightarrow> string option \<Rightarrow> bytes \<Rightarrow> nat \<Rightarrow> (nat \<times> bytes) option" where
  "pack_data_str key val buf len =
     (let ksize = length key;
          vsize0 = (case val of None \<Rightarrow> 0 | Some v \<Rightarrow> length v + 1);
          vsize = (if vsize0 > size_sub len RESERVE_SIZE then size_sub len RESERVE_SIZE else vsize0) in
      do {
        b1 \<leftarrow> wr buf 0 (be32 DATA_TYPE_STRING);
        b2 \<leftarrow> wr b1 4 (be32 (of_nat ksize));
        b3 \<leftarrow> wr b2 8 key;
        b4 \<leftarrow> wr b3 (8 + ksize) (be32 (of_nat vsize));
        b5 \<leftarrow> (if vsize > 0 then wr b4 (8 + ksize + 4) (take vsize (the val @ [NUL])) else Some b4);
        b6 \<leftarrow> wr b5 (8 + ksize + 4 + vsize) [NUL];
        Some (8 + ksize + 4 + vsize, b6) })"

definition pack_hdf :: "(nat \<Rightarrow> nat) \<Rightarrow> hdf \<Rightarrow> bytes \<Rightarrow> nat \<Rightarrow> (nat \<times> bytes) option" where
  "pack_hdf rnd hdf buf len = do {
     p \<leftarrow> hdf_write_string rnd hdf;
     (vsize, b) \<leftarrow> pack_data_str ''root'' (Some p) buf len;
     b' \<leftarrow> wr b vsize (be32 DATA_TYPE_EOF);
     Some (vsize + 4, b') }"

section \<open>Unpacking\<close>

text \<open>
  \<open>unpack_data_str\<close> of the buffer \<open>m + off\<close>: the size it reports (32-bit) and the address of the value,
  if any. The length argument of the code is not used by it.
\<close>

definition unpack_data_str :: "bytes \<Rightarrow> nat \<Rightarrow> nat \<Rightarrow> (u32 \<times> nat option) option" where
  "unpack_data_str m off len = do {
     vtype \<leftarrow> rd32 m off;
     if vtype \<noteq> DATA_TYPE_STRING then Some (0, None)
     else do {
       ksize \<leftarrow> rd32 m (off + 4);
       vsize \<leftarrow> rd32 m (off + 8 + unat ksize);
       Some (4 + (ksize + 8) + (4 + vsize), Some (off + 8 + unat ksize + 4)) } }"

definition unpack_hdf :: "bytes \<Rightarrow> nat \<Rightarrow> nat \<Rightarrow> (u32 \<times> hdf) option" where
  "unpack_hdf m off len = do {
     (ttsize, val) \<leftarrow> unpack_data_str m off len;
     (case val of
        None \<Rightarrow> Some (ttsize, hdf_init)
      | Some v \<Rightarrow> do {
          s \<leftarrow> rdcstr m v;
          (err, hdf) \<leftarrow> hdf_read_string hdf_init [] s;
          Some (ttsize, hdf) }) }"

lemma size_sub_le: "b \<le> a \<Longrightarrow> a < 2 ^ 64 \<Longrightarrow> size_sub a b = a - b"
proof -
  assume "b \<le> a" "a < 2 ^ 64"
  then have "a + 2 ^ 64 - b = (a - b) + 2 ^ 64" "(a - b) mod 2 ^ 64 = a - b" by auto
  then show ?thesis by (simp only: size_sub_def mod_add_self2)
qed

section \<open>The layout of a packed value\<close>

text \<open>The bytes \<open>pack_data_str\<close> writes and reports, and those of \<open>pack_hdf\<close>.\<close>

definition packed :: "string \<Rightarrow> bytes \<Rightarrow> bytes" where
  "packed key val = be32 DATA_TYPE_STRING @ be32 (of_nat (length key)) @ key @ be32 (of_nat (length val)) @ val"

lemma length_packed: "length (packed key val) = 12 + length key + length val"
  by (simp add: packed_def)

lemma wr_in: "off + length bs \<le> length m \<Longrightarrow> wr m off bs = Some (take off m @ bs @ drop (off + length bs) m)"
  by (simp add: wr_def)

lemma wr_after: "length bs \<le> length ys \<Longrightarrow> wr (xs @ ys) (length xs) bs = Some (xs @ bs @ drop (length bs) ys)"
  by (simp add: wr_def)

lemma wr_after': "off = length xs \<Longrightarrow> length bs \<le> length ys \<Longrightarrow> wr (xs @ ys) off bs = Some ((xs @ bs) @ drop (length bs) ys)"
  by (simp add: wr_def)

lemma pack_data_str_writes:
  assumes "val = Some v" "512 \<le> len" "len < 2 ^ 64"
    and "vs = take (len - 512) (v @ [NUL])" "13 + length key + length vs \<le> length buf"
  shows "pack_data_str key val buf len =
     Some (length (packed key vs), packed key vs @ NUL # drop (13 + length key + length vs) buf)"
proof -
  have sub: "size_sub len RESERVE_SIZE = len - 512" by (rule size_sub_le) (use assms in auto)
  have lv: "length vs = (if length v + 1 > len - 512 then len - 512 else length v + 1)" using assms(4) by simp
  have tk: "take (length vs) (v @ [NUL]) = vs" by (simp add: assms(4) min_def)
  let ?n = "length key"
  let ?k = "be32 (of_nat ?n)"
  let ?w = "be32 (of_nat (length vs))"
  let ?t = "be32 DATA_TYPE_STRING"
  have "wr buf 0 ?t = Some (?t @ drop 4 buf)" using assms(5) wr_after' [of 0 "[]" ?t buf] by simp
  moreover have "wr (?t @ drop 4 buf) 4 ?k = Some ((?t @ ?k) @ drop 8 buf)"
    using assms(5) wr_after' [of 4 ?t ?k "drop 4 buf"] by simp
  moreover have "wr ((?t @ ?k) @ drop 8 buf) 8 key = Some ((?t @ ?k @ key) @ drop (8 + ?n) buf)"
    using assms(5) wr_after' [of 8 "?t @ ?k" key "drop 8 buf"] by (simp add: add.commute)
  moreover have "wr ((?t @ ?k @ key) @ drop (8 + ?n) buf) (8 + ?n) ?w = Some ((?t @ ?k @ key @ ?w) @ drop (12 + ?n) buf)"
    using assms(5) wr_after' [of "8 + ?n" "?t @ ?k @ key" ?w "drop (8 + ?n) buf"] by (simp add: add.commute)
  moreover have "(if length vs > 0 then wr ((?t @ ?k @ key @ ?w) @ drop (12 + ?n) buf) (8 + ?n + 4) vs
      else Some ((?t @ ?k @ key @ ?w) @ drop (12 + ?n) buf)) = Some (packed key vs @ drop (12 + ?n + length vs) buf)"
    using assms(5) wr_after' [of "8 + ?n + 4" "?t @ ?k @ key @ ?w" vs "drop (12 + ?n) buf"]
    by (simp add: packed_def add.commute)
  moreover have "wr (packed key vs @ drop (12 + ?n + length vs) buf) (8 + ?n + 4 + length vs) [NUL]
      = Some (packed key vs @ NUL # drop (13 + ?n + length vs) buf)"
    using assms(5) wr_after' [of "8 + ?n + 4 + length vs" "packed key vs" "[NUL]" "drop (12 + ?n + length vs) buf"]
    by (simp add: length_packed add.assoc)
  moreover have "pack_data_str key val buf len = do {
        b1 \<leftarrow> wr buf 0 ?t;
        b2 \<leftarrow> wr b1 4 ?k;
        b3 \<leftarrow> wr b2 8 key;
        b4 \<leftarrow> wr b3 (8 + ?n) ?w;
        b5 \<leftarrow> (if length vs > 0 then wr b4 (8 + ?n + 4) vs else Some b4);
        b6 \<leftarrow> wr b5 (8 + ?n + 4 + length vs) [NUL];
        Some (8 + ?n + 4 + length vs, b6) }"
    unfolding pack_data_str_def Let_def assms(1) option.case option.sel sub lv [symmetric] tk ..
  ultimately show ?thesis by (simp only: Option.bind.simps length_packed) simp
qed


lemma unat_of_small: "n < 2 ^ 32 \<Longrightarrow> unat (of_nat n :: u32) = n"
  by (simp add: unsigned_of_nat take_bit_nat_eq_self)

lemma unpack_packed:
  assumes "length key < 2 ^ 32" "length vs < 2 ^ 32" "off = length pre"
  shows "unpack_data_str (pre @ packed key vs @ rest) off len =
     Some (of_nat (16 + length key + length vs), Some (off + 12 + length key))"
proof -
  let ?k = "be32 (of_nat (length key))"
  have "rd32 (pre @ packed key vs @ rest) off = Some DATA_TYPE_STRING"
    using rd32_at [OF assms(3), of DATA_TYPE_STRING] by (simp add: packed_def)
  moreover have "rd32 (pre @ packed key vs @ rest) (off + 4) = Some (of_nat (length key))"
    using rd32_at [of "off + 4" "pre @ be32 DATA_TYPE_STRING" "of_nat (length key)" "key @ be32 (of_nat (length vs)) @ vs @ rest"]
      assms(3) by (simp add: packed_def)
  moreover have "rd32 (pre @ packed key vs @ rest) (off + 8 + length key) = Some (of_nat (length vs))"
    using rd32_at [of "off + 8 + length key" "pre @ be32 DATA_TYPE_STRING @ ?k @ key" "of_nat (length vs)" "vs @ rest"]
      assms(3) by (simp add: packed_def)
  ultimately show ?thesis using unat_of_small [OF assms(1)] by (simp add: unpack_data_str_def)
qed

section \<open>Trees of C strings\<close>

fun nul_free :: "hdf \<Rightarrow> bool" where
  "nul_free (HDF n v l a cs) \<longleftrightarrow> (case v of None \<Rightarrow> True | Some s \<Rightarrow> NUL \<notin> set s) \<and> (\<forall>c \<in> set cs. nul_free c)"

lemma nul_repr: "c \<noteq> NUL \<Longrightarrow> NUL \<notin> set (repr_char c)"
proof -
  have "NUL \<notin> set (octal3 c)" using octal3_digits(1) [of c] by (auto simp: list_all_iff isdigit_def)
  then show "c \<noteq> NUL \<Longrightarrow> ?thesis" by (auto simp: repr_char_def)
qed

lemma nul_attr: "list_all attr_ok a \<Longrightarrow> NUL \<notin> set (attr_part a)"
proof -
  have "NUL \<notin> set (attr_text a)" if "list_all attr_ok a"
    using that
  proof (induction a rule: attr_text.induct)
    case (2 k v as)
    moreover have "\<not> isalnum NUL" by (simp add: isalnum_def isalpha_def isdigit_def)
    ultimately have "NUL \<notin> set k" by (auto simp: attr_ok_def list_all_iff)
    moreover obtain u where "v = Some u" "NUL \<notin> set u" using 2 by (auto simp: attr_ok_def split: option.splits)
    moreover from this have "NUL \<notin> set (repr_char c)" if "c \<in> set u" for c using that nul_repr [of c] by metis
    ultimately show ?case using 2 by auto
  qed simp
  then show "list_all attr_ok a \<Longrightarrow> ?thesis" by (simp add: attr_part_def)
qed

lemma nul_dump: "\<forall>c \<in> set sts. writable c \<and> nul_free c \<Longrightarrow> NUL \<notin> set (plain_dump sts)"
proof (induction sts rule: plain_dump.induct)
  case (2 name v l a cs sts)
  obtain n where n: "name = Some n" "valid_name n" using "2.prems" by (auto split: option.splits)
  have "\<not> name_char NUL" by (simp add: name_char_def isalnum_def isalpha_def isdigit_def)
  then have nn: "NUL \<notin> set n" using n(2) by (auto simp: valid_name_def)
  have "NUL \<notin> set (case v of None \<Rightarrow> [] | Some s \<Rightarrow> n @ attr_part a @ value_part l s)"
    using "2.prems" nn nul_attr [of a] by (auto simp: value_part_def split: option.splits)
  moreover have "cs \<noteq> [] \<Longrightarrow> NUL \<notin> set (plain_dump cs)" using "2.IH"(1) "2.prems" by auto
  moreover have "NUL \<notin> set (plain_dump sts)" using "2.IH"(2) "2.prems" by auto
  ultimately show ?case using n(1) nn by (auto split: option.splits)
qed simp

definition sendable :: "hdf \<Rightarrow> bool" where
  "sendable t \<longleftrightarrow> (\<exists>cs. t = HDF None None False [] cs \<and> distinct (map hname cs) \<and>
     (\<forall>c \<in> set cs. writable c \<and> nul_free c) \<and> length (plain_dump cs) < 65024)"

text \<open>Packing a sendable tree, and unpacking it out of any message that contains it.\<close>

lemma pack_hdf_writes:
  assumes "hdf_write_string rnd t = Some p" "length buf = MAX_PACKET_LEN"
  shows "\<exists>n b. pack_hdf rnd t buf MAX_PACKET_LEN = Some (n, b) \<and> 0 < n \<and> n \<le> length b"
proof -
  let ?vs = "take (MAX_PACKET_LEN - 512) (p @ [NUL])"
  let ?rest = "drop (13 + length ''root'' + length ?vs) buf"
  have len: "length ?vs \<le> 65024" by simp
  have pk: "pack_data_str ''root'' (Some p) buf MAX_PACKET_LEN = Some (length (packed ''root'' ?vs), packed ''root'' ?vs @ NUL # ?rest)"
    by (rule pack_data_str_writes) (use len assms(2) in auto)
  have "length (be32 DATA_TYPE_EOF) \<le> length (NUL # ?rest)" using len assms(2) by simp
  from wr_after [OF this, of "packed ''root'' ?vs"] pk assms(1) show ?thesis by (auto simp: pack_hdf_def)
qed

text \<open>The packet of a tree.\<close>

definition packet_of :: "hdf \<Rightarrow> bytes" where
  "packet_of t = packed ''root'' (plain_dump (hchild t) @ [NUL]) @ be32 DATA_TYPE_EOF"

lemma sendableE:
  assumes "sendable t"
  obtains cs where "t = HDF None None False [] cs" "distinct (map hname cs)" "\<forall>c \<in> set cs. writable c" "\<forall>c \<in> set cs. nul_free c"
    "length (plain_dump cs) < 65024"
  using assms by (auto simp: sendable_def)

lemma length_packet_of: "sendable t \<Longrightarrow> length (packet_of t) \<le> 65044"
  by (erule sendableE) (simp add: packet_of_def length_packed)

lemma pack_sendable:
  assumes "sendable t" "65045 \<le> length buf"
  shows "\<exists>rest. pack_hdf rnd t buf MAX_PACKET_LEN = Some (length (packet_of t), packet_of t @ rest) \<and> length (packet_of t @ rest) = length buf"
proof -
  obtain cs where t: "t = HDF None None False [] cs" "distinct (map hname cs)" "\<forall>c \<in> set cs. writable c" "length (plain_dump cs) < 65024"
    using assms(1) by (rule sendableE)
  let ?p = "plain_dump cs"
  let ?tx = "?p @ [NUL]"
  have w: "hdf_write_string rnd t = Some ?p"
    using write_plain [OF t(3)] t(1) by simp
  have tx: "?tx = take (MAX_PACKET_LEN - 512) (?p @ [NUL])" using t(4) by simp
  have "pack_data_str ''root'' (Some ?p) buf MAX_PACKET_LEN =
      Some (length (packed ''root'' ?tx), packed ''root'' ?tx @ NUL # drop (13 + length ''root'' + length ?tx) buf)"
    using t(4) assms(2) by (intro pack_data_str_writes [OF refl _ _ tx]) simp_all
  moreover have "wr (packed ''root'' ?tx @ NUL # drop (17 + length ?tx) buf) (16 + length ?tx) (be32 DATA_TYPE_EOF)
      = Some (packed ''root'' ?tx @ be32 DATA_TYPE_EOF @ drop 4 (NUL # drop (17 + length ?tx) buf))"
    using wr_after' [of "16 + length ?tx" "packed ''root'' ?tx" "be32 DATA_TYPE_EOF" "NUL # drop (17 + length ?tx) buf"]
      t(4) assms(2) by (simp add: length_packed)
  ultimately have "pack_hdf rnd t buf MAX_PACKET_LEN =
      Some (length (packet_of t), packet_of t @ drop 4 (NUL # drop (17 + length ?tx) buf))"
    using w t(1) by (simp add: pack_hdf_def packet_of_def length_packed)
  moreover have "length (packet_of t @ drop 4 (NUL # drop (17 + length ?tx) buf)) = length buf"
    using t(1,4) assms(2) by (simp add: packet_of_def length_packed)
  ultimately show ?thesis by blast
qed

lemma unpack_sendable:
  assumes "sendable t"
  shows "unpack_hdf (pre @ packet_of t @ post) (length pre) len = Some (of_nat (length (packet_of t)), t)"
proof -
  obtain cs where t: "t = HDF None None False [] cs" "distinct (map hname cs)" "\<forall>c \<in> set cs. writable c" "\<forall>c \<in> set cs. nul_free c"
    "length (plain_dump cs) < 65024" using assms by (rule sendableE)
  let ?p = "plain_dump cs"
  let ?tx = "?p @ [NUL]"
  have r: "hdf_read_string hdf_init [] ?p = Some (None, t)"
    using read_plain [OF t(3,2)] t(1) by simp
  have nul: "NUL \<notin> set ?p" using nul_dump t(3,4) by blast
  let ?h = "pre @ be32 DATA_TYPE_STRING @ be32 (of_nat (length ''root'')) @ ''root'' @ be32 (of_nat (length ?tx))"
  have "rdcstr (?h @ ?p @ NUL # be32 DATA_TYPE_EOF @ post) (length pre + 16) = Some ?p"
    by (rule rdcstr_at [OF _ nul]) simp
  then have "rdcstr (pre @ packet_of t @ post) (length pre + 16) = Some ?p" by (simp add: packet_of_def packed_def t(1))
  moreover have "unpack_data_str (pre @ packet_of t @ post) (length pre) len =
     Some (of_nat (length (packet_of t)), Some (length pre + 16))"
    using unpack_packed [of "''root''" ?tx "length pre" pre "be32 DATA_TYPE_EOF @ post" len] t(1,5) by (simp add: packet_of_def length_packed)
  ultimately show ?thesis using r by (simp add: unpack_hdf_def)
qed

section \<open>Properties\<close>

text \<open>
  C29. Packet round trip: a tree that survives as text and whose text leaves room for the header is
  packed into a packet buffer, and unpacking the packed bytes, wherever they are in a message,
  yields the tree and the packed size.
\<close>

theorem packet_roundtrip:
  assumes "sendable t" "length buf = MAX_PACKET_LEN"
  shows "\<exists>n b. pack_hdf rnd t buf MAX_PACKET_LEN = Some (n, b) \<and> n \<le> MAX_PACKET_LEN \<and>
     (\<forall>pre len. unpack_hdf (pre @ take n b) (length pre) len = Some (of_nat n, t))"
proof -
  obtain rest where p: "pack_hdf rnd t buf MAX_PACKET_LEN = Some (length (packet_of t), packet_of t @ rest)"
    using pack_sendable [OF assms(1), of buf rnd] assms(2) by auto
  have "unpack_hdf (pre @ take (length (packet_of t)) (packet_of t @ rest)) (length pre) len = Some (of_nat (length (packet_of t)), t)" for pre len
    using unpack_sendable [OF assms(1), of pre "[]" len] by simp
  then show ?thesis using p length_packet_of [OF assms(1)] by (intro exI conjI allI) (assumption | simp)+
qed

definition demo_packet :: hdf where
  "demo_packet = HDF None None False [] [HDF (Some ''uid'') (Some ''7'') False [] []]"

lemma demo_packet_sendable: "sendable demo_packet"
  by (simp add: sendable_def demo_packet_def valid_name_def name_char_def isalnum_def isalpha_def isdigit_def value_ok_def
      trimmed_def isspace_def value_part_def attr_part_def)

theorem packet_roundtrip_witness:
  "\<exists>n b. pack_hdf id demo_packet (replicate 65536 NUL) MAX_PACKET_LEN = Some (n, b) \<and>
     unpack_hdf (''head'' @ take n b) 4 0 = Some (of_nat n, demo_packet)"
proof -
  from packet_roundtrip [OF demo_packet_sendable, of "replicate 65536 NUL" id] obtain n b where
    "pack_hdf id demo_packet (replicate 65536 NUL) MAX_PACKET_LEN = Some (n, b)"
    "\<forall>pre len. unpack_hdf (pre @ take n b) (length pre) len = Some (of_nat n, demo_packet)" by auto
  moreover from this(2) have "unpack_hdf (''head'' @ take n b) (length ''head'') 0 = Some (of_nat n, demo_packet)" by blast
  moreover have "length ''head'' = 4" by simp
  ultimately show ?thesis by metis
qed

text \<open>
  C30. Packing stays inside its buffer: whatever the value, \<open>pack_data_str\<close> into a buffer of the stated
  length writes no byte outside it as long as the key has at most 499 bytes; it reports no more than
  it wrote, and what it wrote is the header and the value cut to the room left.
\<close>

theorem pack_stays_inside:
  assumes "length key \<le> 499" "512 \<le> len" "len < 2 ^ 64" "length buf = len"
  shows "\<exists>n b. pack_data_str key (Some v) buf len = Some (n, b) \<and> length b = len \<and> n < len \<and>
     take n b = packed key (take (len - 512) (v @ [NUL]))"
proof -
  let ?vs = "take (len - 512) (v @ [NUL])"
  have fit: "13 + length key + length ?vs \<le> length buf" using assms by simp
  from pack_data_str_writes [OF refl assms(2,3) refl fit] assms(4) fit show ?thesis
    by (intro exI [of _ "length (packed key ?vs)"] exI [of _ "packed key ?vs @ NUL # drop (13 + length key + length ?vs) buf"] conjI)
      (simp_all add: length_packed)
qed

theorem pack_stays_inside_witness:
  "\<exists>n b. pack_data_str ''root'' (Some (replicate 70000 (CHR ''x''))) (replicate 65536 NUL) 65536 = Some (n, b) \<and> n < 65536"
  using pack_stays_inside [of "''root''" 65536 "replicate 65536 NUL" "replicate 70000 (CHR ''x'')"] by auto

end
