(* ===== verification/Neo_Misc.thy ===== *)
theory Neo_Misc
  imports Cstring
begin

text \<open>
  The byte-stream and checksum helpers of clearsilver/util/neo_misc.c: little-endian integers in
  buffers, counted strings, and the table-driven CRC-32 that hashes every string key of the
  program's hash tables. The CRC table is the source's, entry by entry.
\<close>

section \<open>Little-endian streams\<close>

definition byte_of :: "'a::len word \<Rightarrow> byte" where
  "byte_of w = char_of (unat (w AND 0xFF))"

definition word_of_byte :: "byte \<Rightarrow> 'a::len word" where
  "word_of_byte c = of_nat (of_char c)"

text \<open>The functions write to \<open>dest\<close> and return the address after it: here the offset.\<close>

definition ne_stream4 :: "bytes \<Rightarrow> nat \<Rightarrow> u32 \<Rightarrow> (bytes \<times> nat) option" where
  "ne_stream4 m dest num = do {
     m' \<leftarrow> wr m dest [byte_of num, byte_of (drop_bit 8 num), byte_of (drop_bit 16 num), byte_of (drop_bit 24 num)];
     Some (m', dest + 4) }"

definition ne_stream2 :: "bytes \<Rightarrow> nat \<Rightarrow> u16 \<Rightarrow> (bytes \<times> nat) option" where
  "ne_stream2 m dest num = do {
     m' \<leftarrow> wr m dest [byte_of num, byte_of (drop_bit 8 num)];
     Some (m', dest + 2) }"

definition ne_unstream4 :: "bytes \<Rightarrow> nat \<Rightarrow> (u32 \<times> nat) option" where
  "ne_unstream4 m src = do {
     bs \<leftarrow> rdn m src 4;
     Some (word_of_byte (bs ! 0) OR push_bit 8 (word_of_byte (bs ! 1)) OR push_bit 16 (word_of_byte (bs ! 2))
             OR push_bit 24 (word_of_byte (bs ! 3)), src + 4) }"

definition ne_unstream2 :: "bytes \<Rightarrow> nat \<Rightarrow> (u16 \<times> nat) option" where
  "ne_unstream2 m src = do {
     bs \<leftarrow> rdn m src 2;
     Some (word_of_byte (bs ! 0) OR push_bit 8 (word_of_byte (bs ! 1)), src + 2) }"

definition ne_stream_str :: "bytes \<Rightarrow> nat \<Rightarrow> bytes \<Rightarrow> nat \<Rightarrow> (bytes \<times> nat) option" where
  "ne_stream_str m dest s l = (let l = (if l > 255 then 255 else l) in do {
     bs \<leftarrow> rdn s 0 l;
     m1 \<leftarrow> wr m dest [char_of l];
     m2 \<leftarrow> wr m1 (dest + 1) bs;
     Some (m2, dest + l + 1) })"

definition ne_unstream_str :: "bytes \<Rightarrow> nat \<Rightarrow> bytes \<Rightarrow> nat \<Rightarrow> (bytes \<times> nat) option" where
  "ne_unstream_str s l m src = do {
     b \<leftarrow> rdn m src 1;
     let sl = (if of_char (b ! 0) > l then l else of_char (b ! 0));
     bs \<leftarrow> rdn m (src + 1) sl;
     s1 \<leftarrow> wr s 0 bs;
     if l = 0 then None else do {
       s2 \<leftarrow> wr s1 (l - 1) [NUL];
       Some (s2, src + sl + 1) } }"

section \<open>CRC-32\<close>

definition CRCTable :: "u32 list" where
  "CRCTable = [0x00000000, 0x77073096, 0xEE0E612C, 0x990951BA, 0x076DC419, 0x706AF48F,
     0xE963A535, 0x9E6495A3, 0x0EDB8832, 0x79DCB8A4, 0xE0D5E91E, 0x97D2D988,
     0x09B64C2B, 0x7EB17CBD, 0xE7B82D07, 0x90BF1D91, 0x1DB71064, 0x6AB020F2,
     0xF3B97148, 0x84BE41DE, 0x1ADAD47D, 0x6DDDE4EB, 0xF4D4B551, 0x83D385C7,
     0x136C9856, 0x646BA8C0, 0xFD62F97A, 0x8A65C9EC, 0x14015C4F, 0x63066CD9,
     0xFA0F3D63, 0x8D080DF5, 0x3B6E20C8, 0x4C69105E, 0xD56041E4, 0xA2677172,
     0x3C03E4D1, 0x4B04D447, 0xD20D85FD, 0xA50AB56B, 0x35B5A8FA, 0x42B2986C,
     0xDBBBC9D6, 0xACBCF940, 0x32D86CE3, 0x45DF5C75, 0xDCD60DCF, 0xABD13D59,
     0x26D930AC, 0x51DE003A, 0xC8D75180, 0xBFD06116, 0x21B4F4B5, 0x56B3C423,
     0xCFBA9599, 0xB8BDA50F, 0x2802B89E, 0x5F058808, 0xC60CD9B2, 0xB10BE924,
     0x2F6F7C87, 0x58684C11, 0xC1611DAB, 0xB6662D3D, 0x76DC4190, 0x01DB7106,
     0x98D220BC, 0xEFD5102A, 0x71B18589, 0x06B6B51F, 0x9FBFE4A5, 0xE8B8D433,
     0x7807C9A2, 0x0F00F934, 0x9609A88E, 0xE10E9818, 0x7F6A0DBB, 0x086D3D2D,
     0x91646C97, 0xE6635C01, 0x6B6B51F4, 0x1C6C6162, 0x856530D8, 0xF262004E,
     0x6C0695ED, 0x1B01A57B, 0x8208F4C1, 0xF50FC457, 0x65B0D9C6, 0x12B7E950,
     0x8BBEB8EA, 0xFCB9887C, 0x62DD1DDF, 0x15DA2D49, 0x8CD37CF3, 0xFBD44C65,
     0x4DB26158, 0x3AB551CE, 0xA3BC0074, 0xD4BB30E2, 0x4ADFA541, 0x3DD895D7,
     0xA4D1C46D, 0xD3D6F4FB, 0x4369E96A, 0x346ED9FC, 0xAD678846, 0xDA60B8D0,
     0x44042D73, 0x33031DE5, 0xAA0A4C5F, 0xDD0D7CC9, 0x5005713C, 0x270241AA,
     0xBE0B1010, 0xC90C2086, 0x5768B525, 0x206F85B3, 0xB966D409, 0xCE61E49F,
     0x5EDEF90E, 0x29D9C998, 0xB0D09822, 0xC7D7A8B4, 0x59B33D17, 0x2EB40D81,
     0xB7BD5C3B, 0xC0BA6CAD, 0xEDB88320, 0x9ABFB3B6, 0x03B6E20C, 0x74B1D29A,
     0xEAD54739, 0x9DD277AF, 0x04DB2615, 0x73DC1683, 0xE3630B12, 0x94643B84,
     0x0D6D6A3E, 0x7A6A5AA8, 0xE40ECF0B, 0x9309FF9D, 0x0A00AE27, 0x7D079EB1,
     0xF00F9344, 0x8708A3D2, 0x1E01F268, 0x6906C2FE, 0xF762575D, 0x806567CB,
     0x196C3671, 0x6E6B06E7, 0xFED41B76, 0x89D32BE0, 0x10DA7A5A, 0x67DD4ACC,
     0xF9B9DF6F, 0x8EBEEFF9, 0x17B7BE43, 0x60B08ED5, 0xD6D6A3E8, 0xA1D1937E,
     0x38D8C2C4, 0x4FDFF252, 0xD1BB67F1, 0xA6BC5767, 0x3FB506DD, 0x48B2364B,
     0xD80D2BDA, 0xAF0A1B4C, 0x36034AF6, 0x41047A60, 0xDF60EFC3, 0xA867DF55,
     0x316E8EEF, 0x4669BE79, 0xCB61B38C, 0xBC66831A, 0x256FD2A0, 0x5268E236,
     0xCC0C7795, 0xBB0B4703, 0x220216B9, 0x5505262F, 0xC5BA3BBE, 0xB2BD0B28,
     0x2BB45A92, 0x5CB36A04, 0xC2D7FFA7, 0xB5D0CF31, 0x2CD99E8B, 0x5BDEAE1D,
     0x9B64C2B0, 0xEC63F226, 0x756AA39C, 0x026D930A, 0x9C0906A9, 0xEB0E363F,
     0x72076785, 0x05005713, 0x95BF4A82, 0xE2B87A14, 0x7BB12BAE, 0x0CB61B38,
     0x92D28E9B, 0xE5D5BE0D, 0x7CDCEFB7, 0x0BDBDF21, 0x86D3D2D4, 0xF1D4E242,
     0x68DDB3F8, 0x1FDA836E, 0x81BE16CD, 0xF6B9265B, 0x6FB077E1, 0x18B74777,
     0x88085AE6, 0xFF0F6A70, 0x66063BCA, 0x11010B5C, 0x8F659EFF, 0xF862AE69,
     0x616BFFD3, 0x166CCF45, 0xA00AE278, 0xD70DD2EE, 0x4E048354, 0x3903B3C2,
     0xA7672661, 0xD06016F7, 0x4969474D, 0x3E6E77DB, 0xAED16A4A, 0xD9D65ADC,
     0x40DF0B66, 0x37D83BF0, 0xA9BCAE53, 0xDEBB9EC5, 0x47B2CF7F, 0x30B5FFE9,
     0xBDBDF21C, 0xCABAC28A, 0x53B39330, 0x24B4A3A6, 0xBAD03605, 0xCDD70693,
     0x54DE5729, 0x23D967BF, 0xB3667A2E, 0xC4614AB8, 0x5D681B02, 0x2A6F2B94,
     0xB40BBE37, 0xC30C8EA1, 0x5A05DF1B, 0x2D02EF8D]"

definition crc_step :: "u32 \<Rightarrow> byte \<Rightarrow> u32" where
  "crc_step crc c = ((drop_bit 8 crc) AND 0xFFFFFF) XOR CRCTable ! unat ((crc XOR word_of_byte c) AND 0xFF)"

definition ne_crc :: "bytes \<Rightarrow> u32" where
  "ne_crc data = NOT (foldl crc_step (- 1) data)"

text \<open>
  The reference: the CRC of the polynomial \<open>0xEDB88320\<close> (reflected), one bit at a time.
\<close>

definition crc_bit :: "u32 \<Rightarrow> u32" where
  "crc_bit c = (if bit c 0 then drop_bit 1 c XOR 0xEDB88320 else drop_bit 1 c)"

fun crc_bits :: "nat \<Rightarrow> u32 \<Rightarrow> u32" where
  "crc_bits 0 c = c"
| "crc_bits (Suc n) c = crc_bits n (crc_bit c)"

definition crc32 :: "bytes \<Rightarrow> u32" where
  "crc32 data = NOT (foldl (\<lambda>crc c. crc_bits 8 (crc XOR word_of_byte c)) (- 1) data)"

section \<open>The table is the polynomial's\<close>

lemma crc_bit_xor: "crc_bit (a XOR b) = crc_bit a XOR crc_bit b"
  by (auto simp: crc_bit_def bit_xor_iff ac_simps)

lemma crc_bits_xor: "crc_bits n (a XOR b) = crc_bits n a XOR crc_bits n b"
  by (induction n arbitrary: a b) (simp_all add: crc_bit_xor)

text \<open>
  By linearity the 256 entries are sums of the eight entries at powers of two: each power doubles
  the table.
\<close>

fun crc_rows :: "u32 list \<Rightarrow> u32 list" where
  "crc_rows [] = [0]"
| "crc_rows (c # cs) = (let t = crc_rows cs in t @ map (\<lambda>x. x XOR c) t)"

fun crc_powers :: "nat \<Rightarrow> u32 list" where
  "crc_powers 0 = []"
| "crc_powers (Suc k) = crc_bits 8 (push_bit k 1) # crc_powers k"

lemma of_nat_high_bit: "i < 2 ^ k \<Longrightarrow> of_nat (2 ^ k + i) = (of_nat i XOR push_bit k 1 :: u32)"
proof -
  assume "i < 2 ^ k"
  then have "\<not> bit i k" by (simp add: bit_iff_odd)
  then have "\<not> bit (of_nat i :: u32) k" by (simp add: bit_of_nat_iff)
  then have "of_nat i AND (2 ^ k :: u32) = 0" by (simp add: and_exp_eq_0_iff_not_bit)
  from disjunctive_add_eq_xor [OF this] show ?thesis by (simp add: push_bit_eq_mult add.commute)
qed

lemma upt_double: "[0..<2 * n] = [0..<n] @ map ((+) n) [0..<n]"
proof -
  have "[n..<n + n] = map ((+) n) [0..<n]" by (rule nth_equalityI) auto
  then show ?thesis using upt_add_eq_append [of 0 n n] by (simp add: mult_2)
qed

lemma crc_bits_0: "crc_bits n 0 = 0"
  by (induction n) (simp_all add: crc_bit_def)

lemma crc_rows_correct: "crc_rows (crc_powers k) = map (\<lambda>i. crc_bits 8 (of_nat i)) [0..<2 ^ k]"
proof (induction k)
  case 0
  then show ?case by (simp only: crc_powers.simps crc_rows.simps power_0) (simp add: crc_bits_0 upt_rec)
next
  case (Suc k)
  have "map (\<lambda>i. crc_bits 8 (of_nat i)) (map ((+) (2 ^ k)) [0..<2 ^ k])
      = map (\<lambda>x. x XOR crc_bits 8 (push_bit k 1)) (map (\<lambda>i. crc_bits 8 (of_nat i)) [0..<2 ^ k])"
    by (auto simp: of_nat_high_bit crc_bits_xor simp del: of_nat_add crc_bits.simps)
  then show ?case
    using Suc upt_double [of "2 ^ k"] by (simp only: crc_powers.simps crc_rows.simps Let_def power_Suc map_append)
qed

lemma crc_powers_8:
  "crc_powers 8 = [0xEDB88320, 0x76DC4190, 0x3B6E20C8, 0x1DB71064, 0x0EDB8832, 0x076DC419, 0xEE0E612C, 0x77073096]"
  by code_simp

lemma CRCTable_rows: "CRCTable = crc_rows (crc_powers 8)"
  unfolding crc_powers_8 by (simp add: CRCTable_def Let_def)

lemma CRCTable_nth: "i < 256 \<Longrightarrow> CRCTable ! i = crc_bits 8 (of_nat i)"
  unfolding CRCTable_rows crc_rows_correct by (simp del: crc_bits.simps)

lemma crc_bits_shift: "take_bit n c = 0 \<Longrightarrow> crc_bits n c = drop_bit n c"
proof (induction n arbitrary: c)
  case 0
  then show ?case by simp
next
  case (Suc n)
  have b: "\<not> bit c j" if "j < Suc n" for j
    using that Suc.prems by (metis bit_0_eq bit_take_bit_iff bot_apply bot_bool_def)
  have "take_bit n (drop_bit 1 c) = 0" using b by (intro bit_eqI) (auto simp: bit_simps)
  then have "crc_bits n (drop_bit 1 c) = drop_bit n (drop_bit 1 c)" by (rule Suc.IH)
  then show ?case using b [of 0] by (simp add: crc_bit_def drop_bit_drop_bit)
qed

lemma crc_bits_8: "crc_bits 8 c = drop_bit 8 c XOR CRCTable ! unat (c AND 0xFF)"
proof -
  have m: "(0xFF :: u32) = mask 8" by (simp add: mask_numeral)
  have c: "c = (c AND NOT (mask 8)) XOR (c AND mask 8)"
    by (intro bit_eqI) (auto simp: bit_simps)
  have "take_bit 8 (c AND NOT (mask 8)) = 0" "drop_bit 8 (c AND NOT (mask 8)) = drop_bit 8 c"
    by (intro bit_eqI; auto simp: bit_simps dest: bit_imp_le_length)+
  then have 1: "crc_bits 8 (c AND NOT (mask 8)) = drop_bit 8 c" by (simp only: crc_bits_shift)
  have "c AND mask 8 < 256" using word_and_le1 [of c "mask 8"]
    by (simp add: mask_numeral word_le_nat_alt word_less_nat_alt)
  then have "unat (c AND mask 8) < 256" by (simp add: word_less_nat_alt)
  then have 2: "crc_bits 8 (c AND mask 8) = CRCTable ! unat (c AND mask 8)"
    by (simp add: CRCTable_nth del: crc_bits.simps)
  show ?thesis unfolding m by (subst c) (simp only: crc_bits_xor 1 2)
qed

lemma crc_step_bits: "crc_step crc c = crc_bits 8 (crc XOR word_of_byte c)"
proof -
  have "drop_bit 8 (word_of_byte c :: u32) = 0"
  proof -
    have c: "of_char c < (256 :: nat)" by (rule nat_of_char_less_256)
    have "unat (word_of_byte c :: u32) \<le> of_char c" by (simp add: word_of_byte_def unat_of_nat)
    then have "unat (word_of_byte c :: u32) < 256" using c by (rule le_less_trans)
    then have "drop_bit 8 (unat (word_of_byte c :: u32)) = 0" by (simp add: drop_bit_eq_div)
    then show ?thesis by (simp add: word_unat_eq_iff unat_drop_bit_eq)
  qed
  moreover have "drop_bit 8 crc AND 0xFFFFFF = drop_bit 8 crc"
  proof -
    have m: "(0xFFFFFF :: u32) = mask 24" by (simp add: mask_numeral)
    show ?thesis unfolding m by (rule bit_eqI) (auto simp: bit_simps dest: bit_imp_le_length)
  qed
  ultimately show ?thesis by (simp add: crc_step_def crc_bits_8 drop_bit_xor)
qed

section \<open>Streams\<close>

lemma word_of_byte_of: "word_of_byte (byte_of (w :: 'a::len word)) = w AND 0xFF"
proof -
  have "unat (w AND 0xFF) \<le> unat (0xFF :: 'a word)" using word_and_le1 word_le_nat_alt by blast
  also have "\<dots> \<le> 255" using take_bit_nat_less_eq_self [of "LENGTH('a)" 255] by (simp only: unsigned_numeral of_nat_id)
  finally show ?thesis by (simp add: word_of_byte_def byte_of_def)
qed

lemma glue4:
  "(w AND 0xFF) OR push_bit 8 (drop_bit 8 w AND 0xFF) OR push_bit 16 (drop_bit 16 w AND 0xFF)
     OR push_bit 24 (drop_bit 24 w AND 0xFF) = (w :: u32)"
proof -
  have m: "(0xFF :: u32) = mask 8" by (simp add: mask_numeral)
  show ?thesis
    unfolding m
  proof (rule bit_eqI)
    fix n
    assume "possible_bit TYPE(u32) n"
    then consider "n < 8" | "8 \<le> n" "n < 16" | "16 \<le> n" "n < 24" | "24 \<le> n" "n < 32" by fastforce
    then show "bit ((w AND mask 8) OR push_bit 8 (drop_bit 8 w AND mask 8) OR push_bit 16 (drop_bit 16 w AND mask 8)
      OR push_bit 24 (drop_bit 24 w AND mask 8)) n = bit w n"
      by cases (auto simp: bit_simps)
  qed
qed

lemma glue2: "(w AND 0xFF) OR push_bit 8 (drop_bit 8 w AND 0xFF) = (w :: u16)"
proof -
  have m: "(0xFF :: u16) = mask 8" by (simp add: mask_numeral)
  show ?thesis unfolding m by (rule bit_eqI) (auto simp: bit_simps not_le)
qed

lemma wr_rdn: "wr m off bs = Some m' \<Longrightarrow> n = length bs \<Longrightarrow> rdn m' off n = Some bs"
  by (auto simp: wr_def rdn_def split: if_splits)

lemma wr_rdn4: "wr m off [a, b, c, d] = Some m' \<Longrightarrow> rdn m' off 4 = Some [a, b, c, d]"
  by (rule wr_rdn) auto

lemma wr_rdn2: "wr m off [a, b] = Some m' \<Longrightarrow> rdn m' off 2 = Some [a, b]"
  by (rule wr_rdn) auto

section \<open>Properties\<close>

text \<open>
  C39. The table-driven \<open>ne_crc\<close>, with its literal table of 256 entries, computes the CRC-32 of
  every byte string: it equals the bit-at-a-time division by the polynomial \<open>0xEDB88320\<close>.
\<close>

theorem ne_crc_is_crc32: "ne_crc data = crc32 data"
  by (simp add: ne_crc_def crc32_def crc_step_bits [abs_def] del: crc_bits.simps)

text \<open>
  The little-endian stream writers are inverted by the readers: a 32-bit or 16-bit number
  written at any offset with room for it is read back, and both move on by its width.
\<close>

theorem stream_roundtrip:
  "(ne_stream4 m dest num = Some (m', dest') \<longrightarrow> ne_unstream4 m' dest = Some (num, dest')) \<and>
   (ne_stream2 m dest num2 = Some (m2', dest2') \<longrightarrow> ne_unstream2 m2' dest = Some (num2, dest2'))"
proof (intro conjI impI)
  assume "ne_stream4 m dest num = Some (m', dest')"
  then have "rdn m' dest 4 = Some [byte_of num, byte_of (drop_bit 8 num), byte_of (drop_bit 16 num),
      byte_of (drop_bit 24 num)]" and "dest' = dest + 4"
    by (auto simp: ne_stream4_def dest: wr_rdn4)
  then show "ne_unstream4 m' dest = Some (num, dest')"
    using glue4 [of num] by (simp add: ne_unstream4_def word_of_byte_of numeral_3_eq_3)
next
  assume "ne_stream2 m dest num2 = Some (m2', dest2')"
  then have "rdn m2' dest 2 = Some [byte_of num2, byte_of (drop_bit 8 num2)]" and "dest2' = dest + 2"
    by (auto simp: ne_stream2_def dest: wr_rdn2)
  then show "ne_unstream2 m2' dest = Some (num2, dest2')"
    using glue2 [of num2] by (simp add: ne_unstream2_def word_of_byte_of)
qed

theorem stream_roundtrip_witness:
  "ne_unstream4 [CHR 0x41, CHR 0x44, CHR 0x33, CHR 0x22, CHR 0x11, CHR 0x42] 1 = Some (0x11223344, 5)"
proof -
  have "ne_stream4 ''ABCDEB'' 1 0x11223344 = Some ([CHR 0x41, CHR 0x44, CHR 0x33, CHR 0x22, CHR 0x11, CHR 0x42], 5)"
    by code_simp
  then show ?thesis using stream_roundtrip by blast
qed

end
