(* ===== verification/Neo_Hash.thy ===== *)
theory Neo_Hash
  imports Neo_Err Neo_Misc
begin

text \<open>
  The hash table of clearsilver/util/neo_hash.c, which holds the server's event entries, the
  users of a plugin, the client's modules and callbacks, and the children of large HDF nodes. The
  array of buckets is a list of chains, a chain the list of its nodes; the table has a power of
  two of buckets, doubled when \<open>num\<close> reaches it. Sizes, counters and hash values are 32-bit
  words. The hash and comparison functions are fields of the table, as in the source.
\<close>

section \<open>Data and operations\<close>

record ('k, 'v) ne_hashnode =
  n_key :: 'k
  n_value :: 'v
  n_hashv :: u32

record ('k, 'v) ne_hash =
  h_size :: u32
  h_num :: u32
  h_nodes :: "('k, 'v) ne_hashnode list list"
  h_hash :: "'k \<Rightarrow> u32"
  h_comp :: "('k \<Rightarrow> 'k \<Rightarrow> bool) option"

definition ne_hash_init :: "bool \<Rightarrow> bool \<Rightarrow> ('k \<Rightarrow> u32) \<Rightarrow> ('k \<Rightarrow> 'k \<Rightarrow> bool) option \<Rightarrow> int + ('k, 'v) ne_hash" where
  "ne_hash_init hash_ok nodes_ok hash_func comp_func =
     (if \<not> hash_ok then Inl NERR_NOMEM
      else if \<not> nodes_ok then Inl NERR_NOMEM
      else Inr \<lparr>h_size = 256, h_num = 0, h_nodes = replicate 256 [], h_hash = hash_func, h_comp = comp_func\<rparr>)"

definition key_eq :: "('k, 'v) ne_hash \<Rightarrow> 'k \<Rightarrow> 'k \<Rightarrow> bool" where
  "key_eq h a b = (case h_comp h of None \<Rightarrow> a = b | Some f \<Rightarrow> f a b)"

definition bucket_of :: "('k, 'v) ne_hash \<Rightarrow> u32 \<Rightarrow> nat" where
  "bucket_of h hashv = unat (hashv AND (h_size h - 1))"

text \<open>
  \<open>_hash_lookup_node\<close> returns the address of the link that points to the node, or of the chain's
  last link: here the bucket and the number of nodes before it.
\<close>

definition hash_lookup_node :: "('k, 'v) ne_hash \<Rightarrow> 'k \<Rightarrow> (u32 \<times> nat \<times> nat) option" where
  "hash_lookup_node h key =
     (let hashv = h_hash h key; b = bucket_of h hashv in
      if b < length (h_nodes h)
      then Some (hashv, b, length (takeWhile (\<lambda>n. \<not> key_eq h (n_key n) key) (h_nodes h ! b)))
      else None)"

text \<open>
  One chain of \<open>_hash_resize\<close>: nodes whose hash selects the upper half move to the front of the
  new bucket, the others stay.
\<close>

fun resize_chain :: "u32 \<Rightarrow> nat \<Rightarrow> ('k, 'v) ne_hashnode list \<Rightarrow> ('k, 'v) ne_hashnode list \<Rightarrow>
    ('k, 'v) ne_hashnode list \<Rightarrow> ('k, 'v) ne_hashnode list \<times> ('k, 'v) ne_hashnode list" where
  "resize_chain hash_mask x [] kept moved = (kept, moved)"
| "resize_chain hash_mask x (entry # es) kept moved =
     (if unat (n_hashv entry AND hash_mask) \<noteq> x
      then resize_chain hash_mask x es kept (entry # moved)
      else resize_chain hash_mask x es (kept @ [entry]) moved)"

definition resize_bucket :: "u32 \<Rightarrow> nat \<Rightarrow> ('k, 'v) ne_hashnode list list \<Rightarrow> nat \<Rightarrow> ('k, 'v) ne_hashnode list list" where
  "resize_bucket hash_mask orig_size nodes x =
     (let (kept, moved) = resize_chain hash_mask x (nodes ! x) [] (nodes ! (x + orig_size))
      in nodes[x := kept, x + orig_size := moved])"

definition hash_resize :: "bool \<Rightarrow> ('k, 'v) ne_hash \<Rightarrow> (int + unit) \<times> ('k, 'v) ne_hash" where
  "hash_resize ok h =
     (if h_size h > h_num h then (Inr (), h)
      else if \<not> ok then (Inl NERR_NOMEM, h)
      else let orig_size = unat (h_size h); sz = h_size h * 2; nodes = h_nodes h @ replicate orig_size []
        in (Inr (), h\<lparr>h_size := sz, h_nodes := foldl (resize_bucket (sz - 1) orig_size) nodes [0..<orig_size]\<rparr>))"

text \<open>
  \<open>ne_hash_insert\<close> counts a replacement like an insertion, and tests the address of the link
  instead of what \<open>malloc\<close> returned: a failed allocation is a NULL dereference.
\<close>

definition ne_hash_insert :: "bool \<Rightarrow> bool \<Rightarrow> 'k \<Rightarrow> 'v \<Rightarrow> ('k, 'v) ne_hash \<Rightarrow> ((int + unit) \<times> ('k, 'v) ne_hash) option" where
  "ne_hash_insert node_ok resize_ok key value h = do {
     (hashv, b, i) \<leftarrow> hash_lookup_node h key;
     (let chain = h_nodes h ! b in
      if i < length chain
      then let chain' = chain[i := (chain ! i)\<lparr>n_value := value\<rparr>] in
        Some (hash_resize resize_ok (h\<lparr>h_nodes := (h_nodes h)[b := chain'], h_num := h_num h + 1\<rparr>))
      else if \<not> node_ok then None
      else let chain' = chain @ [\<lparr>n_key = key, n_value = value, n_hashv = hashv\<rparr>] in
        Some (hash_resize resize_ok (h\<lparr>h_nodes := (h_nodes h)[b := chain'], h_num := h_num h + 1\<rparr>))) }"

definition ne_hash_lookup :: "'k \<Rightarrow> ('k, 'v) ne_hash \<Rightarrow> 'v option option" where
  "ne_hash_lookup key h = do {
     (hashv, b, i) \<leftarrow> hash_lookup_node h key;
     (let chain = h_nodes h ! b in
      Some (if i < length chain then Some (n_value (chain ! i)) else None)) }"

definition ne_hash_remove :: "'k \<Rightarrow> ('k, 'v) ne_hash \<Rightarrow> ('v option \<times> ('k, 'v) ne_hash) option" where
  "ne_hash_remove key h = do {
     (hashv, b, i) \<leftarrow> hash_lookup_node h key;
     (let chain = h_nodes h ! b in
      Some (if i < length chain
            then (Some (n_value (chain ! i)),
                  h\<lparr>h_nodes := (h_nodes h)[b := take i chain @ drop (i + 1) chain], h_num := h_num h - 1\<rparr>)
            else (None, h))) }"

text \<open>
  The table's own \<open>destroy_func\<close>, when it has one, is called on the removed node before it is freed: an
  operation on the rest of the state. \<open>ne_hash_remove\<close> above is the case of a table without one.
\<close>

definition ne_hash_remove_with :: "(('k, 'v) ne_hashnode \<Rightarrow> 'w \<Rightarrow> 'w) option \<Rightarrow> 'k \<Rightarrow> ('k, 'v) ne_hash \<Rightarrow> 'w \<Rightarrow>
    ('v option \<times> ('k, 'v) ne_hash \<times> 'w) option" where
  "ne_hash_remove_with destroy_func key h w = do {
     (hashv, b, i) \<leftarrow> hash_lookup_node h key;
     (let chain = h_nodes h ! b in
      Some (if i < length chain
            then (Some (n_value (chain ! i)),
                  h\<lparr>h_nodes := (h_nodes h)[b := take i chain @ drop (i + 1) chain], h_num := h_num h - 1\<rparr>,
                  (case destroy_func of None \<Rightarrow> w | Some f \<Rightarrow> f (chain ! i) w))
            else (None, h, w))) }"

lemma ne_hash_remove_with_None:
  "ne_hash_remove_with None key h w = map_option (\<lambda>(v, h'). (v, h', w)) (ne_hash_remove key h)"
  by (cases "hash_lookup_node h key") (auto simp: ne_hash_remove_with_def ne_hash_remove_def Let_def split: prod.splits)

lemma ne_hash_remove_with_same:
  "map_option (\<lambda>(v, h', w'). (v, h')) (ne_hash_remove_with f key h w) = ne_hash_remove key h"
  by (cases "hash_lookup_node h key") (auto simp: ne_hash_remove_with_def ne_hash_remove_def Let_def split: prod.splits)

definition ne_hash_has_key :: "'k \<Rightarrow> ('k, 'v) ne_hash \<Rightarrow> int option" where
  "ne_hash_has_key key h = do {
     (hashv, b, i) \<leftarrow> hash_lookup_node h key;
     Some (if i < length (h_nodes h ! b) then 1 else 0) }"

text \<open>The first node at or after a bucket.\<close>

fun first_node :: "('k, 'v) ne_hashnode list list \<Rightarrow> ('k, 'v) ne_hashnode option" where
  "first_node [] = None"
| "first_node ([] # cs) = first_node cs"
| "first_node ((n # ns) # cs) = Some n"

text \<open>
  \<open>ne_hash_next\<close> with \<open>*key\<close> as the argument; it returns the new \<open>*key\<close> with the value, or leaves
  \<open>*key\<close> and returns NULL at the end.
\<close>

definition ne_hash_next :: "'k option \<Rightarrow> ('k, 'v) ne_hash \<Rightarrow> ('k option \<times> 'v option) option" where
  "ne_hash_next key h = do {
     (b, nxt) \<leftarrow>
       (case key of
          None \<Rightarrow> Some (0, None)
        | Some k \<Rightarrow> do {
            (hashv, b, i) \<leftarrow> hash_lookup_node h k;
            (let chain = h_nodes h ! b in
             if i < length chain
             then (if i + 1 < length chain then Some (b, Some (chain ! (i + 1)))
                   else Some (bucket_of h (n_hashv (chain ! i)) + 1, None))
             else Some (b, None)) });
     (case nxt of
        Some n \<Rightarrow> Some (Some (n_key n), Some (n_value n))
      | None \<Rightarrow> (case first_node (drop b (h_nodes h)) of
                   None \<Rightarrow> Some (key, None)
                 | Some n \<Rightarrow> Some (Some (n_key n), Some (n_value n)))) }"

text \<open>\<open>ne_hash_destroy\<close> calls the destructor on every node, bucket by bucket.\<close>

definition ne_hash_destroy :: "(('k, 'v) ne_hashnode \<Rightarrow> 'w \<Rightarrow> 'w) option \<Rightarrow> ('k, 'v) ne_hash option \<Rightarrow> 'w \<Rightarrow> 'w" where
  "ne_hash_destroy destroy_func h w =
     (case h of None \<Rightarrow> w
      | Some h \<Rightarrow> (case destroy_func of None \<Rightarrow> w
                   | Some f \<Rightarrow> fold f (concat (take (unat (h_size h)) (h_nodes h))) w))"

definition ne_hash_str_comp :: "string \<Rightarrow> string \<Rightarrow> bool" where
  "ne_hash_str_comp a b = (a = b)"

definition ne_hash_str_hash :: "string \<Rightarrow> u32" where
  "ne_hash_str_hash a = ne_crc a"

definition ne_hash_int_comp :: "u64 \<Rightarrow> u64 \<Rightarrow> bool" where
  "ne_hash_int_comp a b = (a = b)"

definition ne_hash_int_hash :: "u64 \<Rightarrow> u32" where
  "ne_hash_int_hash a = ucast a"

section \<open>Invariant and abstraction\<close>

text \<open>
  The table is well formed when it has \<open>2 ^ k\<close> buckets, every node is in the bucket its stored
  hash selects and stores the hash of its key, no chain has a key twice, and the comparison
  function is equality.
\<close>

definition node_ok :: "('k, 'v) ne_hash \<Rightarrow> nat \<Rightarrow> ('k, 'v) ne_hashnode \<Rightarrow> bool" where
  "node_ok h b n \<longleftrightarrow> n_hashv n = h_hash h (n_key n) \<and> bucket_of h (n_hashv n) = b"

definition hash_inv :: "('k, 'v) ne_hash \<Rightarrow> bool" where
  "hash_inv h \<longleftrightarrow> (\<exists>k < 32. h_size h = 2 ^ k \<and> length (h_nodes h) = 2 ^ k) \<and>
     (\<forall>b < length (h_nodes h). (\<forall>n \<in> set (h_nodes h ! b). node_ok h b n) \<and> distinct (map n_key (h_nodes h ! b))) \<and>
     (\<forall>a b. key_eq h a b \<longleftrightarrow> a = b)"

definition hash_map :: "('k, 'v) ne_hash \<Rightarrow> 'k \<rightharpoonup> 'v" where
  "hash_map h k = map_of (map (\<lambda>n. (n_key n, n_value n)) (h_nodes h ! bucket_of h (h_hash h k))) k"

lemma power_minus_1_mask: "k < 32 \<Longrightarrow> (2 ^ k - 1 :: u32) = mask k"
  by (simp add: mask_eq_exp_minus_1)

lemma unat_power_32: "k < 32 \<Longrightarrow> unat (2 ^ k :: u32) = 2 ^ k"
proof -
  assume "k < 32"
  then have "(2 :: nat) ^ k < 2 ^ 32" by (intro power_strict_increasing) auto
  then have "unat (of_nat (2 ^ k) :: u32) = 2 ^ k" by (simp add: unat_of_nat del: of_nat_power)
  then show ?thesis by simp
qed

lemma bucket_of_mod: "h_size h = 2 ^ k \<Longrightarrow> k < 32 \<Longrightarrow> bucket_of h v = unat v mod 2 ^ k"
  by (simp only: bucket_of_def power_minus_1_mask take_bit_eq_mask [symmetric] unsigned_take_bit_eq)
     (simp add: take_bit_eq_mod)

lemma bucket_of_less: "hash_inv h \<Longrightarrow> bucket_of h v < length (h_nodes h)"
  by (auto simp: hash_inv_def bucket_of_mod)

lemma hash_inv_key_eq: "hash_inv h \<Longrightarrow> key_eq h a b \<longleftrightarrow> a = b"
  by (simp add: hash_inv_def)

text \<open>Looking a key up finds the only node that has it.\<close>

lemma lookup_node_cases:
  assumes inv: "hash_inv h" and b: "b = bucket_of h (h_hash h key)"
  obtains (absent) "hash_lookup_node h key = Some (h_hash h key, b, length (h_nodes h ! b))"
      "key \<notin> n_key ` set (h_nodes h ! b)" "hash_map h key = None"
  | (found) l n r where "h_nodes h ! b = l @ n # r" "n_key n = key" "key \<notin> n_key ` set l" "key \<notin> n_key ` set r"
      "hash_lookup_node h key = Some (h_hash h key, b, length l)" "hash_map h key = Some (n_value n)"
proof (cases "key \<in> n_key ` set (h_nodes h ! b)")
  case False
  then have "takeWhile (\<lambda>n. n_key n \<noteq> key) (h_nodes h ! b) = h_nodes h ! b"
    by (auto simp: takeWhile_eq_all_conv)
  then have "length (takeWhile (\<lambda>n. n_key n \<noteq> key) (h_nodes h ! b)) = length (h_nodes h ! b)" by (rule arg_cong)
  then show thesis
    using False inv bucket_of_less [OF inv] b absent
    by (auto simp: hash_lookup_node_def Let_def hash_inv_key_eq hash_map_def map_of_eq_None_iff image_image)
next
  case True
  then obtain n where n: "n \<in> set (h_nodes h ! b)" "n_key n = key" by auto
  then obtain l r where lr: "h_nodes h ! b = l @ n # r" by (meson split_list)
  have "distinct (map n_key (h_nodes h ! b))"
    using inv bucket_of_less [OF inv] b by (auto simp: hash_inv_def)
  then have d: "key \<notin> n_key ` set l" "key \<notin> n_key ` set r" using lr n by auto
  have "takeWhile (\<lambda>m. n_key m \<noteq> key) (l @ n # r) = l"
    using d n(2) by (intro takeWhile_stop) (blast, simp)
  moreover have "map_of (map (\<lambda>n. (n_key n, n_value n)) (l @ n # r)) key = Some (n_value n)"
    using d n by (auto simp: map_add_Some_iff map_of_eq_None_iff image_image)
  ultimately show thesis
    using found [OF lr n(2) d] inv bucket_of_less [OF inv] b lr
    by (auto simp: hash_lookup_node_def Let_def hash_inv_key_eq hash_map_def)
qed

lemma hash_map_iff:
  assumes inv: "hash_inv h"
  shows "hash_map h k = Some v \<longleftrightarrow> (\<exists>n \<in> set (concat (h_nodes h)). n_key n = k \<and> n_value n = v)"
proof -
  let ?b = "bucket_of h (h_hash h k)"
  have b: "?b < length (h_nodes h)" using bucket_of_less [OF inv] .
  have d: "distinct (map fst (map (\<lambda>n. (n_key n, n_value n)) (h_nodes h ! ?b)))"
    using inv b by (auto simp: hash_inv_def comp_def)
  have "hash_map h k = Some v \<longleftrightarrow> (\<exists>n \<in> set (h_nodes h ! ?b). n_key n = k \<and> n_value n = v)"
    using map_of_eq_Some_iff [OF d, of k v] by (auto simp: hash_map_def)
  also have "\<dots> \<longleftrightarrow> (\<exists>n \<in> set (concat (h_nodes h)). n_key n = k \<and> n_value n = v)"
  proof
    assume "\<exists>n \<in> set (h_nodes h ! ?b). n_key n = k \<and> n_value n = v"
    with b show "\<exists>n \<in> set (concat (h_nodes h)). n_key n = k \<and> n_value n = v" by auto
  next
    assume "\<exists>n \<in> set (concat (h_nodes h)). n_key n = k \<and> n_value n = v"
    then obtain n j where n: "n \<in> set (h_nodes h ! j)" "j < length (h_nodes h)" "n_key n = k" "n_value n = v"
      by (auto simp: in_set_conv_nth [of _ "h_nodes h"])
    then have "node_ok h j n" using inv by (simp add: hash_inv_def)
    then have "j = ?b" using n(3) by (auto simp: node_ok_def)
    with n show "\<exists>n \<in> set (h_nodes h ! ?b). n_key n = k \<and> n_value n = v" by auto
  qed
  finally show ?thesis .
qed

section \<open>Resizing\<close>

lemma resize_chain_eq:
  "resize_chain m x es kept moved =
     (kept @ filter (\<lambda>e. unat (n_hashv e AND m) = x) es, rev (filter (\<lambda>e. unat (n_hashv e AND m) \<noteq> x) es) @ moved)"
  by (induction m x es kept moved rule: resize_chain.induct) auto

definition stay :: "u32 \<Rightarrow> nat \<Rightarrow> ('k, 'v) ne_hashnode list \<Rightarrow> ('k, 'v) ne_hashnode list" where
  "stay m x es = filter (\<lambda>e. unat (n_hashv e AND m) = x) es"

definition go :: "u32 \<Rightarrow> nat \<Rightarrow> ('k, 'v) ne_hashnode list \<Rightarrow> ('k, 'v) ne_hashnode list" where
  "go m x es = rev (filter (\<lambda>e. unat (n_hashv e AND m) \<noteq> x) es)"

lemma resize_fold:
  fixes m :: u32
  assumes "length nodes = N" "n \<le> N"
  defines "res \<equiv> foldl (resize_bucket m N) (nodes @ replicate N []) [0..<n]"
  shows "length res = 2 * N \<and>
     (\<forall>x < N. res ! x = (if x < n then stay m x (nodes ! x) else nodes ! x) \<and>
              res ! (x + N) = (if x < n then go m x (nodes ! x) else []))"
  using assms(2) unfolding res_def
proof (induction n)
  case 0
  then show ?case using assms(1) by (auto simp: nth_append)
next
  case (Suc n)
  let ?r = "foldl (resize_bucket m N) (nodes @ replicate N []) [0..<n]"
  have IH: "length ?r = 2 * N" "\<And>x. x < N \<Longrightarrow> ?r ! x = (if x < n then stay m x (nodes ! x) else nodes ! x)"
    "\<And>x. x < N \<Longrightarrow> ?r ! (x + N) = (if x < n then go m x (nodes ! x) else [])"
    using Suc by auto
  have "foldl (resize_bucket m N) (nodes @ replicate N []) [0..<Suc n]
      = ?r[n := stay m n (nodes ! n), n + N := go m n (nodes ! n)]"
    using IH(2,3) [of n] Suc.prems
    by (simp add: resize_bucket_def resize_chain_eq stay_def go_def)
  then show ?case using IH Suc.prems by (auto simp: nth_list_update less_Suc_eq)
qed

lemma mod_double: "(v :: nat) mod (2 * N) = v mod N \<or> v mod (2 * N) = v mod N + N"
  using mod_mult2_eq [of v N 2] by (cases "v div N mod 2 = 0") (auto simp: mult.commute)

lemma hash_resize_correct:
  assumes inv: "hash_inv h" and small: "h_size h \<le> 2 ^ 30"
  shows "\<exists>h'. hash_resize True h = (Inr (), h') \<and> hash_inv h' \<and> hash_map h' = hash_map h \<and>
           h_hash h' = h_hash h \<and> h_comp h' = h_comp h"
proof (cases "h_size h > h_num h")
  case True
  then show ?thesis using inv by (simp add: hash_resize_def)
next
  case False
  from inv obtain k where k: "k < 32" "h_size h = 2 ^ k" "length (h_nodes h) = 2 ^ k" by (auto simp: hash_inv_def)
  have k30: "k \<le> 30"
  proof (rule ccontr)
    assume "\<not> k \<le> 30"
    with k(1) have "k = 31" by simp
    with small k(2) show False by simp
  qed
  let ?N = "2 ^ k :: nat"
  let ?m = "h_size h * 2 - 1"
  let ?nodes = "foldl (resize_bucket ?m ?N) (h_nodes h @ replicate ?N []) [0..<?N]"
  define h' where "h' = h\<lparr>h_size := h_size h * 2, h_nodes := ?nodes\<rparr>"
  have hf: "h_hash h' = h_hash h" by (simp add: h'_def)
  have sz: "h_size h' = 2 ^ Suc k" "Suc k < 32" using k k30 by (simp_all add: h'_def)
  have N: "unat (h_size h) = ?N" using k unat_power_32 [of k] by simp
  have res: "hash_resize True h = (Inr (), h')" using False N by (simp add: hash_resize_def Let_def h'_def)
  note F = resize_fold [OF k(3) order_refl, of ?m]
  have len: "length (h_nodes h') = 2 * ?N" using F by (simp add: h'_def)
  have lo: "h_nodes h' ! x = stay ?m x (h_nodes h ! x)" and hi: "h_nodes h' ! (x + ?N) = go ?m x (h_nodes h ! x)"
    if "x < ?N" for x using F that by (simp_all add: h'_def)
  have bk: "unat (v AND ?m) = unat v mod (2 * ?N)" for v
    using bucket_of_mod [OF sz, of v] by (simp add: bucket_of_def h'_def)
  have ok: "n_hashv n = h_hash h (n_key n) \<and> unat (n_hashv n) mod ?N = x" if "x < ?N" "n \<in> set (h_nodes h ! x)" for x n
  proof -
    have "node_ok h x n" using inv that k by (simp add: hash_inv_def)
    then show ?thesis using bucket_of_mod [OF k(2,1), of "n_hashv n"] by (auto simp: node_ok_def)
  qed
  have split: "\<exists>x < ?N. b = x \<or> b = x + ?N" if "b < 2 * ?N" for b
    using that by (cases "b < ?N") (auto intro: exI [of _ "b - ?N"])
  have nodes: "node_ok h' b n" if b: "b < 2 * ?N" "n \<in> set (h_nodes h' ! b)" for b n
  proof -
    obtain x where x: "x < ?N" "b = x \<or> b = x + ?N" using split b(1) by blast
    have n: "n \<in> set (h_nodes h ! x)" "b = x \<longrightarrow> unat (n_hashv n AND ?m) = x"
      "b \<noteq> x \<longrightarrow> unat (n_hashv n AND ?m) \<noteq> x"
      using x b(2) lo [OF x(1)] hi [OF x(1)] by (auto simp: stay_def go_def)
    with ok [OF x(1) n(1)] mod_double [of "unat (n_hashv n)" ?N] x(2) show ?thesis
      by (auto simp: node_ok_def bucket_of_mod [OF sz] bk hf)
  qed
  have dist: "distinct (map n_key (h_nodes h' ! b))" if "b < 2 * ?N" for b
  proof -
    obtain x where x: "x < ?N" "b = x \<or> b = x + ?N" using split \<open>b < 2 * ?N\<close> by blast
    have "distinct (map n_key (h_nodes h ! x))" using inv x k by (auto simp: hash_inv_def)
    with x lo [OF x(1)] hi [OF x(1)] show ?thesis
      by (auto simp: stay_def go_def distinct_map_filter simp flip: rev_map)
  qed
  have keq: "\<And>a b. key_eq h' a b \<longleftrightarrow> a = b" using inv by (simp add: hash_inv_def key_eq_def h'_def)
  have "\<exists>k < 32. h_size h' = 2 ^ k \<and> length (h_nodes h') = 2 ^ k"
    using sz len by (intro exI [of _ "Suc k"]) simp
  then have inv': "hash_inv h'"
    using nodes dist len keq by (simp add: hash_inv_def)
  have "set (concat (h_nodes h')) = set (concat (h_nodes h))"
  proof (intro set_eqI iffI)
    fix n assume "n \<in> set (concat (h_nodes h'))"
    then obtain b where "b < 2 * ?N" "n \<in> set (h_nodes h' ! b)" using len by (auto simp: in_set_conv_nth [of _ "h_nodes h'"])
    moreover from split this(1) obtain x where "x < ?N" "b = x \<or> b = x + ?N" by blast
    ultimately have "x < ?N \<and> n \<in> set (h_nodes h ! x)" using lo hi by (auto simp: stay_def go_def)
    then show "n \<in> set (concat (h_nodes h))" using k(3) by (auto intro!: bexI [of _ "h_nodes h ! x"])
  next
    fix n assume "n \<in> set (concat (h_nodes h))"
    then obtain x where x: "x < ?N" "n \<in> set (h_nodes h ! x)" using k(3) by (auto simp: in_set_conv_nth [of _ "h_nodes h"])
    then have "n \<in> set (h_nodes h' ! x) \<or> n \<in> set (h_nodes h' ! (x + ?N))"
      using lo [OF x(1)] hi [OF x(1)] by (auto simp: stay_def go_def)
    then show "n \<in> set (concat (h_nodes h'))" using x(1) len by (auto intro: nth_mem)
  qed
  then have "hash_map h' = hash_map h"
    using hash_map_iff [OF inv'] hash_map_iff [OF inv]
    by (intro ext option.expand) (metis not_Some_eq option.sel)+
  then show ?thesis using res inv' by (auto simp: h'_def)
qed

section \<open>Every operation acts on the map\<close>

text \<open>Replacing the chain of one bucket.\<close>

lemma hash_inv_chain:
  assumes inv: "hash_inv h" and b: "b < length (h_nodes h)"
    and ok: "\<And>n. n \<in> set chain \<Longrightarrow> node_ok h b n" and d: "distinct (map n_key chain)"
  shows "hash_inv (h\<lparr>h_nodes := (h_nodes h)[b := chain], h_num := c\<rparr>)"
proof -
  let ?h = "h\<lparr>h_nodes := (h_nodes h)[b := chain], h_num := c\<rparr>"
  have "node_ok ?h = node_ok h" by (auto simp: node_ok_def bucket_of_def fun_eq_iff)
  moreover have "key_eq ?h = key_eq h" by (auto simp: key_eq_def fun_eq_iff)
  ultimately show ?thesis
    using inv ok d b by (auto simp: hash_inv_def nth_list_update)
qed

lemma hash_map_chain:
  assumes inv: "hash_inv h" and b: "b = bucket_of h (h_hash h key)"
    and same: "\<And>k. k \<noteq> key \<Longrightarrow> map_of (map (\<lambda>n. (n_key n, n_value n)) chain) k =
                    map_of (map (\<lambda>n. (n_key n, n_value n)) (h_nodes h ! b)) k"
  shows "hash_map (h\<lparr>h_nodes := (h_nodes h)[b := chain], h_num := c\<rparr>) =
         (hash_map h)(key := map_of (map (\<lambda>n. (n_key n, n_value n)) chain) key)"
proof
  fix k
  let ?h = "h\<lparr>h_nodes := (h_nodes h)[b := chain], h_num := c\<rparr>"
  have "bucket_of ?h = bucket_of h" by (simp add: bucket_of_def fun_eq_iff)
  then show "hash_map ?h k = ((hash_map h)(key := map_of (map (\<lambda>n. (n_key n, n_value n)) chain) key)) k"
    using bucket_of_less [OF inv] same [of k] b
    by (cases "bucket_of h (h_hash h k) = b") (auto simp: hash_map_def)
qed

lemma map_of_pairs_None: "key \<notin> n_key ` set c \<Longrightarrow> map_of (map (\<lambda>n. (n_key n, n_value n)) c) key = None"
  by (auto simp: map_of_eq_None_iff image_image)

lemma ne_hash_insert_map:
  assumes inv: "hash_inv h" and small: "h_size h \<le> 2 ^ 30"
  shows "\<exists>h'. ne_hash_insert True True key v h = Some (Inr (), h') \<and> hash_inv h' \<and>
           hash_map h' = (hash_map h)(key \<mapsto> v)"
proof -
  define b where "b = bucket_of h (h_hash h key)"
  have bl: "b < length (h_nodes h)" using bucket_of_less [OF inv] b_def by simp
  have chain: "\<And>n. n \<in> set (h_nodes h ! b) \<Longrightarrow> node_ok h b n" "distinct (map n_key (h_nodes h ! b))"
    using inv bl by (auto simp: hash_inv_def)
  have "\<exists>ch. ne_hash_insert True True key v h = Some (hash_resize True (h\<lparr>h_nodes := (h_nodes h)[b := ch], h_num := h_num h + 1\<rparr>)) \<and>
     (\<forall>n \<in> set ch. node_ok h b n) \<and> distinct (map n_key ch) \<and>
     (\<forall>k. map_of (map (\<lambda>n. (n_key n, n_value n)) ch) k =
            (if k = key then Some v else map_of (map (\<lambda>n. (n_key n, n_value n)) (h_nodes h ! b)) k))"
    using inv b_def
  proof (cases rule: lookup_node_cases)
    case absent
    let ?n = "\<lparr>n_key = key, n_value = v, n_hashv = h_hash h key\<rparr>"
    have "node_ok h b ?n" by (simp add: node_ok_def b_def)
    with absent chain map_of_pairs_None [OF absent(2)] show ?thesis
      by (intro exI [of _ "h_nodes h ! b @ [?n]"])
         (auto simp: ne_hash_insert_def Let_def map_add_def split: option.splits)
  next
    case (found l n r)
    let ?ch = "l @ n\<lparr>n_value := v\<rparr> # r"
    have "node_ok h b (n\<lparr>n_value := v\<rparr>)" using chain(1) [of n] found(1) by (auto simp: node_ok_def)
    moreover have "map n_key ?ch = map n_key (h_nodes h ! b)" using found(1) by simp
    ultimately show ?thesis
      using found chain map_of_pairs_None [OF found(3)]
      by (intro exI [of _ ?ch])
         (auto simp: ne_hash_insert_def Let_def map_add_def list_update_append split: option.splits)
  qed
  then obtain ch where ch: "ne_hash_insert True True key v h = Some (hash_resize True (h\<lparr>h_nodes := (h_nodes h)[b := ch], h_num := h_num h + 1\<rparr>))"
    "\<And>n. n \<in> set ch \<Longrightarrow> node_ok h b n" "distinct (map n_key ch)"
    "\<And>k. map_of (map (\<lambda>n. (n_key n, n_value n)) ch) k =
            (if k = key then Some v else map_of (map (\<lambda>n. (n_key n, n_value n)) (h_nodes h ! b)) k)" by blast
  let ?h = "h\<lparr>h_nodes := (h_nodes h)[b := ch], h_num := h_num h + 1\<rparr>"
  have 1: "hash_inv ?h" using inv bl ch(2,3) by (rule hash_inv_chain)
  have 2: "hash_map ?h = (hash_map h)(key \<mapsto> v)" using hash_map_chain [OF inv b_def, of ch] ch(4) by simp
  have 3: "h_size ?h \<le> 2 ^ 30" using small by simp
  from hash_resize_correct [OF 1 3] obtain h' where "hash_resize True ?h = (Inr (), h')" "hash_inv h'"
    "hash_map h' = hash_map ?h" by blast
  with ch(1) 2 show ?thesis by simp
qed

lemma ne_hash_lookup_map: "hash_inv h \<Longrightarrow> ne_hash_lookup key h = Some (hash_map h key)"
  by (erule lookup_node_cases [OF _ refl, where key = key]) (auto simp: ne_hash_lookup_def Let_def)

lemma ne_hash_has_key_map: "hash_inv h \<Longrightarrow> ne_hash_has_key key h = Some (if hash_map h key = None then 0 else 1)"
  by (erule lookup_node_cases [OF _ refl, where key = key]) (auto simp: ne_hash_has_key_def)

lemma ne_hash_remove_map:
  assumes inv: "hash_inv h"
  shows "\<exists>h'. ne_hash_remove key h = Some (hash_map h key, h') \<and> hash_inv h' \<and> h_size h' = h_size h \<and>
           hash_map h' = (hash_map h)(key := None)"
proof -
  define b where "b = bucket_of h (h_hash h key)"
  have bl: "b < length (h_nodes h)" using bucket_of_less [OF inv] b_def by simp
  have chain: "\<And>n. n \<in> set (h_nodes h ! b) \<Longrightarrow> node_ok h b n" "distinct (map n_key (h_nodes h ! b))"
    using inv bl by (auto simp: hash_inv_def)
  from inv b_def show ?thesis
  proof (cases rule: lookup_node_cases)
    case absent
    then have "(hash_map h)(key := None) = hash_map h" by auto
    then show ?thesis using absent inv by (simp add: ne_hash_remove_def Let_def)
  next
    case (found l n r)
    let ?h = "h\<lparr>h_nodes := (h_nodes h)[b := l @ r], h_num := h_num h - 1\<rparr>"
    have inv': "hash_inv ?h" using chain found(1) by (intro hash_inv_chain [OF inv bl]) auto
    have none: "map_of (map (\<lambda>n. (n_key n, n_value n)) (l @ r)) key = None"
      using found(3,4) by (intro map_of_pairs_None) auto
    have same: "map_of (map (\<lambda>n. (n_key n, n_value n)) (l @ r)) k =
        map_of (map (\<lambda>n. (n_key n, n_value n)) (h_nodes h ! b)) k" if "k \<noteq> key" for k
      using that found(1,2) by (simp add: map_add_def split: option.split)
    have "hash_map ?h = (hash_map h)(key := None)"
      using hash_map_chain [OF inv b_def, of "l @ r" "h_num h - 1", OF same] unfolding none by blast
    then show ?thesis using found inv' by (simp add: ne_hash_remove_def Let_def)
  qed
qed

lemma ne_hash_init_inv:
  assumes "ne_hash_init True True f c = Inr h" "\<And>g a b. c = Some g \<Longrightarrow> g a b \<longleftrightarrow> a = b"
  shows "hash_inv h" "hash_map h = Map.empty" "h_size h = 256" "h_hash h = f" "h_comp h = c"
proof -
  have h: "h = \<lparr>h_size = 256, h_num = 0, h_nodes = replicate 256 [], h_hash = f, h_comp = c\<rparr>"
    using assms(1) by (simp add: ne_hash_init_def)
  have k: "\<exists>k < 32. h_size h = 2 ^ k \<and> length (h_nodes h) = 2 ^ k"
    by (intro exI [of _ 8]) (simp add: h)
  with assms(2) show inv: "hash_inv h"
    by (auto simp: hash_inv_def key_eq_def h split: option.split)
  show "hash_map h = Map.empty"
    using bucket_of_less [OF inv] by (auto simp: hash_map_def fun_eq_iff h)
  show "h_size h = 256" "h_hash h = f" "h_comp h = c" by (simp_all add: h)
qed

section \<open>Iteration\<close>

lemma first_node_concat: "first_node cs = (case concat cs of [] \<Rightarrow> None | n # _ \<Rightarrow> Some n)"
  by (induction cs rule: first_node.induct) auto

lemma concat_at:
  assumes "b < length cs" "cs ! b = l @ n # r"
  shows "concat cs = (concat (take b cs) @ l) @ n # (r @ concat (drop (Suc b) cs))"
  using assms by (metis append.assoc append_Cons concat.simps(2) concat_append id_take_nth_drop)

lemma distinct_concat_keys:
  assumes inv: "hash_inv h"
  shows "distinct (map n_key (concat (h_nodes h)))"
proof -
  have "distinct (map n_key (concat (take m (h_nodes h))))" if "m \<le> length (h_nodes h)" for m
    using that
  proof (induction m)
    case 0
    then show ?case by simp
  next
    case (Suc m)
    have m: "node_ok h m n" if "n \<in> set (h_nodes h ! m)" for n using inv Suc.prems that by (simp add: hash_inv_def)
    have "n_key n \<noteq> n_key n'" if n: "n \<in> set (concat (take m (h_nodes h)))" and n': "n' \<in> set (h_nodes h ! m)" for n n'
    proof -
      obtain j where j: "j < m" "n \<in> set (h_nodes h ! j)" using n Suc.prems by (auto simp: in_set_conv_nth [of _ "take m _"])
      then have "node_ok h j n" using inv Suc.prems by (simp add: hash_inv_def)
      with m [OF n'] j(1) show ?thesis by (auto simp: node_ok_def)
    qed
    then show ?case
      using Suc inv by (auto simp: take_Suc_conv_app_nth hash_inv_def)
  qed
  from this [OF order_refl] show ?thesis by simp
qed

lemma ne_hash_next_first:
  "concat (h_nodes h) = n # ns \<Longrightarrow> ne_hash_next None h = Some (Some (n_key n), Some (n_value n))"
  by (simp add: ne_hash_next_def first_node_concat)

lemma ne_hash_next_step:
  assumes inv: "hash_inv h" and at: "concat (h_nodes h) = xs @ n # ys"
  shows "ne_hash_next (Some (n_key n)) h =
     Some (case ys of [] \<Rightarrow> (Some (n_key n), None) | m # _ \<Rightarrow> (Some (n_key m), Some (n_value m)))"
proof -
  define b where "b = bucket_of h (h_hash h (n_key n))"
  have bl: "b < length (h_nodes h)" using bucket_of_less [OF inv] b_def by simp
  have "n \<in> set (concat (h_nodes h))" by (simp add: at)
  then have ne: "hash_map h (n_key n) = Some (n_value n)" using hash_map_iff [OF inv] by blast
  from inv b_def show ?thesis
  proof (cases rule: lookup_node_cases)
    case absent
    then show ?thesis using ne by simp
  next
    case (found l n' r)
    have c: "concat (h_nodes h) = (concat (take b (h_nodes h)) @ l) @ n' # (r @ concat (drop (Suc b) (h_nodes h)))"
      using concat_at [OF bl found(1)] .
    have "ys = r @ concat (drop (Suc b) (h_nodes h))"
      using distinct_split_unique [OF distinct_concat_keys [OF inv], of xs n ys] at c found(2) by metis
    moreover have "node_ok h b n'" using inv bl found(1) by (simp add: hash_inv_def)
    then have "bucket_of h (n_hashv n') = b" by (auto simp: node_ok_def)
    ultimately show ?thesis
      using found
      by (cases r; cases "concat (drop (Suc b) (h_nodes h))")
         (auto simp: ne_hash_next_def Let_def nth_append first_node_concat simp del: concat_eq_Nil_conv)
  qed
qed

text \<open>The client's loop: ask for the first key, then for the next one until NULL.\<close>

fun hash_walk :: "nat \<Rightarrow> 'k option \<Rightarrow> ('k, 'v) ne_hash \<Rightarrow> ('k \<times> 'v) list option" where
  "hash_walk 0 key h = None"
| "hash_walk (Suc fuel) key h = do {
     (key', v) \<leftarrow> ne_hash_next key h;
     (case (key', v) of
        (Some k, Some w) \<Rightarrow> do { rest \<leftarrow> hash_walk fuel (Some k) h; Some ((k, w) # rest) }
      | _ \<Rightarrow> Some []) }"

lemma hash_walk_from:
  assumes inv: "hash_inv h"
  shows "concat (h_nodes h) = xs @ n # ys \<Longrightarrow> length ys < fuel \<Longrightarrow>
     hash_walk fuel (Some (n_key n)) h = Some (map (\<lambda>n. (n_key n, n_value n)) ys)"
proof (induction ys arbitrary: xs n fuel)
  case Nil
  then show ?case using ne_hash_next_step [OF inv Nil(1)] by (cases fuel) auto
next
  case (Cons m ys)
  then obtain f where f: "fuel = Suc f" "length ys < f" by (cases fuel) auto
  have "concat (h_nodes h) = (xs @ [n]) @ m # ys" using Cons.prems(1) by simp
  from Cons.IH [OF this f(2)] ne_hash_next_step [OF inv Cons.prems(1)] f show ?case by simp
qed

section \<open>The interface of a map\<close>

datatype ('k, 'v) hop = HInsert 'k 'v | HLookup 'k | HRemove 'k | HHas 'k

datatype 'v hres = HErr int | HDone | HVal "'v option" | HBool int

fun hash_step :: "('k, 'v) hop \<Rightarrow> ('k, 'v) ne_hash \<Rightarrow> ('v hres \<times> ('k, 'v) ne_hash) option" where
  "hash_step (HInsert k v) h = do { (r, h') \<leftarrow> ne_hash_insert True True k v h; Some (case_sum HErr (\<lambda>_. HDone) r, h') }"
| "hash_step (HLookup k) h = do { r \<leftarrow> ne_hash_lookup k h; Some (HVal r, h) }"
| "hash_step (HRemove k) h = do { (r, h') \<leftarrow> ne_hash_remove k h; Some (HVal r, h') }"
| "hash_step (HHas k) h = do { r \<leftarrow> ne_hash_has_key k h; Some (HBool r, h) }"

fun map_step :: "('k, 'v) hop \<Rightarrow> ('k \<rightharpoonup> 'v) \<Rightarrow> ('v hres \<times> ('k \<rightharpoonup> 'v)) option" where
  "map_step (HInsert k v) m = Some (HDone, m(k \<mapsto> v))"
| "map_step (HLookup k) m = Some (HVal (m k), m)"
| "map_step (HRemove k) m = Some (HVal (m k), m(k := None))"
| "map_step (HHas k) m = Some (HBool (if m k = None then 0 else 1), m)"

definition hash_rep :: "('k, 'v) ne_hash \<Rightarrow> ('k \<rightharpoonup> 'v) \<Rightarrow> bool" where
  "hash_rep h m \<longleftrightarrow> hash_inv h \<and> hash_map h = m"

text \<open>The table can still be doubled without overflowing its 32-bit size.\<close>

definition hash_room :: "('k, 'v) hop \<Rightarrow> ('k, 'v) ne_hash \<Rightarrow> bool" where
  "hash_room x h \<longleftrightarrow> h_size h \<le> 2 ^ 30"

lemma hash_step_sim:
  assumes "hash_rep h m" "hash_room x h" "map_step x m = Some (r, m')"
  shows "\<exists>h'. hash_step x h = Some (r, h') \<and> hash_rep h' m'"
proof (cases x)
  case (HInsert k v)
  with assms ne_hash_insert_map [of h k v] show ?thesis by (auto simp: hash_rep_def hash_room_def)
next
  case (HLookup k)
  with assms ne_hash_lookup_map [of h k] show ?thesis by (auto simp: hash_rep_def)
next
  case (HRemove k)
  with assms ne_hash_remove_map [of h k] show ?thesis by (auto simp: hash_rep_def)
next
  case (HHas k)
  with assms ne_hash_has_key_map [of h k] show ?thesis by (auto simp: hash_rep_def)
qed

interpretation hs: simulation hash_step map_step hash_rep hash_room
  by unfold_locales (rule hash_step_sim)

section \<open>Properties\<close>

text \<open>
  C26. The hash table is a finite map: every sequence of inserts, lookups, removals and membership
  tests returns what a map returns, through any number of doublings of the table, as long as the
  table stays below \<open>2 ^ 30\<close> buckets.
\<close>

theorem hash_refines_map:
  assumes "hash_rep h m" "run_ok hash_step hash_room ops h" "run_ops map_step ops m = Some (rs, m')"
  shows "\<exists>h'. run_ops hash_step ops h = Some (rs, h') \<and> hash_rep h' m'"
  using assms by (rule hs.run_sim)

definition demo_hash :: "(string, nat) ne_hash" where
  "demo_hash = \<lparr>h_size = 256, h_num = 0, h_nodes = replicate 256 [], h_hash = ne_hash_str_hash,
                h_comp = Some ne_hash_str_comp\<rparr>"

lemma demo_hash_rep: "hash_rep demo_hash Map.empty"
  using ne_hash_init_inv [of ne_hash_str_hash "Some ne_hash_str_comp" demo_hash]
  by (simp add: hash_rep_def ne_hash_init_def demo_hash_def ne_hash_str_comp_def)

lemma demo_hash_insert:
  "\<exists>h'. ne_hash_insert True True ''a'' 1 demo_hash = Some (Inr (), h') \<and> hash_inv h' \<and> h_size h' = 256 \<and>
     hash_map h' = [''a'' \<mapsto> 1]"
proof -
  have inv: "hash_inv demo_hash" and m: "hash_map demo_hash = Map.empty" using demo_hash_rep by (auto simp: hash_rep_def)
  have "h_size demo_hash \<le> 2 ^ 30" by (simp add: demo_hash_def)
  from ne_hash_insert_map [OF inv this, of "''a''" 1] obtain h' where h':
    "ne_hash_insert True True ''a'' 1 demo_hash = Some (Inr (), h')" "hash_inv h'" "hash_map h' = [''a'' \<mapsto> 1]"
    using m by auto
  have "h_size h' = 256"
    using h'(1) by (auto simp: ne_hash_insert_def hash_resize_def Let_def demo_hash_def split: if_splits)
  with h' show ?thesis by blast
qed

theorem hash_refines_map_witness:
  "\<exists>h'. run_ops hash_step [HInsert ''a'' 1, HLookup ''a'', HLookup ''b'', HRemove ''a''] demo_hash
      = Some ([HDone, HVal (Some 1), HVal None, HVal (Some 1)], h') \<and> hash_rep h' Map.empty"
proof -
  let ?ops = "[HInsert ''a'' 1, HLookup ''a'', HLookup ''b'', HRemove ''a'']"
  obtain h' where h': "ne_hash_insert True True ''a'' 1 demo_hash = Some (Inr (), h')" "h_size h' = 256" "hash_inv h'"
    using demo_hash_insert by blast
  have ok: "run_ok hash_step hash_room ?ops demo_hash"
    using h' ne_hash_remove_map [OF h'(3), of "''a''"]
    by (auto simp: hash_room_def demo_hash_def ne_hash_lookup_map split: option.split)
  have "run_ops map_step ?ops Map.empty = Some ([HDone, HVal (Some 1), HVal None, HVal (Some 1)], Map.empty)" by simp
  from hash_refines_map [OF demo_hash_rep ok this] show ?thesis .
qed

text \<open>
  Iterating with \<open>ne_hash_next\<close> from a NULL key until it returns NULL visits every binding of
  the map exactly once and stops, given one call more than there are nodes.
\<close>

theorem hash_walk_all:
  assumes "hash_inv h" "length (concat (h_nodes h)) < fuel"
  shows "\<exists>ps. hash_walk fuel None h = Some ps \<and> distinct (map fst ps) \<and> map_of ps = hash_map h"
proof (intro exI conjI)
  let ?ps = "map (\<lambda>n. (n_key n, n_value n)) (concat (h_nodes h))"
  show d: "distinct (map fst ?ps)" using distinct_concat_keys [OF assms(1)] by (simp add: comp_def)
  show "hash_walk fuel None h = Some ?ps"
  proof (cases "concat (h_nodes h)")
    case Nil
    then show ?thesis using assms(2) by (cases fuel) (auto simp: ne_hash_next_def first_node_concat simp del: concat_eq_Nil_conv)
  next
    case (Cons n ns)
    then obtain f where f: "fuel = Suc f" "length ns < f" using assms(2) by (cases fuel) auto
    from hash_walk_from [OF assms(1), of "[]" n ns f] Cons f ne_hash_next_first [OF Cons] show ?thesis
      by (simp del: map_concat)
  qed
  show "map_of ?ps = hash_map h"
  proof (intro ext option.expand)
    fix k
    have iff: "map_of ?ps k = Some v \<longleftrightarrow> hash_map h k = Some v" for v
      using map_of_eq_Some_iff [OF d, of k v] hash_map_iff [OF assms(1), of k v] by (auto simp del: set_concat)
    show "(map_of ?ps k = None) = (hash_map h k = None)" using iff by (metis not_Some_eq)
    show "the (map_of ?ps k) = the (hash_map h k)" if "map_of ?ps k \<noteq> None" "hash_map h k \<noteq> None"
      using iff that by (metis not_Some_eq)
  qed
qed

theorem hash_walk_all_witness:
  "\<exists>h' ps. ne_hash_insert True True ''a'' 1 demo_hash = Some (Inr (), h') \<and>
     hash_walk (Suc (length (concat (h_nodes h')))) None h' = Some ps \<and> map_of ps = [''a'' \<mapsto> 1]"
proof -
  obtain h' where h': "ne_hash_insert True True ''a'' 1 demo_hash = Some (Inr (), h')" "hash_inv h'"
    "hash_map h' = [''a'' \<mapsto> 1]" using demo_hash_insert by blast
  from hash_walk_all [OF h'(2), of "Suc (length (concat (h_nodes h')))"] h' show ?thesis by auto
qed

end
