(* ===== verification/Server_Queue.thy ===== *)
theory Server_Queue
  imports Moc_Prelude "HOL-Library.Multiset"
begin

text \<open>
  The message queue of one plugin (server/queue.c) and of the client's callback thread
  (client/mscli.c). The C queue is a singly linked list: \<open>bottom\<close> is the next entry to leave,
  each entry's \<open>prev\<close> points to the one that leaves after it, \<open>top\<close> is the last one.

  The model is at the level of the pointers: entries live in a heap, a queue holds the two
  addresses and the counter, and reading or writing an address that is not allocated is
  \<open>None\<close>. What an entry carries besides \<open>prev\<close> is the type parameter \<open>'a\<close>. The theory
  states the queue discipline as a locale over lists, proves it once for every sequence of
  operations, and interprets it on the server's pointer code; \<open>Client_Queue\<close> does so for the
  client's copy.
\<close>

section \<open>Data and operations\<close>

record 'a queue_entry =
  qe_data :: 'a
  qe_prev :: "addr option"

type_synonym 'a qheap = "addr \<Rightarrow> 'a queue_entry option"

record queue =
  q_size :: nat
  q_top :: "addr option"
  q_bottom :: "addr option"

definition queue_create :: queue where
  "queue_create = \<lparr>q_size = 0, q_top = None, q_bottom = None\<rparr>"

definition set_prev :: "addr \<Rightarrow> addr option \<Rightarrow> 'a qheap \<Rightarrow> 'a qheap option" where
  "set_prev a p h = (case h a of None \<Rightarrow> None | Some n \<Rightarrow> Some (h(a \<mapsto> n\<lparr>qe_prev := p\<rparr>)))"

definition queue_put :: "queue \<times> 'a qheap \<Rightarrow> addr \<Rightarrow> (queue \<times> 'a qheap) option" where
  "queue_put s e = (case s of (q, h) \<Rightarrow>
     (case q_top q of
        None \<Rightarrow> Some (q\<lparr>q_top := Some e, q_bottom := Some e, q_size := q_size q + 1\<rparr>, h)
      | Some t \<Rightarrow> do {
          h' \<leftarrow> set_prev t (Some e) h;
          Some (q\<lparr>q_top := Some e, q_size := q_size q + 1\<rparr>, h') }))"

definition queue_cas :: "queue \<times> 'a qheap \<Rightarrow> addr \<Rightarrow> (queue \<times> 'a qheap) option" where
  "queue_cas s e = (case s of (q, h) \<Rightarrow>
     (case q_top q of
        None \<Rightarrow> Some (q\<lparr>q_top := Some e, q_bottom := Some e, q_size := q_size q + 1\<rparr>, h)
      | Some t \<Rightarrow> do {
          h' \<leftarrow> set_prev e (q_bottom q) h;
          Some (q\<lparr>q_bottom := Some e, q_size := q_size q + 1\<rparr>, h') }))"

definition queue_get :: "queue \<times> 'a qheap \<Rightarrow> (addr option \<times> (queue \<times> 'a qheap)) option" where
  "queue_get s = (case s of (q, h) \<Rightarrow>
     (case q_bottom q of
        None \<Rightarrow> Some (None, (q, h))
      | Some e \<Rightarrow> do {
          n \<leftarrow> h e;
          let t = qe_prev n;
          let q1 = q\<lparr>q_bottom := t\<rparr>;
          let q2 = (if t = None then q1\<lparr>q_top := None\<rparr> else q1);
          Some (Some e, (q2\<lparr>q_size := q_size q2 - 1\<rparr>, h)) }))"

definition queue_isempty :: "queue \<times> 'a qheap \<Rightarrow> bool" where
  "queue_isempty s \<longleftrightarrow> q_size (fst s) = 0"

text \<open>
  \<open>queue_entry_free\<close> releases what the entry owns (its request with the reference to the client's
  socket, its event name, its two data trees), then the entry. What an entry owns is known to the
  user of the queue: it is the operation \<open>rel\<close> on the rest of the program's state.
\<close>

definition queue_entry_free :: "('a \<Rightarrow> 'w \<Rightarrow> 'w option) \<Rightarrow> addr \<Rightarrow> 'a qheap \<times> 'w \<Rightarrow> ('a qheap \<times> 'w) option" where
  "queue_entry_free rel a s = (case s of (h, w) \<Rightarrow> do {
     n \<leftarrow> h a;
     w' \<leftarrow> rel (qe_data n) w;
     Some (h(a := None), w') })"

text \<open>
  \<open>queue_free\<close> takes entries out and frees them until the queue is empty; the loop has no bound
  in the code, so a run that does not end is \<open>None\<close>.
\<close>

partial_function (option) queue_free :: "('a \<Rightarrow> 'w \<Rightarrow> 'w option) \<Rightarrow> queue \<times> 'a qheap \<Rightarrow> 'w \<Rightarrow> ('a qheap \<times> 'w) option" where
  [code]: "queue_free rel s w = do {
     r \<leftarrow> queue_get s;
     (case fst r of
        None \<Rightarrow> Some (snd (snd r), w)
      | Some e \<Rightarrow> do {
          hw \<leftarrow> queue_entry_free rel e (snd (snd r), w);
          queue_free rel (fst (snd r), fst hw) (snd hw) }) }"

section \<open>Representation: which list of entries a queue holds\<close>

primrec qpath :: "'a qheap \<Rightarrow> addr option \<Rightarrow> addr list \<Rightarrow> bool" where
  "qpath h p [] \<longleftrightarrow> p = None"
| "qpath h p (a # as) \<longleftrightarrow> p = Some a \<and> (\<exists>n. h a = Some n \<and> qpath h (qe_prev n) as)"

definition queue_rep :: "queue \<times> 'a qheap \<Rightarrow> addr list \<Rightarrow> bool" where
  "queue_rep s as \<longleftrightarrow> (case s of (q, h) \<Rightarrow>
     qpath h (q_bottom q) as \<and> distinct as \<and> q_size q = length as \<and>
     q_top q = (if as = [] then None else Some (last as)))"

definition queue_fresh :: "queue \<times> 'a qheap \<Rightarrow> addr list \<Rightarrow> addr \<Rightarrow> bool" where
  "queue_fresh s as e \<longleftrightarrow>
     e \<notin> set as \<and> (\<exists>n. snd s e = Some n \<and> qe_prev n = None)"

lemma qpath_upd [rep_simps]: "a \<notin> set as \<Longrightarrow> qpath (h(a := n)) p as = qpath h p as"
  by (induction as arbitrary: p) auto

lemma qpath_None [simp]: "qpath h None as \<longleftrightarrow> as = []"
  by (cases as) auto

lemma qpath_alloc: "qpath h p as \<Longrightarrow> a \<in> set as \<Longrightarrow> \<exists>n. h a = Some n"
  by (induction as arbitrary: p) auto

lemma qpath_snoc:
  assumes "qpath h p as" "as \<noteq> []" "distinct as" "h e = Some ne" "qe_prev ne = None"
    and "e \<notin> set as" "h (last as) = Some nl"
  shows "qpath (h(last as \<mapsto> nl\<lparr>qe_prev := Some e\<rparr>)) p (as @ [e])"
  using assms
proof (induction as arbitrary: p)
  case Nil
  then show ?case by simp
next
  case (Cons a as)
  show ?case
  proof (cases "as = []")
    case True
    with Cons.prems show ?thesis by auto
  next
    case False
    from Cons.prems obtain n where n: "h a = Some n" "qpath h (qe_prev n) as" "p = Some a"
      by auto
    have "last as \<noteq> a" using Cons.prems False by auto
    moreover have "qpath (h(last as \<mapsto> nl\<lparr>qe_prev := Some e\<rparr>)) (qe_prev n) (as @ [e])"
      using Cons.IH [of "qe_prev n"] Cons.prems False n by (simp del: fun_upd_apply)
    ultimately show ?thesis using n False by (simp del: fun_upd_apply add: fun_upd_other)
  qed
qed

lemma queue_rep_create: "queue_rep (queue_create, h) []"
  by (simp add: queue_rep_def queue_create_def)

lemma queue_rep_Nil: "queue_rep (q, h) [] \<longleftrightarrow> q = queue_create"
  by (cases q) (auto simp: queue_rep_def queue_create_def)

lemma queue_put_rep:
  assumes "queue_rep s as" "queue_fresh s as e"
  shows "\<exists>s'. queue_put s e = Some s' \<and> queue_rep s' (as @ [e])"
proof (cases "as = []")
  case True
  with assms show ?thesis
    by (cases s) (auto simp: queue_rep_def queue_fresh_def queue_put_def)
next
  case False
  obtain q h where s: "s = (q, h)" by (cases s)
  obtain nl where "h (last as) = Some nl"
    using assms(1) False qpath_alloc [of h "q_bottom q" as "last as"]
    by (auto simp: s queue_rep_def)
  with assms False show ?thesis
    using qpath_snoc [of h "q_bottom q" as e _ nl]
    by (auto simp: s queue_rep_def queue_fresh_def queue_put_def set_prev_def)
qed

lemma queue_cas_rep:
  assumes "queue_rep s as" "queue_fresh s as e"
  shows "\<exists>s'. queue_cas s e = Some s' \<and> queue_rep s' (e # as)"
proof (cases "as = []")
  case True
  with assms show ?thesis
    by (cases s) (auto simp: queue_rep_def queue_fresh_def queue_cas_def)
next
  case False
  with assms show ?thesis
    by (cases s) (auto simp: queue_rep_def queue_fresh_def queue_cas_def set_prev_def rep_simps)
qed

lemma queue_get_rep:
  assumes "queue_rep s (a # as)"
  shows "\<exists>s'. queue_get s = Some (Some a, s') \<and> queue_rep s' as \<and> snd s' = snd s"
  using assms by (cases s; cases as) (auto simp: queue_rep_def queue_get_def)

lemma queue_get_rep_Nil: "queue_rep s [] \<Longrightarrow> queue_get s = Some (None, s)"
  by (cases s) (auto simp: queue_rep_def queue_get_def)


lemma queue_fresh_frame:
  assumes "queue_fresh (q, h) as e" "e \<noteq> a" "set as' \<subseteq> insert a (set as)"
  shows "queue_fresh (q', h(a := n)) as' e"
  using assms by (auto simp: queue_fresh_def)

lemma queue_put_fresh:
  assumes "queue_rep s as" "queue_put s e = Some s'" "queue_fresh s as e'" "e' \<noteq> e"
  shows "queue_fresh s' (as @ [e]) e'"
  using assms
  by (cases s; cases "as = []")
     (auto simp: queue_rep_def queue_fresh_def queue_put_def set_prev_def split: option.splits)

lemma queue_cas_fresh:
  assumes "queue_rep s as" "queue_cas s e = Some s'" "queue_fresh s as e'" "e' \<noteq> e"
  shows "queue_fresh s' (e # as) e'"
  using assms
  by (cases s; cases "as = []")
     (auto simp: queue_rep_def queue_fresh_def queue_cas_def set_prev_def split: option.splits)

section \<open>The queue discipline as an interface\<close>

text \<open>
  The specification of a queue is a list: \<open>Put\<close> enters at the end, \<open>Cas\<close> (a synchronous
  request) enters at the front, \<open>Get\<close> leaves from the front. \<open>spec_run\<close> runs a sequence of
  operations on the list and collects what the \<open>Get\<close>s returned; \<open>q_exec\<close> runs the same
  sequence on an implementation.
\<close>

datatype 'e qop = Put 'e | Cas 'e | Get

fun spec_run :: "'e list \<Rightarrow> 'e qop list \<Rightarrow> 'e list \<times> 'e option list" where
  "spec_run xs [] = (xs, [])"
| "spec_run xs (Put e # ops) = spec_run (xs @ [e]) ops"
| "spec_run xs (Cas e # ops) = spec_run (e # xs) ops"
| "spec_run [] (Get # ops) = (let (ys, os) = spec_run [] ops in (ys, None # os))"
| "spec_run (x # xs) (Get # ops) = (let (ys, os) = spec_run xs ops in (ys, Some x # os))"

fun q_exec :: "('s \<Rightarrow> 'e \<Rightarrow> 's option) \<Rightarrow> ('s \<Rightarrow> 'e \<Rightarrow> 's option) \<Rightarrow> ('s \<Rightarrow> ('e option \<times> 's) option)
    \<Rightarrow> 's \<Rightarrow> 'e qop list \<Rightarrow> ('s \<times> 'e option list) option" where
  "q_exec put cas get s [] = Some (s, [])"
| "q_exec put cas get s (Put e # ops) = do { s' \<leftarrow> put s e; q_exec put cas get s' ops }"
| "q_exec put cas get s (Cas e # ops) = do { s' \<leftarrow> cas s e; q_exec put cas get s' ops }"
| "q_exec put cas get s (Get # ops) = do {
     (r, s') \<leftarrow> get s;
     (s'', os) \<leftarrow> q_exec put cas get s' ops;
     Some (s'', r # os) }"

fun entered :: "'e qop list \<Rightarrow> 'e list" where
  "entered [] = []"
| "entered (Put e # ops) = e # entered ops"
| "entered (Cas e # ops) = e # entered ops"
| "entered (Get # ops) = entered ops"

definition taken :: "'e option list \<Rightarrow> 'e list" where
  "taken os = concat (map (\<lambda>r. case r of None \<Rightarrow> [] | Some e \<Rightarrow> [e]) os)"

fun no_cas :: "'e qop list \<Rightarrow> bool" where
  "no_cas [] = True"
| "no_cas (Cas e # ops) = False"
| "no_cas (x # ops) = no_cas ops"

lemma taken_simps [simp]:
  "taken [] = []" "taken (None # os) = taken os" "taken (Some e # os) = e # taken os"
  by (simp_all add: taken_def)

lemma spec_run_fifo:
  "no_cas ops \<Longrightarrow> taken (snd (spec_run xs ops)) @ fst (spec_run xs ops) = xs @ entered ops"
  by (induction xs ops rule: spec_run.induct) (auto split: prod.splits)

lemma spec_run_mset:
  "mset (taken (snd (spec_run xs ops))) + mset (fst (spec_run xs ops)) = mset xs + mset (entered ops)"
  by (induction xs ops rule: spec_run.induct) (auto split: prod.splits)

locale work_queue =
  fixes put :: "'s \<Rightarrow> 'e \<Rightarrow> 's option"
    and cas :: "'s \<Rightarrow> 'e \<Rightarrow> 's option"
    and get :: "'s \<Rightarrow> ('e option \<times> 's) option"
    and isempty :: "'s \<Rightarrow> bool"
    and rep :: "'s \<Rightarrow> 'e list \<Rightarrow> bool"
    and fresh :: "'s \<Rightarrow> 'e list \<Rightarrow> 'e \<Rightarrow> bool"
  assumes put_law: "rep s xs \<Longrightarrow> fresh s xs e \<Longrightarrow> \<exists>s'. put s e = Some s' \<and> rep s' (xs @ [e])"
    and cas_law: "rep s xs \<Longrightarrow> fresh s xs e \<Longrightarrow> \<exists>s'. cas s e = Some s' \<and> rep s' (e # xs)"
    and get_nil: "rep s [] \<Longrightarrow> get s = Some (None, s)"
    and get_cons: "rep s (x # xs) \<Longrightarrow> \<exists>s'. get s = Some (Some x, s') \<and> rep s' xs"
    and isempty_law: "rep s xs \<Longrightarrow> isempty s \<longleftrightarrow> xs = []"
    and put_fresh: "rep s xs \<Longrightarrow> put s e = Some s' \<Longrightarrow> fresh s xs e' \<Longrightarrow> e' \<noteq> e \<Longrightarrow> fresh s' (xs @ [e]) e'"
    and cas_fresh: "rep s xs \<Longrightarrow> cas s e = Some s' \<Longrightarrow> fresh s xs e' \<Longrightarrow> e' \<noteq> e \<Longrightarrow> fresh s' (e # xs) e'"
    and get_fresh: "rep s (x # xs) \<Longrightarrow> get s = Some (r, s') \<Longrightarrow> fresh s (x # xs) e' \<Longrightarrow> fresh s' xs e'"
begin

text \<open>Every run of an implementation follows the list specification and never gets stuck.\<close>

lemma exec_refines_spec:
  assumes "rep s xs" "distinct (entered ops)" "\<And>e. e \<in> set (entered ops) \<Longrightarrow> fresh s xs e"
  shows "\<exists>s'. q_exec put cas get s ops = Some (s', snd (spec_run xs ops)) \<and> rep s' (fst (spec_run xs ops))"
  using assms
proof (induction xs ops arbitrary: s rule: spec_run.induct)
  case (1 xs)
  then show ?case by simp
next
  case (2 xs e ops)
  then obtain s' where s': "put s e = Some s'" "rep s' (xs @ [e])"
    using put_law by force
  with 2 have "\<And>e'. e' \<in> set (entered ops) \<Longrightarrow> fresh s' (xs @ [e]) e'"
    by (auto intro!: put_fresh)
  with 2 s' show ?case by simp
next
  case (3 xs e ops)
  then obtain s' where s': "cas s e = Some s'" "rep s' (e # xs)"
    using cas_law by force
  with 3 have "\<And>e'. e' \<in> set (entered ops) \<Longrightarrow> fresh s' (e # xs) e'"
    by (auto intro!: cas_fresh)
  with 3 s' show ?case by simp
next
  case (4 ops)
  then obtain s' where "q_exec put cas get s ops = Some (s', snd (spec_run [] ops))"
    "rep s' (fst (spec_run [] ops))" by auto
  with 4 show ?case by (auto simp: get_nil Let_def split: prod.splits)
next
  case (5 x xs ops)
  then obtain s' where s': "get s = Some (Some x, s')" "rep s' xs"
    using get_cons by force
  have fr: "\<And>e'. e' \<in> set (entered ops) \<Longrightarrow> fresh s' xs e'"
    using get_fresh [OF "5.prems"(1) s'(1)] "5.prems"(3) by simp
  have "distinct (entered ops)" using "5.prems"(2) by simp
  from "5.IH" [OF s'(2) this fr] obtain s'' where "q_exec put cas get s' ops = Some (s'', snd (spec_run xs ops))"
    "rep s'' (fst (spec_run xs ops))" by blast
  with s' show ?case by (auto split: prod.splits)
qed

lemma exec_fifo:
  assumes "rep s xs" "distinct (entered ops)" "\<And>e. e \<in> set (entered ops) \<Longrightarrow> fresh s xs e"
    and "no_cas ops"
  shows "\<exists>s' os ys. q_exec put cas get s ops = Some (s', os) \<and> rep s' ys \<and> taken os @ ys = xs @ entered ops"
  using exec_refines_spec [OF assms(1-3)] spec_run_fifo [OF assms(4), of xs] by blast

lemma exec_conserves:
  assumes "rep s xs" "distinct (entered ops)" "\<And>e. e \<in> set (entered ops) \<Longrightarrow> fresh s xs e"
  shows "\<exists>s' os ys. q_exec put cas get s ops = Some (s', os) \<and> rep s' ys \<and>
           mset (taken os) + mset ys = mset xs + mset (entered ops)"
  using exec_refines_spec [OF assms] spec_run_mset [of xs ops] by blast

end

interpretation sq: work_queue queue_put queue_cas queue_get queue_isempty queue_rep queue_fresh
proof (unfold_locales, goal_cases)
  case (1 s xs e)
  then show ?case by (rule queue_put_rep)
next
  case (2 s xs e)
  then show ?case by (rule queue_cas_rep)
next
  case (3 s)
  then show ?case by (rule queue_get_rep_Nil)
next
  case (4 s x xs)
  then show ?case using queue_get_rep by blast
next
  case (5 s xs)
  then show ?case by (cases s) (auto simp: queue_rep_def queue_isempty_def)
next
  case (6 s xs e s' e')
  then show ?case by (rule queue_put_fresh)
next
  case (7 s xs e s' e')
  then show ?case by (rule queue_cas_fresh)
next
  case (8 s x xs r s' e')
  then show ?case using queue_get_rep [of s x xs] by (auto simp: queue_fresh_def)
qed

section \<open>Freeing a queue\<close>

fun release_all :: "('a \<Rightarrow> 'w \<Rightarrow> 'w option) \<Rightarrow> 'a list \<Rightarrow> 'w \<Rightarrow> 'w option" where
  "release_all rel [] w = Some w"
| "release_all rel (d # ds) w = do { w' \<leftarrow> rel d w; release_all rel ds w' }"

definition payloads :: "'a qheap \<Rightarrow> addr list \<Rightarrow> 'a list" where
  "payloads h as = map (\<lambda>a. qe_data (the (h a))) as"

lemma payloads_upd: "a \<notin> set as \<Longrightarrow> payloads (h(a := n)) as = payloads h as"
  by (auto simp: payloads_def)

lemma queue_free_rep:
  "queue_rep s as \<Longrightarrow> release_all rel (payloads (snd s) as) w = Some w' \<Longrightarrow>
     queue_free rel s w = Some ((snd s) |` (- set as), w')"
proof (induction as arbitrary: s w)
  case Nil
  then show ?case
    by (subst queue_free.simps) (simp add: queue_get_rep_Nil restrict_map_def payloads_def)
next
  case (Cons a as)
  then obtain s' where s': "queue_get s = Some (Some a, s')" "queue_rep s' as" "snd s' = snd s"
    using queue_get_rep by blast
  obtain q h where sh: "s' = (q, h)" by (cases s')
  have h: "snd s = h" using s'(3) sh by simp
  obtain n where n: "h a = Some n"
    using Cons.prems(1) h by (cases s) (auto simp: queue_rep_def)
  have "a \<notin> set as" using Cons.prems by (cases s) (auto simp: queue_rep_def)
  then have rep: "queue_rep (q, h(a := None)) as"
    and pay: "payloads (h(a := None)) as = payloads h as"
    using s'(2) by (auto simp: sh queue_rep_def rep_simps payloads_upd)
  obtain w1 where w1: "rel (qe_data n) w = Some w1" "release_all rel (payloads h as) w1 = Some w'"
    using Cons.prems(2) n h by (auto simp: payloads_def)
  have "queue_free rel (q, h(a := None)) w1 = Some (h(a := None) |` (- set as), w')"
    using Cons.IH [OF rep, of w1] w1(2) by (simp only: snd_conv pay)
  moreover have "h(a := None) |` (- set as) = h |` (- set (a # as))"
    by (auto simp: restrict_map_def)
  ultimately show ?case
    using s'(1) sh n h w1 by (subst queue_free.simps) (simp add: queue_entry_free_def)
qed

section \<open>Properties\<close>

text \<open>
  C21. Every sequence of \<open>queue_put\<close>, \<open>queue_cas\<close> and \<open>queue_get\<close> calls on the server's
  linked queue returns exactly what the list specification returns and leaves the queue holding
  the specification's list; no call dereferences a bad pointer.
\<close>

theorem queue_refines_list:
  assumes "queue_rep s xs" "distinct (entered ops)" "\<And>e. e \<in> set (entered ops) \<Longrightarrow> queue_fresh s xs e"
  shows "\<exists>s'. q_exec queue_put queue_cas queue_get s ops = Some (s', snd (spec_run xs ops)) \<and>
              queue_rep s' (fst (spec_run xs ops))"
  using assms by (rule sq.exec_refines_spec)

definition demo_heap :: "nat qheap" where
  "demo_heap = [1 \<mapsto> \<lparr>qe_data = 10, qe_prev = None\<rparr>, 2 \<mapsto> \<lparr>qe_data = 20, qe_prev = None\<rparr>,
                3 \<mapsto> \<lparr>qe_data = 30, qe_prev = None\<rparr>]"

lemma demo_fresh: "e \<in> {1, 2, 3} \<Longrightarrow> queue_fresh (queue_create, demo_heap) [] e"
  by (auto simp: queue_fresh_def demo_heap_def)

theorem queue_refines_list_witness:
  "\<exists>s'. q_exec queue_put queue_cas queue_get (queue_create, demo_heap)
          [Put 1, Put 2, Cas 3, Get, Get, Get, Get]
        = Some (s', [Some 3, Some 1, Some 2, None]) \<and> queue_rep s' []"
  using queue_refines_list [OF queue_rep_create, of "[Put 1, Put 2, Cas 3, Get, Get, Get, Get]" demo_heap]
    demo_fresh by force

text \<open>
  Without synchronous requests the queue is first-in first-out: what the \<open>queue_get\<close>s
  returned, followed by what is still queued, is what was queued before followed by what was
  put, in order, for every interleaving of the callers.
\<close>

theorem queue_fifo:
  assumes "queue_rep s xs" "distinct (entered ops)" "\<And>e. e \<in> set (entered ops) \<Longrightarrow> queue_fresh s xs e"
    and "no_cas ops"
  shows "\<exists>s' os ys. q_exec queue_put queue_cas queue_get s ops = Some (s', os) \<and> queue_rep s' ys \<and>
           taken os @ ys = xs @ entered ops"
  using assms by (rule sq.exec_fifo)

theorem queue_fifo_witness:
  "\<exists>s' os ys. q_exec queue_put queue_cas queue_get (queue_create, demo_heap) [Put 1, Get, Put 2, Put 3, Get]
        = Some (s', os) \<and> queue_rep s' ys \<and> taken os @ ys = [1, 2, 3]"
  using queue_fifo [OF queue_rep_create, of "[Put 1, Get, Put 2, Put 3, Get]" demo_heap] demo_fresh
  by force

text \<open>
  C36. \<open>queue_free\<close> terminates on every well-formed queue, frees each of its entries exactly once
  after releasing what the entry owns, in queue order, and touches no other block.
\<close>

theorem queue_free_frees:
  assumes "queue_rep (q, h) as" "release_all rel (payloads h as) w = Some w'"
  shows "queue_free rel (q, h) w = Some (h |` (- set as), w')"
  using queue_free_rep [OF assms(1), of rel w w'] assms(2) by simp

theorem queue_free_frees_witness:
  "queue_free (\<lambda>d ds. Some (ds @ [d])) (\<lparr>q_size = 2, q_top = Some 2, q_bottom = Some 1\<rparr>,
      [1 \<mapsto> \<lparr>qe_data = ''a'', qe_prev = Some 2\<rparr>, 2 \<mapsto> \<lparr>qe_data = ''b'', qe_prev = None\<rparr>]) []
    = Some ([1 \<mapsto> \<lparr>qe_data = ''a'', qe_prev = Some 2\<rparr>, 2 \<mapsto> \<lparr>qe_data = ''b'', qe_prev = None\<rparr>]
              |` (- {1, 2}), [''a'', ''b''])"
  using queue_free_frees [of "\<lparr>q_size = 2, q_top = Some 2, q_bottom = Some 1\<rparr>"
      "[1 \<mapsto> \<lparr>qe_data = ''a'', qe_prev = Some 2\<rparr>, 2 \<mapsto> \<lparr>qe_data = ''b'', qe_prev = None\<rparr>]"
      "[1, 2]" "\<lambda>d ds. Some (ds @ [d])" "[]" "[''a'', ''b'']"]
  by (simp add: queue_rep_def payloads_def)

end
