(* ===== verification/Client_Queue.thy ===== *)
theory Client_Queue
  imports Server_Queue Hdf
begin

text \<open>
  The callback queue of the client (client/mscli.c): messages the server has pushed and events of the
  connection, from the receiving thread to the callback thread. It is linked like the server's queue.
\<close>

section \<open>Operations\<close>

record msdata =
  mq_ename :: "string option"
  mq_cmd :: "string option"
  mq_hdfrcv :: hdf
  mq_hdfsnd :: hdf

definition msqueue_create :: "bool \<Rightarrow> queue option" where
  "msqueue_create ok = (if ok then Some \<lparr>q_size = 0, q_top = None, q_bottom = None\<rparr> else None)"

definition msqueue_isempty :: "queue \<Rightarrow> bool" where
  "msqueue_isempty q \<longleftrightarrow> q_size q = 0"

definition msqueue_entry_create :: "bool \<Rightarrow> msdata queue_entry option" where
  "msqueue_entry_create ok =
     (if \<not> ok then None
      else Some \<lparr>qe_data = \<lparr>mq_ename = None, mq_cmd = None, mq_hdfrcv = hdf_init, mq_hdfsnd = hdf_init\<rparr>, qe_prev = None\<rparr>)"

definition msqueue_get :: "queue \<times> 'a qheap \<Rightarrow> (addr option \<times> (queue \<times> 'a qheap)) option" where
  "msqueue_get s = (case s of (q, h) \<Rightarrow>
     (case q_bottom q of
        None \<Rightarrow> Some (None, (q, h))
      | Some e \<Rightarrow> do {
          n \<leftarrow> h e;
          let t = qe_prev n;
          let q1 = q\<lparr>q_bottom := t\<rparr>;
          let q2 = (if t = None then q1\<lparr>q_top := None\<rparr> else q1);
          Some (Some e, (q2\<lparr>q_size := q_size q2 - 1\<rparr>, h)) }))"

definition msqueue_put :: "queue \<times> 'a qheap \<Rightarrow> addr \<Rightarrow> (queue \<times> 'a qheap) option" where
  "msqueue_put s e = (case s of (q, h) \<Rightarrow>
     (case q_top q of
        None \<Rightarrow> Some (q\<lparr>q_top := Some e, q_bottom := Some e, q_size := q_size q + 1\<rparr>, h)
      | Some t \<Rightarrow> do {
          h' \<leftarrow> set_prev t (Some e) h;
          Some (q\<lparr>q_top := Some e, q_size := q_size q + 1\<rparr>, h') }))"

definition msqueue_cas :: "queue \<times> 'a qheap \<Rightarrow> addr \<Rightarrow> (queue \<times> 'a qheap) option" where
  "msqueue_cas s e = (case s of (q, h) \<Rightarrow>
     (case q_top q of
        None \<Rightarrow> Some (q\<lparr>q_top := Some e, q_bottom := Some e, q_size := q_size q + 1\<rparr>, h)
      | Some t \<Rightarrow> do {
          h' \<leftarrow> set_prev e (q_bottom q) h;
          Some (q\<lparr>q_bottom := Some e, q_size := q_size q + 1\<rparr>, h') }))"

partial_function (option) msqueue_destroy :: "queue \<times> 'a qheap \<Rightarrow> 'a qheap option" where
  [code]: "msqueue_destroy s = do {
     (r, s1) \<leftarrow> msqueue_get s;
     (case r of
        None \<Rightarrow> Some (snd s1)
      | Some e \<Rightarrow> msqueue_destroy (fst s1, (snd s1)(e := None))) }"

section \<open>It is the server's queue\<close>

lemma msqueue_same:
  "msqueue_put = queue_put" "msqueue_cas = queue_cas" "msqueue_get = queue_get" "(\<lambda>s. msqueue_isempty (fst s)) = queue_isempty"
  by (simp_all add: fun_eq_iff msqueue_put_def queue_put_def msqueue_cas_def queue_cas_def msqueue_get_def queue_get_def
      msqueue_isempty_def queue_isempty_def)

interpretation mq: work_queue msqueue_put msqueue_cas msqueue_get "\<lambda>s. msqueue_isempty (fst s)" queue_rep queue_fresh
  unfolding msqueue_same by (rule sq.work_queue_axioms)

lemma msqueue_destroy_all:
  assumes "queue_rep (q, h) as"
  shows "\<exists>h'. msqueue_destroy (q, h) = Some h' \<and> dom h' = dom h - set as"
  using assms
proof (induction as arbitrary: q h)
  case Nil
  then show ?case using mq.get_nil [OF Nil] by (subst msqueue_destroy.simps) simp
next
  case (Cons a as)
  from queue_get_rep [OF Cons.prems] obtain q' where g: "msqueue_get (q, h) = Some (Some a, (q', h))" "queue_rep (q', h) as"
    unfolding msqueue_same by (metis prod.collapse snd_conv)
  have "a \<notin> set as" using Cons.prems by (simp add: queue_rep_def)
  then have "queue_rep (q', h(a := None)) as" using g(2) by (simp add: queue_rep_def rep_simps)
  from Cons.IH [OF this] obtain h' where "msqueue_destroy (q', h(a := None)) = Some h'" "dom h' = dom (h(a := None)) - set as" by blast
  then show ?case using g(1) by (subst msqueue_destroy.simps) auto
qed

end
