(* ===== verification/Client_Net.thy ===== *)
theory Client_Net
  imports Packet Neo_Hash Client_Queue Neo_Err
begin

text \<open>
  The client library's side of a connection (client/internal.c, client/tcp.c, client/moc.c): the list
  of servers of an event and the choice among them, sending a request and receiving its reply.

  The network is part of the state: what the next \<open>recv\<close> calls find (bytes, or an error; at the end of
  the list the peer has closed), the answers of the next \<open>send\<close> calls (a number of bytes, or a negated error) and the outcomes of the next
  attempts to connect, with \<open>errno\<close> and the log of what was sent and closed.
\<close>

section \<open>Data\<close>

datatype rx = Got bytes | Fail int

record net =
  nt_in :: "rx list"
  nt_sends :: "int list"
  nt_conns :: "(int \<times> bool) list"
  nt_out :: "(int \<times> bytes) list"
  nt_closed :: "int list"
  nt_errno :: int
  nt_rnd :: "nat \<Rightarrow> nat"

record moc_srv =
  sr_fd :: int
  sr_addr :: u32
  sr_port :: u16
  sr_nblock :: bool
  sr_tv :: "int \<times> int"
  sr_buf :: "bytes option"
  sr_len :: nat
  sr_pktsize :: nat
  sr_excess :: nat

record moc_t =
  mv_ename :: string
  mv_cmd :: u16
  mv_flags :: u16
  mv_errcode :: int
  mv_psize :: nat
  mv_servers :: "moc_srv list"
  mv_rcvbuf :: bytes
  mv_payload :: bytes
  mv_hdfsnd :: hdf
  mv_hdfrcv :: hdf

abbreviation (input) EAGAIN :: int where "EAGAIN \<equiv> 11"
abbreviation (input) EPIPE :: int where "EPIPE \<equiv> 32"
abbreviation (input) FLAGS_SYNC :: u16 where "FLAGS_SYNC \<equiv> 2"
abbreviation (input) REP_OK :: int where "REP_OK \<equiv> 1000"
abbreviation (input) TCP_MSG_OFFSET :: nat where "TCP_MSG_OFFSET \<equiv> 4"

definition mevt_create :: "bool \<Rightarrow> bool \<Rightarrow> string \<Rightarrow> moc_t option" where
  "mevt_create evt_ok bufs_ok name =
     (if \<not> evt_ok \<or> \<not> bufs_ok then None
      else Some \<lparr>mv_ename = name, mv_cmd = 0, mv_flags = 0, mv_errcode = 0, mv_psize = 0, mv_servers = [],
        mv_rcvbuf = replicate MAX_PACKET_LEN NUL, mv_payload = replicate MAX_PACKET_LEN NUL,
        mv_hdfsnd = hdf_init, mv_hdfrcv = hdf_init\<rparr>)"

section \<open>Choosing a server\<close>

text \<open>
  The sum reads 16 bits at each position but moves on by one byte while the size goes down by two;
  a single remaining byte is the one at the position reached.
\<close>

function checksum_loop :: "bytes \<Rightarrow> nat \<Rightarrow> nat \<Rightarrow> u32 \<Rightarrow> u32 option" where
  "checksum_loop buf i bsize acc =
     (if bsize > 1 then
        (if i + 1 < length buf
         then checksum_loop buf (i + 1) (bsize - 2) (acc + of_nat (of_char (buf ! i) + 256 * of_char (buf ! (i + 1))))
         else None)
      else if bsize > 0 then (if i < length buf then Some (acc + of_nat (of_char (buf ! i))) else None)
      else Some acc)"
  by auto
termination
  by (relation "measure (\<lambda>(buf, i, bsize, acc). bsize)") auto

function checksum_fold :: "u32 \<Rightarrow> u32" where
  "checksum_fold acc = (if drop_bit 16 acc \<noteq> 0 then checksum_fold ((acc AND 0xffff) + drop_bit 16 acc) else acc)"
  by auto
termination
proof (relation "measure unat", goal_cases)
  case 1
  then show ?case by simp
next
  case (2 acc)
  have split: "unat acc = 65536 * (unat acc div 65536) + unat acc mod 65536" by simp
  have d: "unat (drop_bit 16 acc) = unat acc div 65536" using unat_drop_bit_eq [of 16 acc] by (simp add: drop_bit_eq_div)
  have "acc AND 0xffff = take_bit 16 acc" by (simp add: take_bit_eq_mask mask_eq_exp_minus_1)
  then have m: "unat (acc AND 0xffff) = unat acc mod 65536"
    using unsigned_take_bit_eq [of 16 acc, where 'a = nat] unfolding take_bit_eq_mod [of 16 "unat acc"] by simp
  have "unat acc div 65536 \<noteq> 0" using 2 d by (metis unsigned_0 unsigned_word_eqI)
  moreover have "unat ((acc AND 0xffff) + drop_bit 16 acc) \<le> unat acc mod 65536 + unat acc div 65536"
    unfolding d [symmetric] m [symmetric] by (simp add: unat_word_ariths)
  ultimately have "unat ((acc AND 0xffff) + drop_bit 16 acc) < unat acc" using split by linarith
  then show ?case by simp
qed

declare checksum_loop.simps [simp del] checksum_fold.simps [simp del]

definition checksum :: "bytes \<Rightarrow> u32 option" where
  "checksum key = do { acc \<leftarrow> checksum_loop key 0 (length key) 0; Some (NOT (checksum_fold acc)) }"

text \<open>A key names the server at the index it selects; \<open>None\<close> inside: there is no server.\<close>

definition select_srv :: "moc_srv list \<Rightarrow> bytes \<Rightarrow> nat option option" where
  "select_srv servers key =
     (if servers = [] then Some None
      else do { c \<leftarrow> checksum key; Some (Some (unat c mod length servers)) })"

definition compare_servers :: "moc_srv \<Rightarrow> moc_srv \<Rightarrow> int" where
  "compare_servers s1 s2 =
     (if sr_addr s1 < sr_addr s2 then -1
      else if sr_addr s1 = sr_addr s2 then
        (if sr_port s1 < sr_port s2 then -1 else if sr_port s1 = sr_port s2 then 0 else 1)
      else 1)"

section \<open>Connecting\<close>

text \<open>One attempt: the socket's number, or an error, and whether the rest of the set-up succeeds.\<close>

definition try_connect :: "net \<Rightarrow> (int \<times> bool) \<times> net" where
  "try_connect n = (case nt_conns n of [] \<Rightarrow> ((-1, False), n) | c # cs \<Rightarrow> (c, n\<lparr>nt_conns := cs\<rparr>))"

definition close_fd :: "int \<Rightarrow> net \<Rightarrow> net" where
  "close_fd fd n = n\<lparr>nt_closed := nt_closed n @ [fd]\<rparr>"

text \<open>
  \<open>qsort\<close> is the argument \<open>qs\<close>; the flags tell whether growing and shrinking the array succeed, and
  \<open>tv\<close> is what the new entry has as its timeout: the argument or, when that is NULL, what the memory held.
\<close>

definition add_tcp_server_addr :: "(moc_srv list \<Rightarrow> moc_srv list) \<Rightarrow> bool \<Rightarrow> bool \<Rightarrow> u32 \<Rightarrow> u16 \<Rightarrow> bool \<Rightarrow> int \<times> int \<Rightarrow>
    moc_t \<Rightarrow> net \<Rightarrow> bool \<times> moc_t \<times> net" where
  "add_tcp_server_addr qs grow_ok shrink_ok inetaddr port nblock tv evt n =
     (let ((fd, ok), n1) = try_connect n in
      if fd < 0 then (False, evt, n1)
      else if \<not> grow_ok then (False, evt, close_fd fd n1)
      else if ok then
        (True, evt\<lparr>mv_servers := qs (mv_servers evt @
           [\<lparr>sr_fd = fd, sr_addr = inetaddr, sr_port = port, sr_nblock = nblock,
             sr_tv = tv, sr_buf = None, sr_len = 0, sr_pktsize = 0, sr_excess = 0\<rparr>])\<rparr>, n1)
      else (False, if shrink_ok then evt else evt\<lparr>mv_servers := []\<rparr>, close_fd fd n1))"

definition tcp_server_reconnect :: "moc_srv \<Rightarrow> net \<Rightarrow> bool \<times> moc_srv \<times> net" where
  "tcp_server_reconnect srv n =
     (let ((fd, ok), n1) = try_connect n in
      if fd < 0 then (False, srv, n1)
      else if ok then (True, srv\<lparr>sr_fd := fd, sr_buf := None, sr_len := 0, sr_pktsize := 0, sr_excess := 0\<rparr>, n1)
      else (False, srv, close_fd fd n1))"

section \<open>Sending and receiving\<close>

text \<open>One \<open>send\<close> and one \<open>recv\<close>. A \<open>recv\<close> of fewer bytes than there are leaves the rest for the next.\<close>

definition net_send :: "int \<Rightarrow> bytes \<Rightarrow> net \<Rightarrow> int \<times> net" where
  "net_send fd bs n =
     (case nt_sends n of
        [] \<Rightarrow> (int (length bs), n\<lparr>nt_out := nt_out n @ [(fd, bs)]\<rparr>)
      | a # as \<Rightarrow>
          if a < 0 then (-1, n\<lparr>nt_sends := as, nt_errno := -a\<rparr>)
          else (int (min (nat a) (length bs)), n\<lparr>nt_sends := as, nt_out := nt_out n @ [(fd, take (nat a) bs)]\<rparr>))"

definition net_recv :: "nat \<Rightarrow> net \<Rightarrow> int \<times> bytes \<times> net" where
  "net_recv cnt n =
     (case nt_in n of
        [] \<Rightarrow> (0, [], n)
      | Fail e # rs \<Rightarrow> (-1, [], n\<lparr>nt_in := rs, nt_errno := e\<rparr>)
      | Got bs # rs \<Rightarrow>
          (int (min cnt (length bs)), take cnt bs,
           n\<lparr>nt_in := (if length bs \<le> cnt then rs else Got (drop cnt bs) # rs)\<rparr>))"

text \<open>
  \<open>srecv\<close> of \<open>cnt\<close> bytes to the address \<open>off\<close> of the buffer \<open>m\<close>, with \<open>c\<close> of them read: the result, the buffer
  and the network. An error half way gives up what was read.
\<close>

function srecv_loop :: "nat \<Rightarrow> nat \<Rightarrow> nat \<Rightarrow> bytes \<Rightarrow> net \<Rightarrow> (int \<times> bytes \<times> net) option" where
  "srecv_loop cnt off c m n =
     (if c < cnt then
        let rv = fst (net_recv (cnt - c) n); bs = fst (snd (net_recv (cnt - c) n)); n1 = snd (snd (net_recv (cnt - c) n)) in
        (case wr m (off + c) bs of
           None \<Rightarrow> None
         | Some m1 \<Rightarrow>
             if rv = int cnt then Some (int cnt, m1, n1)
             else if rv < 0 then Some (rv, m1, n1)
             else if rv = 0 then Some (int c, m1, n1)
             else srecv_loop cnt off (c + nat rv) m1 n1)
      else Some (int cnt, m, n))"
  by auto
termination
  by (relation "measure (\<lambda>(cnt, off, c, m, n). cnt - c)") auto

declare srecv_loop.simps [simp del]

definition srecv :: "nat \<Rightarrow> nat \<Rightarrow> bytes \<Rightarrow> net \<Rightarrow> (int \<times> bytes \<times> net) option" where
  "srecv cnt off m n = srecv_loop cnt off 0 m n"

function ssend_loop :: "int \<Rightarrow> bytes \<Rightarrow> nat \<Rightarrow> net \<Rightarrow> int \<times> net" where
  "ssend_loop fd buf c n =
     (if c < length buf then
        let rv = fst (net_send fd (drop c buf) n); n1 = snd (net_send fd (drop c buf) n) in
        if rv = int (length buf) then (int (length buf), n1)
        else if rv < 0 then (rv, n1)
        else if rv = 0 then (int c, n1)
        else ssend_loop fd buf (c + nat rv) n1
      else (int (length buf), n))"
  by auto
termination
  by (relation "measure (\<lambda>(fd, buf, c, n). length buf - c)") auto

declare ssend_loop.simps [simp del]

definition ssend :: "int \<Rightarrow> bytes \<Rightarrow> net \<Rightarrow> int \<times> net" where
  "ssend fd buf n = ssend_loop fd buf 0 n"

text \<open>
  \<open>recv_msg\<close> into a buffer of \<open>bsize\<close> bytes. When the peer closes early the message is cut short, and
  with fewer than four bytes its size is read from what the buffer had before.
\<close>

definition recv_msg :: "bytes \<Rightarrow> nat \<Rightarrow> net \<Rightarrow> (int \<times> bytes \<times> net) option" where
  "recv_msg m bsize n = do {
     let (rv, bs, n1) = net_recv bsize n;
     m1 \<leftarrow> wr m 0 bs;
     if rv \<le> 0 then Some (rv, m1, n1)
     else do {
       (t, m2, n2) \<leftarrow> (if rv < 4 then srecv (nat (4 - rv)) (nat rv) m1 n1 else Some (0, m1, n1));
       if rv < 4 \<and> t \<le> 0 then Some (t, m2, n2)
       else do {
         let rv2 = rv + t;
         msgsize \<leftarrow> rd32 m2 0;
         if unat msgsize > bsize then Some (-1, m2, n2)
         else if rv2 < int (unat msgsize) then do {
           (t2, m3, n3) \<leftarrow> srecv (nat (int (unat msgsize) - rv2)) (nat rv2) m2 n2;
           Some (if t2 \<le> 0 then t2 else rv2 + t2, m3, n3) }
         else Some (rv2, m2, n2) } } }"

section \<open>The state of the library\<close>

text \<open>
  What a \<open>moc_arg\<close> holds, with the counter of requests, the network and the outcomes of the next
  allocations (used up: they succeed): events by name, callbacks by name and command, and the callback
  queue.
\<close>

record moc_arg =
  ma_evth :: "(string, addr) ne_hash"
  ma_evts :: "addr \<Rightarrow> moc_t option"
  ma_cbkh :: "(string, nat) ne_hash"
  ma_queue :: queue
  ma_heap :: "msdata qheap"
  ma_next :: addr
  ma_reqid :: u32
  ma_net :: net
  ma_mem :: "bool list"

definition on_net :: "(net \<Rightarrow> net) \<Rightarrow> moc_arg \<Rightarrow> moc_arg" where
  "on_net f arg = arg\<lparr>ma_net := f (ma_net arg)\<rparr>"

definition arg_malloc :: "moc_arg \<Rightarrow> bool \<times> moc_arg" where
  "arg_malloc arg = (case ma_mem arg of [] \<Rightarrow> (True, arg) | b # bs \<Rightarrow> (b, arg\<lparr>ma_mem := bs\<rparr>))"

text \<open>A new entry at the end of the callback queue.\<close>

definition put_callback :: "msdata \<Rightarrow> moc_arg \<Rightarrow> moc_arg option" where
  "put_callback d arg = do {
     let e = ma_next arg;
     (q, h) \<leftarrow> msqueue_put (ma_queue arg, (ma_heap arg)(e \<mapsto> \<lparr>qe_data = d, qe_prev = None\<rparr>)) e;
     Some (arg\<lparr>ma_queue := q, ma_heap := h, ma_next := e + 1\<rparr>) }"

abbreviation (input) SBSIZE :: nat where "SBSIZE \<equiv> 69632"

text \<open>
  \<open>tcp_srv_send\<close> of the first \<open>bsize\<close> bytes of a buffer, after their number has been written to its front.
  On a closed connection it reconnects, tells the application by a callback and then sends.
\<close>

definition tcp_srv_send :: "string \<Rightarrow> moc_srv \<Rightarrow> bytes \<Rightarrow> nat \<Rightarrow> moc_arg \<Rightarrow> (bool \<times> moc_srv \<times> bytes \<times> moc_arg) option" where
  "tcp_srv_send ename srv buf bsize arg = do {
     buf1 \<leftarrow> wr buf 0 (be32 (of_nat bsize));
     if sr_fd srv \<le> 0 then do {
       let (ok, srv1, n1) = tcp_server_reconnect srv (ma_net arg);
       if bsize > SBSIZE \<or> bsize > length buf1 then None
       else do {
         let (got, arg1) = arg_malloc (arg\<lparr>ma_net := n1\<rparr>);
         if \<not> got then Some (False, srv1, buf1, arg1)
         else do {
           (r, hdf) \<leftarrow> hdf_set_value hdf_init [] ''success'' (Some (if ok then ''1'' else ''0''));
           arg2 \<leftarrow> put_callback \<lparr>mq_ename = Some ename, mq_cmd = Some ''_reconnect'', mq_hdfrcv = hdf, mq_hdfsnd = hdf_init\<rparr> arg1;
           if ok then
             (let (rv, n2) = ssend (sr_fd srv1) (take bsize buf1) (ma_net arg2) in
              Some (rv = int bsize, srv1, buf1, arg2\<lparr>ma_net := n2\<rparr>))
           else Some (False, srv1, buf1, arg2) } } }
     else if bsize > length buf1 then None
     else
       (let (rv, n1) = ssend (sr_fd srv) (take bsize buf1) (ma_net arg) in
        if rv = int bsize then Some (True, srv, buf1, arg\<lparr>ma_net := n1\<rparr>)
        else if rv < 0 \<and> nt_errno n1 = EPIPE
        then Some (False, srv\<lparr>sr_fd := -1\<rparr>, buf1, arg\<lparr>ma_net := close_fd (sr_fd srv) n1\<rparr>)
        else Some (False, srv, buf1, arg\<lparr>ma_net := n1\<rparr>)) }"

text \<open>
  \<open>tcp_get_rep\<close>: the reply code, or \<open>-1\<close>, the size of the payload at \<open>m + 12\<close>, and the rest. Replies
  to earlier requests are dropped.
\<close>

partial_function (option) tcp_get_rep :: "u32 \<Rightarrow> moc_srv \<Rightarrow> bytes \<Rightarrow> nat \<Rightarrow> net \<Rightarrow> (u32 \<times> nat \<times> moc_srv \<times> bytes \<times> net) option" where
  [code]: "tcp_get_rep reqid srv m bsize n = do {
     (rv, m1, n1) \<leftarrow> recv_msg m bsize n;
     if rv \<le> 0 then
       (if nt_errno n1 \<noteq> EAGAIN then Some (-1, 0, srv\<lparr>sr_fd := -1\<rparr>, m1, close_fd (sr_fd srv) n1)
        else Some (-1, 0, srv, m1, n1))
     else do {
       i \<leftarrow> rd32 m1 4;
       reply \<leftarrow> rd32 m1 8;
       if i < reqid then tcp_get_rep reqid srv m1 bsize n1
       else Some (reply, size_sub (nat rv) 12, srv, m1, n1) } }"

section \<open>A request\<close>

definition no_response :: string where
  "no_response = map char_of [0xe6, 0x9c, 0x8d, 0xe5, 0x8a, 0xa1, 0xe5, 0x99, 0xa8, 0xe6, 0x9a, 0x82, 0xe6, 0x97, 0xa0, 0xe5, 0x93, 0x8d, 0xe5, 0xba, 0x94, 0xef, 0xbc, 0x8c, 0xe8, 0xaf, 0xb7, 0xe7, 0xa8, 0x8d, 0xe5, 0x90, 0x8e, 0xe5, 0x86, 0x8d, 0xe8, 0xaf, 0x95 :: nat]"

definition next_reqid :: "u32 \<Rightarrow> u32" where
  "next_reqid g = (if g > 0x0FFFFFFC then 1 else g + 1)"

definition pick_server :: "moc_t \<Rightarrow> bytes option \<Rightarrow> nat option" where
  "pick_server evt key =
     (case key of
        None \<Rightarrow> (if mv_servers evt = [] then None else Some 0)
      | Some k \<Rightarrow> do { r \<leftarrow> select_srv (mv_servers evt) k; r })"

text \<open>
  The request in \<open>payload\<close>: room for the length, version and id, command, flags, name of the event and
  the data. \<open>None\<close>: a byte outside the buffer was written.
\<close>

definition put_request :: "(nat \<Rightarrow> nat) \<Rightarrow> u32 \<Rightarrow> u16 \<Rightarrow> u16 \<Rightarrow> string \<Rightarrow> hdf \<Rightarrow> bytes \<Rightarrow> (nat \<times> bytes) option" where
  "put_request rnd reqid cmd flags ename hdf m = do {
     let ksize = length ename;
     m1 \<leftarrow> wr m TCP_MSG_OFFSET (be32 (push_bit 28 1 OR reqid));
     m2 \<leftarrow> wr m1 (TCP_MSG_OFFSET + 4) (be16 cmd);
     m3 \<leftarrow> wr m2 (TCP_MSG_OFFSET + 6) (be16 flags);
     m4 \<leftarrow> wr m3 (TCP_MSG_OFFSET + 8) (be32 (of_nat ksize));
     m5 \<leftarrow> wr m4 (TCP_MSG_OFFSET + 12) ename;
     let psize = TCP_MSG_OFFSET + 12 + ksize;
     (vsize, b) \<leftarrow> pack_hdf rnd hdf (drop psize m5) MAX_PACKET_LEN;
     let psize1 = psize + vsize;
     let m6 = take psize m5 @ b;
     if psize1 < 17 then do { m7 \<leftarrow> wr m6 psize1 (be32 DATA_TYPE_EOF); Some (psize1 + 4, m7) }
     else Some (psize1, m6) }"

text \<open>
  The first half of \<open>_mevt_trigger\<close>: the request is sent, then the data trees are emptied. The result tells
  whether it was sent, and which server was chosen.
\<close>

definition mevt_send :: "bytes option \<Rightarrow> u16 \<Rightarrow> u16 \<Rightarrow> moc_t \<Rightarrow> moc_arg \<Rightarrow> (bool \<times> nat \<times> moc_t \<times> moc_arg) option" where
  "mevt_send key cmd flags evt arg = do {
     let evt0 = evt\<lparr>mv_cmd := cmd, mv_flags := flags\<rparr>;
     i \<leftarrow> pick_server evt0 key;
     let reqid = next_reqid (ma_reqid arg);
     let arg0 = arg\<lparr>ma_reqid := reqid\<rparr>;
     (psize, m) \<leftarrow> put_request (nt_rnd (ma_net arg0)) reqid cmd flags (mv_ename evt0) (mv_hdfsnd evt0) (mv_payload evt0);
     (ok, srv, m1, arg1) \<leftarrow> tcp_srv_send (mv_ename evt0) (mv_servers evt0 ! i) m psize arg0;
     let evt1 = evt0\<lparr>mv_payload := m1, mv_psize := psize, mv_servers := (mv_servers evt0)[i := srv]\<rparr>;
     Some (ok, i, if ok then evt1\<lparr>mv_hdfsnd := hdf_init, mv_hdfrcv := hdf_init\<rparr> else evt1\<lparr>mv_errcode := REP_ERR_SEND\<rparr>, arg1) }"

text \<open>
  \<open>_mevt_trigger\<close> without the event loop: the request is sent and, when it is synchronous, the reply
  awaited. The result is the code for the caller.
\<close>

definition mevt_trigger :: "bytes option \<Rightarrow> u16 \<Rightarrow> u16 \<Rightarrow> moc_t \<Rightarrow> moc_arg \<Rightarrow> (int \<times> moc_t \<times> moc_arg) option" where
  "mevt_trigger key cmd flags evt arg = do {
     (ok, i, evt2, arg1) \<leftarrow> mevt_send key cmd flags evt arg;
     if \<not> ok then Some (REP_ERR_SEND, evt2, arg1)
     else if flags AND FLAGS_SYNC = 0 then Some (REP_OK, evt2, arg1)
     else do {
       (rv, vsize, srv2, rb, n) \<leftarrow> tcp_get_rep (ma_reqid arg1) (mv_servers evt2 ! i) (mv_rcvbuf evt2) MAX_PACKET_LEN (ma_net arg1);
       (r, hdf) \<leftarrow> (if rv = -1 then hdf_set_value (mv_hdfrcv evt2) [] ''Output.errmsg'' (Some no_response) else Some (Inr [], mv_hdfrcv evt2));
       let code = (if rv = -1 then REP_ERR else to_int32 (uint rv));
       (ts, hdf') \<leftarrow> (if vsize > 8 then unpack_hdf rb 16 (vsize - 4) else Some (0, hdf));
       Some (code, evt2\<lparr>mv_rcvbuf := rb, mv_servers := (mv_servers evt2)[i := srv2], mv_errcode := code, mv_hdfrcv := hdf'\<rparr>,
             arg1\<lparr>ma_net := n\<rparr>) } }"

end
