(* ===== verification/Client_Request.thy ===== *)
theory Client_Request
  imports Client_Net
begin

text \<open>
  What the client puts on the wire and how it takes a reply off it: the bytes of a request, the
  sending loop, the receiving loop for any cut of the reply, and the selection of servers.
\<close>

section \<open>The bytes of a request\<close>

definition request_bytes :: "u32 \<Rightarrow> u16 \<Rightarrow> u16 \<Rightarrow> string \<Rightarrow> hdf \<Rightarrow> bytes" where
  "request_bytes reqid cmd flags ename hdf =
     be32 (push_bit 28 1 OR reqid) @ be16 cmd @ be16 flags @ be32 (of_nat (length ename)) @ ename @ packet_of hdf"

lemma length_request_bytes: "length (request_bytes reqid cmd flags ename hdf) = 12 + length ename + length (packet_of hdf)"
  by (simp add: request_bytes_def)

lemma put_request_bytes:
  assumes "sendable hdf" "length m = MAX_PACKET_LEN" "length ename \<le> 475"
  shows "\<exists>m'. put_request rnd reqid cmd flags ename hdf m = Some (4 + length (request_bytes reqid cmd flags ename hdf), m') \<and>
     length m' = MAX_PACKET_LEN \<and> take (4 + length (request_bytes reqid cmd flags ename hdf)) m' = take 4 m @ request_bytes reqid cmd flags ename hdf"
proof -
  let ?h = "take 4 m"
  let ?k = "length ename"
  define a where "a = be32 (push_bit 28 1 OR reqid)"
  have la: "length a = 4" by (simp add: a_def)
  let ?e = "be32 (of_nat ?k)"
  let ?b = "drop (16 + ?k) m"
  have m: "m = ?h @ drop 4 m" "length ?h = 4" using assms(2) by simp_all
  have 1: "wr m 4 a = Some ((?h @ a) @ drop 8 m)"
    using wr_after' [of 4 ?h a "drop 4 m"] m assms(2) by (simp add: drop_drop la)
  have 2: "wr ((?h @ a) @ drop 8 m) 8 (be16 cmd) = Some ((?h @ a @ be16 cmd) @ drop 10 m)"
    using wr_after' [of 8 "?h @ a" "be16 cmd" "drop 8 m"] m(2) assms(2) by (simp add: drop_drop la)
  have 3: "wr ((?h @ a @ be16 cmd) @ drop 10 m) 10 (be16 flags) = Some ((?h @ a @ be16 cmd @ be16 flags) @ drop 12 m)"
    using wr_after' [of 10 "?h @ a @ be16 cmd" "be16 flags" "drop 10 m"] m(2) assms(2) by (simp add: drop_drop la)
  have 4: "wr ((?h @ a @ be16 cmd @ be16 flags) @ drop 12 m) 12 ?e = Some ((?h @ a @ be16 cmd @ be16 flags @ ?e) @ drop 16 m)"
    using wr_after' [of 12 "?h @ a @ be16 cmd @ be16 flags" ?e "drop 12 m"] m(2) assms(2) by (simp add: drop_drop la)
  have 5: "wr ((?h @ a @ be16 cmd @ be16 flags @ ?e) @ drop 16 m) 16 ename = Some ((?h @ a @ be16 cmd @ be16 flags @ ?e @ ename) @ ?b)"
    using wr_after' [of 16 "?h @ a @ be16 cmd @ be16 flags @ ?e" ename "drop 16 m"] m(2) assms by (simp add: drop_drop add.commute la)
  have "65045 \<le> length ?b" using assms(2,3) by simp
  then obtain rest where p: "pack_hdf rnd hdf ?b MAX_PACKET_LEN = Some (length (packet_of hdf), packet_of hdf @ rest)" "length (packet_of hdf @ rest) = length ?b"
    using pack_sendable [OF assms(1), of ?b rnd] by blast
  have l: "length (?h @ a @ be16 cmd @ be16 flags @ ?e @ ename) = 16 + ?k" using m(2) by (simp add: la)
  have big: "20 \<le> length (packet_of hdf)" by (simp add: packet_of_def length_packed)
  have "put_request rnd reqid cmd flags ename hdf m =
      Some (16 + ?k + length (packet_of hdf), (?h @ a @ be16 cmd @ be16 flags @ ?e @ ename) @ packet_of hdf @ rest)"
    using l p(1) big unfolding put_request_def Let_def a_def [symmetric] by (auto simp add: 1 2 3 4 5 simp del: append_assoc)
  moreover have "length ((?h @ a @ be16 cmd @ be16 flags @ ?e @ ename) @ packet_of hdf @ rest) = MAX_PACKET_LEN"
    using l p(2) assms(2,3) by simp
  moreover have "take (16 + ?k + length (packet_of hdf)) ((?h @ a @ be16 cmd @ be16 flags @ ?e @ ename) @ packet_of hdf @ rest) =
      ?h @ request_bytes reqid cmd flags ename hdf"
    using l by (simp add: request_bytes_def a_def)
  ultimately show ?thesis by (simp add: length_request_bytes add.assoc)
qed

section \<open>Sending\<close>

lemma net_send_some:
  assumes "\<forall>a \<in> set (nt_sends n). 0 < a" "bs \<noteq> []"
  shows "\<exists>k. 0 < k \<and> k \<le> length bs \<and> fst (net_send fd bs n) = int k \<and>
     (\<exists>as. set as \<subseteq> set (nt_sends n) \<and> snd (net_send fd bs n) = n\<lparr>nt_sends := as, nt_out := nt_out n @ [(fd, take k bs)]\<rparr>)"
proof (cases "nt_sends n")
  case Nil
  then show ?thesis using assms(2) by (intro exI [of _ "length bs"]) (auto simp: net_send_def intro!: exI [of _ "[]"])
next
  case (Cons a as)
  then have a: "0 < a" using assms(1) by auto
  show ?thesis
  proof (intro exI [of _ "min (nat a) (length bs)"] conjI exI [of _ as])
    show "snd (net_send fd bs n) = n\<lparr>nt_sends := as, nt_out := nt_out n @ [(fd, take (min (nat a) (length bs)) bs)]\<rparr>"
      using a Cons by (simp add: net_send_def min_def)
  qed (use a Cons assms(2) in \<open>auto simp: net_send_def\<close>)
qed

lemma ssend_loop_all:
  assumes "\<forall>a \<in> set (nt_sends n). 0 < a" "c \<le> length buf"
  shows "\<exists>as outs. ssend_loop fd buf c n = (int (length buf), n\<lparr>nt_sends := as, nt_out := nt_out n @ outs\<rparr>) \<and>
     set as \<subseteq> set (nt_sends n) \<and> (\<forall>x \<in> set outs. fst x = fd) \<and> concat (map snd outs) = drop c buf"
  using assms
proof (induction fd buf c n rule: ssend_loop.induct)
  case (1 fd buf c n)
  show ?case
  proof (cases "c = length buf")
    case True
    then have "ssend_loop fd buf c n = (int (length buf), n\<lparr>nt_sends := nt_sends n, nt_out := nt_out n @ []\<rparr>)"
      by (subst ssend_loop.simps) simp
    with True show ?thesis by fastforce
  next
    case False
    then have c: "c < length buf" using "1.prems"(2) by simp
    then have "drop c buf \<noteq> []" by simp
    from net_send_some [OF "1.prems"(1) this, of fd] obtain k as where k: "0 < k" "k \<le> length buf - c" "fst (net_send fd (drop c buf) n) = int k"
        "set as \<subseteq> set (nt_sends n)" "snd (net_send fd (drop c buf) n) = n\<lparr>nt_sends := as, nt_out := nt_out n @ [(fd, take k (drop c buf))]\<rparr>"
      by auto
    let ?n = "n\<lparr>nt_sends := as, nt_out := nt_out n @ [(fd, take k (drop c buf))]\<rparr>"
    have glue: "take k (drop c buf) @ drop (c + k) buf = drop c buf" by (metis append_take_drop_id drop_drop add.commute)
    show ?thesis
    proof (cases "k = length buf")
      case True
      then have "c = 0" using k(2) c by simp
      with True k c show ?thesis
        by (subst ssend_loop.simps) (auto simp: Let_def intro!: exI [of _ as] exI [of _ "[(fd, buf)]"])
    next
      case False
      have "\<forall>a \<in> set (nt_sends ?n). 0 < a" using "1.prems"(1) k(4) by auto
      then have "\<exists>as' outs. ssend_loop fd buf (c + k) ?n = (int (length buf), ?n\<lparr>nt_sends := as', nt_out := nt_out ?n @ outs\<rparr>) \<and>
          set as' \<subseteq> set (nt_sends ?n) \<and> (\<forall>x \<in> set outs. fst x = fd) \<and> concat (map snd outs) = drop (c + k) buf"
        using "1.IH" [OF c refl refl] k c False by simp
      then obtain as' outs where r: "ssend_loop fd buf (c + k) ?n = (int (length buf), ?n\<lparr>nt_sends := as', nt_out := nt_out ?n @ outs\<rparr>)"
          "set as' \<subseteq> set as" "\<forall>x \<in> set outs. fst x = fd" "concat (map snd outs) = drop (c + k) buf"
        by auto
      have "ssend_loop fd buf c n = ssend_loop fd buf (c + k) ?n" using k c False by (subst ssend_loop.simps) (auto simp: Let_def)
      then show ?thesis
        using r k(4) glue by (intro exI [of _ as'] exI [of _ "(fd, take k (drop c buf)) # outs"]) auto
    qed
  qed
qed

section \<open>Receiving\<close>

text \<open>The bytes that are on their way, when the connection stays open and no error occurs.\<close>

definition only_data :: "rx list \<Rightarrow> bool" where
  "only_data rs \<longleftrightarrow> (\<forall>r \<in> set rs. \<exists>bs. r = Got bs \<and> bs \<noteq> [])"

fun data_of :: "rx list \<Rightarrow> bytes" where
  "data_of [] = []"
| "data_of (Got bs # rs) = bs @ data_of rs"
| "data_of (Fail e # rs) = data_of rs"

lemma net_recv_some:
  assumes "only_data (nt_in n)" "nt_in n \<noteq> []" "0 < k"
  shows "\<exists>b rs. b \<noteq> [] \<and> net_recv k n = (int (length b), b, n\<lparr>nt_in := rs\<rparr>) \<and> length b \<le> k \<and> data_of (nt_in n) = b @ data_of rs \<and> only_data rs"
proof -
  obtain bs rs where c: "nt_in n = Got bs # rs" "bs \<noteq> []" using assms(1,2) by (cases "nt_in n") (auto simp: only_data_def)
  let ?rs = "if length bs \<le> k then rs else Got (drop k bs) # rs"
  have "net_recv k n = (int (length (take k bs)), take k bs, n\<lparr>nt_in := ?rs\<rparr>)" by (simp add: net_recv_def c(1) min.commute)
  moreover have "data_of (nt_in n) = take k bs @ data_of ?rs" by (simp add: c(1))
  moreover have "only_data ?rs" using assms(1) c(1) by (auto simp: only_data_def)
  moreover have "take k bs \<noteq> []" using assms(3) c(2) by simp
  ultimately show ?thesis by (intro exI [of _ "take k bs"] exI [of _ ?rs]) simp
qed

lemma data_nonempty: "data_of rs \<noteq> [] \<Longrightarrow> rs \<noteq> []"
  by auto

lemma srecv_loop_all:
  assumes "only_data (nt_in n)" "data_of (nt_in n) = x @ y" "length x = cnt - c" "c \<le> cnt" "m = pre @ post" "length pre = off + c" "length x \<le> length post"
  shows "\<exists>rs. srecv_loop cnt off c m n = Some (int cnt, pre @ x @ drop (length x) post, n\<lparr>nt_in := rs\<rparr>) \<and> data_of rs = y \<and> only_data rs"
  using assms
proof (induction "length x" arbitrary: x c n m pre post rule: less_induct)
  case less
  show ?case
  proof (cases "x = []")
    case True
    then have "srecv_loop cnt off c m n = Some (int cnt, m, n\<lparr>nt_in := nt_in n\<rparr>)" using less.prems by (subst srecv_loop.simps) simp
    then show ?thesis using True less.prems by (intro exI [of _ "nt_in n"]) simp
  next
    case False
    then have "0 < length x" "data_of (nt_in n) \<noteq> []" using less.prems(2) by simp_all
    then have c: "0 < cnt - c" "nt_in n \<noteq> []" using less.prems(3) data_nonempty by metis+
    from net_recv_some [OF less.prems(1) c(2,1)] obtain b rs where b: "b \<noteq> []" "net_recv (cnt - c) n = (int (length b), b, n\<lparr>nt_in := rs\<rparr>)"
        "length b \<le> cnt - c" "data_of (nt_in n) = b @ data_of rs" "only_data rs" by blast
    then obtain x' where x': "x = b @ x'" "data_of rs = x' @ y" using less.prems(2,3) by (auto simp: append_eq_append_conv2)
    let ?n = "n\<lparr>nt_in := rs\<rparr>"
    have w: "wr m (off + c) b = Some ((pre @ b) @ drop (length b) post)"
      unfolding less.prems(5) using less.prems(6,7) x'(1) by (intro wr_after') auto
    have "srecv_loop cnt off c m n =
        (if length b = cnt then Some (int cnt, (pre @ b) @ drop (length b) post, ?n)
         else srecv_loop cnt off (c + length b) ((pre @ b) @ drop (length b) post) ?n)"
      using b(1,2) c(1) w by (subst srecv_loop.simps) (simp add: Let_def)
    moreover have "\<exists>rs'. srecv_loop cnt off (c + length b) ((pre @ b) @ drop (length b) post) ?n =
        Some (int cnt, (pre @ b) @ x' @ drop (length x') (drop (length b) post), ?n\<lparr>nt_in := rs'\<rparr>) \<and> data_of rs' = y \<and> only_data rs'"
    proof (rule less.hyps)
      show "length x' < length x" using x'(1) b(1) by simp
    qed (use b x' less.prems in auto)
    moreover have "length b + length x' = cnt - c" "0 < length b" using less.prems(3) x'(1) b(1) by simp_all
    then have "length b = cnt \<Longrightarrow> c = 0 \<and> length x' = 0" by arith
    ultimately show ?thesis using x' b(5) by (cases "length b = cnt") (auto simp: add.commute)
  qed
qed

lemma srecv_all:
  assumes "only_data (nt_in n)" "data_of (nt_in n) = x @ y" "length x \<le> length post" "off = length pre"
  shows "\<exists>rs. srecv (length x) off (pre @ post) n = Some (int (length x), pre @ x @ drop (length x) post, n\<lparr>nt_in := rs\<rparr>) \<and>
     data_of rs = y \<and> only_data rs"
  unfolding srecv_def by (rule srecv_loop_all [OF assms(1,2)]) (use assms(3,4) in auto)

lemma recv_msg_steps:
  assumes "net_recv bsize n = (int lb, b, n1)" "0 < lb" "wr m 0 b = Some m1"
    and "(if lb < 4 then srecv (4 - lb) lb m1 n1 else Some (0, m1, n1)) = Some (int k, m2, n2)" "lb < 4 \<longrightarrow> 0 < k"
    and "rd32 m2 0 = Some ms" "unat ms \<le> bsize"
  shows "recv_msg m bsize n =
     (if lb + k < unat ms then do {
        (t2, m3, n3) \<leftarrow> srecv (unat ms - (lb + k)) (lb + k) m2 n2;
        Some (if t2 \<le> 0 then t2 else int lb + int k + t2, m3, n3) }
      else Some (int lb + int k, m2, n2))"
proof -
  have "nat (4 - int lb) = 4 - lb" "(int lb < 4) = (lb < 4)" by arith+
  moreover have "nat (int (unat ms) - (int lb + int k)) = unat ms - (lb + k)" "nat (int lb + int k) = lb + k"
      "(int lb + int k < int (unat ms)) = (lb + k < unat ms)" by arith+
  moreover have "(if int lb < 4 then srecv (nat (4 - int lb)) (nat (int lb)) m1 n1 else Some (0, m1, n1)) = Some (int k, m2, n2)"
    using assms(4) calculation(1) by (auto split: if_splits)
  moreover have "\<not> (int lb < 4 \<and> int k \<le> 0)" using assms(5) by auto
  ultimately show ?thesis
    using assms(1-3,6,7) unfolding recv_msg_def Let_def by (simp only: prod.case bind.bind_lunit if_False split: if_split) simp
qed

lemma recv_msg_whole:
  assumes "only_data (nt_in n)" "data_of (nt_in n) = x" "rd32 x 0 = Some (of_nat (length x))" "length x \<le> bsize" "bsize \<le> length m" "bsize < 2 ^ 32"
  shows "\<exists>rs. recv_msg m bsize n = Some (int (length x), x @ drop (length x) m, n\<lparr>nt_in := rs\<rparr>) \<and> data_of rs = [] \<and> only_data rs"
proof -
  have x4: "4 \<le> length x" using assms(3) by (simp add: rd32_def split: if_splits)
  then have "data_of (nt_in n) \<noteq> []" using assms(2) by auto
  then have ne: "nt_in n \<noteq> []" by (rule data_nonempty)
  have "0 < bsize" using x4 assms(4) by simp
  from net_recv_some [OF assms(1) ne this] obtain b rs where b: "b \<noteq> []" "net_recv bsize n = (int (length b), b, n\<lparr>nt_in := rs\<rparr>)" "length b \<le> bsize"
      "data_of (nt_in n) = b @ data_of rs" "only_data rs" by blast
  let ?n1 = "n\<lparr>nt_in := rs\<rparr>"
  have xb: "x = b @ data_of rs" using assms(2) b(4) by simp
  have w: "wr m 0 b = Some (b @ drop (length b) m)" using b(3) assms(5) wr_after' [of 0 "[]" b m] by simp
  define y where "y = take (4 - length b) (data_of rs)"
  define z where "z = drop (4 - length b) (data_of rs)"
  have xyz: "x = (b @ y) @ z" "data_of rs = y @ z" using xb by (simp_all add: y_def z_def)
  have ly: "length y = 4 - length b" using x4 xb by (simp add: y_def min_def) linarith
  have m5: "length x \<le> length m" using assms(4,5) by simp
  have "\<exists>rs2. (if length b < 4 then srecv (4 - length b) (length b) (b @ drop (length b) m) ?n1 else Some (0, b @ drop (length b) m, ?n1)) =
      Some (int (length y), (b @ y) @ drop (length (b @ y)) m, n\<lparr>nt_in := rs2\<rparr>) \<and> data_of rs2 = z \<and> only_data rs2"
  proof (cases "length b < 4")
    case True
    have "length y \<le> length (drop (length b) m)" using m5 xyz(1) by simp
    with srecv_all [of ?n1 y z "drop (length b) m" "length b" b] b(5) xyz(2) ly True show ?thesis by (auto simp: add.commute)
  next
    case False
    then have "y = []" using ly by simp
    then show ?thesis using False b(5) xyz(2) by auto
  qed
  then obtain rs2 where s2: "(if length b < 4 then srecv (4 - length b) (length b) (b @ drop (length b) m) ?n1 else Some (0, b @ drop (length b) m, ?n1)) =
      Some (int (length y), (b @ y) @ drop (length (b @ y)) m, n\<lparr>nt_in := rs2\<rparr>)" "data_of rs2 = z" "only_data rs2" by blast
  have l4: "4 \<le> length (b @ y)" using ly by simp
  have "take 4 ((b @ y) @ drop (length (b @ y)) m) = take 4 x" using l4 xyz(1) by simp
  then have rd: "rd32 ((b @ y) @ drop (length (b @ y)) m) 0 = Some (of_nat (length x))"
    using assms(3) l4 by (simp add: rd32_def split: if_splits)
  have u: "unat (of_nat (length x) :: u32) = length x" using assms(4,6) by (intro unat_of_small) simp
  have rm: "recv_msg m bsize n =
      (if length b + length y < length x then do {
           (t2, m3, n3) \<leftarrow> srecv (length x - (length b + length y)) (length b + length y) ((b @ y) @ drop (length (b @ y)) m) (n\<lparr>nt_in := rs2\<rparr>);
           Some (if t2 \<le> 0 then t2 else int (length b) + int (length y) + t2, m3, n3) }
       else Some (int (length b) + int (length y), (b @ y) @ drop (length (b @ y)) m, n\<lparr>nt_in := rs2\<rparr>))"
    using recv_msg_steps [OF b(2) _ w s2(1) _ rd] b(1) ly u assms(4) by simp
  obtain rs3 where s3: "srecv (length z) (length b + length y) ((b @ y) @ drop (length (b @ y)) m) (n\<lparr>nt_in := rs2\<rparr>) =
      Some (int (length z), (b @ y) @ z @ drop (length z) (drop (length (b @ y)) m), n\<lparr>nt_in := rs3\<rparr>)" "data_of rs3 = []" "only_data rs3"
  proof -
    let ?n2 = "n\<lparr>nt_in := rs2\<rparr>"
    have 1: "only_data (nt_in ?n2)" "data_of (nt_in ?n2) = z @ []" "length b + length y = length (b @ y)"
      using s2(2,3) by simp_all
    have 2: "length z \<le> length (drop (length (b @ y)) m)" using m5 xyz(1) by simp
    obtain rs3 where "srecv (length z) (length b + length y) ((b @ y) @ drop (length (b @ y)) m) ?n2 =
        Some (int (length z), (b @ y) @ z @ drop (length z) (drop (length (b @ y)) m), ?n2\<lparr>nt_in := rs3\<rparr>)" "data_of rs3 = []" "only_data rs3"
      using srecv_all [OF 1(1,2) 2 1(3)] by (elim exE conjE)
    moreover have "?n2\<lparr>nt_in := rs3\<rparr> = n\<lparr>nt_in := rs3\<rparr>" by simp
    ultimately show thesis using that by metis
  qed
  have l: "length x - (length b + length y) = length z" "length x = length b + length y + length z" using xyz(1) by simp_all
  show ?thesis
  proof (cases "z = []")
    case True
    then have "recv_msg m bsize n = Some (int (length x), x @ drop (length x) m, n\<lparr>nt_in := rs2\<rparr>)" using rm l(2) xyz(1) by simp
    then show ?thesis using s2(2,3) True by blast
  next
    case False
    then have "length b + length y < length x" using l(2) by simp
    then have "recv_msg m bsize n = Some (int (length b) + int (length y) + int (length z), (b @ y) @ z @ drop (length z) (drop (length (b @ y)) m), n\<lparr>nt_in := rs3\<rparr>)"
      using rm s3(1) False unfolding l(1) by simp
    moreover have "(b @ y) @ z @ drop (length z) (drop (length (b @ y)) m) = x @ drop (length x) m" by (simp add: xyz(1) add.commute add.left_commute)
    moreover have "int (length b) + int (length y) + int (length z) = int (length x)" using l(2) by simp
    ultimately show ?thesis using s3(2,3) by metis
  qed
qed

end
