(* ===== verification/Server_State.thy ===== *)
theory Server_State
  imports Packet Server_Queue
begin

text \<open>
  The state of the server process and what every part of it uses: connections with their reference
  counts (server/tcp.c), queue entries (server/queue.c), the table of plugins (server/mocd.c), the
  counters, and the sending of replies (server/tcp.c, server/syscmd.c).

  The two shared structures, connections and queue entries, live in heaps, and a pointer to a freed
  one is an address that is not allocated: using it is \<open>None\<close>. The environment is part of the state:
  the answers of the next \<open>send\<close> calls (a number of bytes, or a negative error; when the list is used
  up, \<open>send\<close> takes everything), the outcomes of the next allocations (used up: they succeed), and the
  log of what the outside observes.
\<close>

section \<open>Data\<close>

record stats =
  msg_tipc :: u64
  msg_tcp :: u64
  msg_udp :: u64
  msg_sctp :: u64
  net_version_mismatch :: u64
  net_broken_req :: u64
  net_unk_req :: u64
  pro_busy :: u64

definition sys_stats_init :: stats where
  "sys_stats_init = \<lparr>msg_tipc = 0, msg_tcp = 0, msg_udp = 0, msg_sctp = 0, net_version_mismatch = 0,
     net_broken_req = 0, net_unk_req = 0, pro_busy = 0\<rparr>"

text \<open>
  A request: the socket's number, the id as its four bytes in memory (a reply copies them as they
  are), the command, the flags, and the connection.
\<close>

record req_info =
  rq_fd :: int
  rq_id :: bytes
  rq_cmd :: u16
  rq_flags :: u16
  rq_sock :: addr

record tcp_socket =
  sk_refcount :: int
  sk_fd :: int
  sk_evt :: bool
  sk_req :: req_info
  sk_on_close :: bool

record qdata =
  qd_operation :: u32
  qd_ename :: bytes
  qd_hdfrcv :: hdf
  qd_hdfsnd :: hdf
  qd_req :: req_info

record event_entry =
  ee_name :: bytes
  ee_queue :: queue
  ee_stop :: bool

datatype effect = Sent int bytes | Closed int | CloseCallback addr | Signalled bytes

record world =
  w_stat :: stats
  w_socks :: "addr \<Rightarrow> tcp_socket option"
  w_entries :: "qdata qheap"
  w_events :: "addr \<Rightarrow> event_entry option"
  w_table :: "addr list list"
  w_next :: addr
  w_cfg :: hdf
  w_log :: "effect list"
  w_sends :: "int list"
  w_mem :: "bool list"
  w_rnd :: "nat \<Rightarrow> nat"

abbreviation (input) FLAGS_SYNC :: u16 where "FLAGS_SYNC \<equiv> 2"
abbreviation (input) PROTO_VER :: u32 where "PROTO_VER \<equiv> 1"
abbreviation (input) REP_OK :: int where "REP_OK \<equiv> 1000"
abbreviation (input) QUEUE_SIZE_WARNING :: nat where "QUEUE_SIZE_WARNING \<equiv> 1000000"
abbreviation (input) MAX_QUEUE_ENTRY :: nat where "MAX_QUEUE_ENTRY \<equiv> 2097152"
abbreviation (input) EAGAIN :: int where "EAGAIN \<equiv> -11"

text \<open>The bytes of a 32-bit number in the memory of the little-endian hosts the code is written for.\<close>

definition le32 :: "u32 \<Rightarrow> bytes" where
  "le32 w = rev (be32 w)"

definition logged :: "effect \<Rightarrow> world \<Rightarrow> world" where
  "logged e w = w\<lparr>w_log := w_log w @ [e]\<rparr>"

definition malloc_ok :: "world \<Rightarrow> bool \<times> world" where
  "malloc_ok w = (case w_mem w of [] \<Rightarrow> (True, w) | b # bs \<Rightarrow> (b, w\<lparr>w_mem := bs\<rparr>))"

definition count_stat :: "(stats \<Rightarrow> stats) \<Rightarrow> world \<Rightarrow> world" where
  "count_stat f w = w\<lparr>w_stat := f (w_stat w)\<rparr>"

section \<open>Connections\<close>

definition tcp_socket_free :: "addr \<Rightarrow> world \<Rightarrow> world option" where
  "tcp_socket_free a w = do {
     s \<leftarrow> w_socks w a;
     let w1 = (if sk_fd s > 0 then logged (Closed (sk_fd s)) w else w);
     let w2 = (if sk_on_close s then logged (CloseCallback a) w1 else w1);
     Some (w2\<lparr>w_socks := (w_socks w2)(a := None)\<rparr>) }"

definition tcp_socket_add_ref :: "addr \<Rightarrow> world \<Rightarrow> world option" where
  "tcp_socket_add_ref a w = do {
     s \<leftarrow> w_socks w a;
     Some (w\<lparr>w_socks := (w_socks w)(a \<mapsto> s\<lparr>sk_refcount := sk_refcount s + 1\<rparr>)\<rparr>) }"

definition tcp_socket_remove_ref :: "addr \<Rightarrow> world \<Rightarrow> world option" where
  "tcp_socket_remove_ref a w = do {
     s \<leftarrow> w_socks w a;
     if sk_refcount s \<le> 0 then Some w
     else do {
       let w1 = w\<lparr>w_socks := (w_socks w)(a \<mapsto> s\<lparr>sk_refcount := sk_refcount s - 1\<rparr>)\<rparr>;
       if sk_refcount s - 1 = 0 then tcp_socket_free a w1 else Some w1 } }"

definition init_req :: "addr \<Rightarrow> world \<Rightarrow> world option" where
  "init_req a w = do {
     s \<leftarrow> w_socks w a;
     Some (w\<lparr>w_socks := (w_socks w)(a \<mapsto> s\<lparr>sk_req := (sk_req s)\<lparr>rq_fd := sk_fd s, rq_sock := a\<rparr>\<rparr>)\<rparr>) }"

section \<open>Replies\<close>

text \<open>
  One \<open>send\<close> with the next answer of the environment: what it returns, the bytes that left, and the
  answers that remain.
\<close>

definition send_call :: "int list \<Rightarrow> bytes \<Rightarrow> int \<times> bytes \<times> int list" where
  "send_call answers bs =
     (case answers of
        [] \<Rightarrow> (int (length bs), bs, [])
      | a # as \<Rightarrow> if a < 0 then (a, [], as) else (int (min (nat a) (length bs)), take (nat a) bs, as))"

definition do_send :: "int \<Rightarrow> bytes \<Rightarrow> world \<Rightarrow> int \<times> world" where
  "do_send fd bs w =
     (let (rv, out, as) = send_call (w_sends w) bs;
          w1 = w\<lparr>w_sends := as\<rparr> in
      (rv, if out = [] then w1 else logged (Sent fd out) w1))"

definition rep_send_error :: "req_info \<Rightarrow> int \<Rightarrow> world \<Rightarrow> world" where
  "rep_send_error req code w =
     snd (do_send (rq_fd req) (be32 16 @ rq_id req @ be32 (of_int REP_ERR) @ be32 (of_int code)) w)"

lemma do_send_answers:
  "length (w_sends (snd (do_send fd bs w))) \<le> length (w_sends w)"
  "fst (do_send fd bs w) < 0 \<Longrightarrow> length (w_sends (snd (do_send fd bs w))) < length (w_sends w)"
  by (cases "w_sends w"; simp add: do_send_def send_call_def logged_def Let_def split: if_splits)+

text \<open>
  The loop of \<open>rep_send\<close> on the bytes that are left of a buffer of \<open>n\<close> bytes. \<open>EAGAIN\<close> and
  \<open>EWOULDBLOCK\<close> are one number, so the loop retries on it and fails on every other error.
\<close>

function rep_send_loop :: "req_info \<Rightarrow> nat \<Rightarrow> bytes \<Rightarrow> world \<Rightarrow> bool \<times> world" where
  "rep_send_loop req n rest w =
     (if rest = [] then (True, w)
      else
        let rv = fst (do_send (rq_fd req) rest w); w1 = snd (do_send (rq_fd req) rest w) in
        if rv = int n then (True, w1)
        else if rv < 0 then
          (if rv \<noteq> EAGAIN then (False, rep_send_error req REP_ERR_SEND w1) else rep_send_loop req n rest w1)
        else if rv = 0 then (True, w1)
        else rep_send_loop req n (drop (nat rv) rest) w1)"
  by auto
termination
proof (relation "measure (\<lambda>(req, n, rest, w). length rest + length (w_sends w))", goal_cases)
  case 1
  then show ?case by simp
next
  case (2 req n rest w rv w1)
  then show ?case using do_send_answers(2) [of "rq_fd req" rest w] by simp
next
  case (3 req n rest w rv w1)
  then have "rest \<noteq> []" "0 < rv" by auto
  then have "length (drop (nat rv) rest) < length rest" by (cases rest) auto
  then show ?case using 3(3) do_send_answers(1) [of "rq_fd req" rest w] by simp
qed

declare rep_send_loop.simps [simp del]

definition rep_send :: "req_info \<Rightarrow> bytes \<Rightarrow> world \<Rightarrow> bool \<times> world" where
  "rep_send req buf w = rep_send_loop req (length buf) buf w"

definition mini_bytes :: "req_info \<Rightarrow> int \<Rightarrow> bytes" where
  "mini_bytes req reply = be32 12 @ rq_id req @ be32 (of_int reply)"

definition long_bytes :: "req_info \<Rightarrow> int \<Rightarrow> bytes \<Rightarrow> bytes" where
  "long_bytes req reply val =
     be32 (of_nat (16 + length val)) @ rq_id req @ be32 (of_int reply) @ be32 (of_nat (length val)) @ val"

definition tcp_reply_mini :: "req_info \<Rightarrow> int \<Rightarrow> world \<Rightarrow> world" where
  "tcp_reply_mini req reply w = snd (rep_send req (mini_bytes req reply) w)"

definition tcp_reply_err :: "req_info \<Rightarrow> int \<Rightarrow> world \<Rightarrow> world" where
  "tcp_reply_err req reply w = rep_send_error req reply w"

definition tcp_reply_long :: "req_info \<Rightarrow> int \<Rightarrow> bytes option \<Rightarrow> world \<Rightarrow> world" where
  "tcp_reply_long req reply val w =
     (case val of
        None \<Rightarrow> tcp_reply_mini req reply w
      | Some v \<Rightarrow> snd (rep_send req (long_bytes req reply v) w))"

text \<open>\<open>reply_trigger\<close> (server/syscmd.c): reply with the data the plugin put into \<open>hdfsnd\<close>, if any.\<close>

definition reply_trigger :: "qdata \<Rightarrow> int \<Rightarrow> world \<Rightarrow> (bool \<times> world) option" where
  "reply_trigger q reply w = do {
     child \<leftarrow> hdf_obj_child (qd_hdfsnd q) (Some []);
     if child = None then Some (True, tcp_reply_mini (qd_req q) reply w)
     else
       (let (ok, w1) = malloc_ok w in
        if \<not> ok then Some (False, tcp_reply_mini (qd_req q) REP_ERR_MEM w1)
        else do {
          (vsize, buf) \<leftarrow> pack_hdf (w_rnd w1) (qd_hdfsnd q) (replicate MAX_PACKET_LEN NUL) MAX_PACKET_LEN;
          if vsize = 0 then Some (False, tcp_reply_mini (qd_req q) REP_ERR_PACK w1)
          else Some (True, tcp_reply_long (qd_req q) reply (Some (take vsize buf)) w1) }) }"

section \<open>Queue entries\<close>

text \<open>What \<open>queue_entry_free\<close> releases besides memory: the entry's reference to its connection.\<close>

definition release_entry :: "qdata \<Rightarrow> world \<Rightarrow> world option" where
  "release_entry d w = tcp_socket_remove_ref (rq_sock (qd_req d)) w"

definition free_entry :: "addr \<Rightarrow> world \<Rightarrow> world option" where
  "free_entry a w = do {
     (h, w1) \<leftarrow> queue_entry_free release_entry a (w_entries w, w);
     Some (w1\<lparr>w_entries := h\<rparr>) }"

definition set_hdfsnd :: "addr \<Rightarrow> hdf \<Rightarrow> world \<Rightarrow> world option" where
  "set_hdfsnd a hdf w = do {
     n \<leftarrow> w_entries w a;
     Some (w\<lparr>w_entries := (w_entries w)(a \<mapsto> n\<lparr>qe_data := (qe_data n)\<lparr>qd_hdfsnd := hdf\<rparr>\<rparr>)\<rparr>) }"

section \<open>The table of plugins\<close>

definition evt_hash_step :: "u32 \<Rightarrow> byte \<Rightarrow> u32" where
  "evt_hash_step h c = (let h = h + of_nat (of_char c); h = h + push_bit 10 h in h XOR drop_bit 6 h)"

definition evt_hash :: "bytes \<Rightarrow> u32" where
  "evt_hash key = (let h = foldl evt_hash_step 0 key; h = h + push_bit 3 h; h = h XOR drop_bit 11 h in h + push_bit 15 h)"

definition evt_bucket :: "world \<Rightarrow> bytes \<Rightarrow> nat" where
  "evt_bucket w key = unat (evt_hash key) mod length (w_table w)"

fun find_in_evt_chain :: "(addr \<Rightarrow> event_entry option) \<Rightarrow> addr list \<Rightarrow> bytes \<Rightarrow> addr option option" where
  "find_in_evt_chain evs [] key = Some None"
| "find_in_evt_chain evs (a # as) key = do {
     e \<leftarrow> evs a;
     if length key \<noteq> length (ee_name e) then find_in_evt_chain evs as key
     else if key = ee_name e then Some (Some a) else find_in_evt_chain evs as key }"

definition find_entry_in_table :: "world \<Rightarrow> bytes \<Rightarrow> addr option option" where
  "find_entry_in_table w key =
     (if w_table w = [] then None else find_in_evt_chain (w_events w) (w_table w ! evt_bucket w key) key)"

end
