(* ===== verification/Server_Parse.thy ===== *)
theory Server_Parse
  imports Server_State
begin

text \<open>
  From a message to a queue entry (server/parse.c): the header is checked, the event name and the
  data tree are taken out of the payload, the plugin of that name is looked up, and an entry that
  owns a reference to the connection is put into the plugin's queue, in front for a synchronous
  request. A message is exactly its bytes: the code also reads behind a message whose inner sizes
  are wrong (into stale bytes of the receive buffer), which is \<open>None\<close> here.
\<close>

section \<open>Built-in requests\<close>

definition stat_fields :: "(string \<times> (stats \<Rightarrow> u64)) list" where
  "stat_fields = [(''msg_tipc'', msg_tipc), (''msg_tcp'', msg_tcp), (''msg_udp'', msg_udp), (''msg_sctp'', msg_sctp),
     (''net_version_mismatch'', net_version_mismatch), (''net_broken_req'', net_broken_req),
     (''net_unk_req'', net_unk_req), (''pro_busy'', pro_busy)]"

text \<open>An \<open>unsigned long\<close> passed as \<open>int\<close>: its low 32 bits.\<close>

fun set_ints :: "(string \<times> u64) list \<Rightarrow> hdf \<Rightarrow> hdf option" where
  "set_ints [] hdf = Some hdf"
| "set_ints ((n, v) # xs) hdf = do {
     (r, hdf') \<leftarrow> hdf_set_int_value hdf [] n (to_int32 (uint v));
     set_ints xs hdf' }"

definition parse_stats :: "addr \<Rightarrow> world \<Rightarrow> world option" where
  "parse_stats a w = do {
     n \<leftarrow> w_entries w a;
     hdf \<leftarrow> set_ints (map (\<lambda>(name, f). (name, f (w_stat w))) stat_fields) (qd_hdfsnd (qe_data n));
     w1 \<leftarrow> set_hdfsnd a hdf w;
     (r, w2) \<leftarrow> reply_trigger ((qe_data n)\<lparr>qd_hdfsnd := hdf\<rparr>) REP_OK w1;
     Some w2 }"

definition parse_clientmod :: "addr \<Rightarrow> world \<Rightarrow> world option" where
  "parse_clientmod a w = do {
     n \<leftarrow> w_entries w a;
     node \<leftarrow> hdf_get_obj (w_cfg w) [] (Some ''Client.modules'');
     (case node of
        None \<Rightarrow> Some (tcp_reply_mini (qd_req (qe_data n)) REP_ERR_UNKREQ w)
      | Some p \<Rightarrow> do {
          src \<leftarrow> node_at (w_cfg w) p;
          (r, hdf) \<leftarrow> hdf_copy (qd_hdfsnd (qe_data n)) [] ''modules'' src;
          w1 \<leftarrow> set_hdfsnd a hdf w;
          (r, w2) \<leftarrow> reply_trigger ((qe_data n)\<lparr>qd_hdfsnd := hdf\<rparr>) REP_OK w1;
          Some w2 }) }"

section \<open>Entering a request into a queue\<close>

text \<open>
  The four allocations of \<open>make_queue_long_entry\<close>. When the second fails the entry is freed with an
  uninitialised \<open>req\<close> (\<open>None\<close>); when the fourth fails a reference is dropped that was never taken.
\<close>

definition make_queue_long_entry :: "req_info \<Rightarrow> bytes \<Rightarrow> hdf \<Rightarrow> world \<Rightarrow> (addr option \<times> world) option" where
  "make_queue_long_entry req ename hdfrcv w =
     (let (ok1, w1) = malloc_ok w in
      if \<not> ok1 then Some (None, w1)
      else let (ok2, w2) = malloc_ok w1 in
      if \<not> ok2 then None
      else let (ok3, w3) = malloc_ok w2 in
      if \<not> ok3 then Some (None, w3)
      else let (ok4, w4) = malloc_ok w3 in
      if \<not> ok4 then do { w5 \<leftarrow> tcp_socket_remove_ref (rq_sock req) w4; Some (None, w5) }
      else do {
        w5 \<leftarrow> tcp_socket_add_ref (rq_sock req) w4;
        let d = \<lparr>qd_operation = ucast (rq_cmd req), qd_ename = ename, qd_hdfrcv = hdfrcv, qd_hdfsnd = hdf_init, qd_req = req\<rparr>;
        Some (Some (w_next w5), w5\<lparr>w_entries := (w_entries w5)(w_next w5 \<mapsto> \<lparr>qe_data = d, qe_prev = None\<rparr>),
                                   w_next := w_next w5 + 1\<rparr>) })"

fun strncmp_eq :: "bytes \<Rightarrow> string \<Rightarrow> bool" where
  "strncmp_eq [] b = True"
| "strncmp_eq (c # a) [] = (c = NUL)"
| "strncmp_eq (c # a) (d # b) = (c = d \<and> strncmp_eq a b)"

text \<open>The built-in requests: make an entry, answer it, free it.\<close>

definition answer_at_once :: "(addr \<Rightarrow> world \<Rightarrow> world option) \<Rightarrow> req_info \<Rightarrow> bytes \<Rightarrow> hdf \<Rightarrow> world \<Rightarrow> (bool \<times> world) option" where
  "answer_at_once act req ename hdfrcv w = do {
     (e, w1) \<leftarrow> make_queue_long_entry req ename hdfrcv w;
     (case e of
        None \<Rightarrow> Some (False, w1)
      | Some a \<Rightarrow> do { w2 \<leftarrow> act a w1; w3 \<leftarrow> free_entry a w2; Some (True, w3) }) }"

definition enqueue :: "bool \<Rightarrow> addr \<Rightarrow> addr \<Rightarrow> world \<Rightarrow> world option" where
  "enqueue sync ev a w = do {
     e \<leftarrow> w_events w ev;
     (q, h) \<leftarrow> (if sync then queue_cas (ee_queue e, w_entries w) a else queue_put (ee_queue e, w_entries w) a);
     Some (logged (Signalled (ee_name e)) (w\<lparr>w_entries := h, w_events := (w_events w)(ev \<mapsto> e\<lparr>ee_queue := q\<rparr>)\<rparr>)) }"

definition put_in_queue_long :: "req_info \<Rightarrow> bool \<Rightarrow> bytes \<Rightarrow> hdf \<Rightarrow> world \<Rightarrow> (bool \<times> world) option" where
  "put_in_queue_long req sync ename hdfrcv w = do {
     entry \<leftarrow> find_entry_in_table w ename;
     (case entry of
        None \<Rightarrow>
          if strncmp_eq ename ''_Reserve.Status'' then answer_at_once parse_stats req ename hdfrcv w
          else if strncmp_eq ename ''_Reserve.Clientmod'' then answer_at_once parse_clientmod req ename hdfrcv w
          else
            (let w1 = count_stat (\<lambda>s. s\<lparr>net_unk_req := net_unk_req s + 1\<rparr>) w in
             Some (True, if sync then tcp_reply_mini req REP_ERR_UNKREQ w1 else w1))
      | Some ev \<Rightarrow> do {
          e \<leftarrow> w_events w ev;
          if q_size (ee_queue e) > MAX_QUEUE_ENTRY \<and> q_size (ee_queue e) mod 100 = 0 then
            (let w1 = count_stat (\<lambda>s. s\<lparr>pro_busy := pro_busy s + 1\<rparr>) w in
             Some (True, if sync then tcp_reply_mini req REP_ERR_BUSY w1 else w1))
          else do {
            (a, w1) \<leftarrow> make_queue_long_entry req ename hdfrcv w;
            (case a of
               None \<Rightarrow> Some (False, w1)
             | Some a \<Rightarrow> do { w2 \<leftarrow> enqueue sync ev a w1; Some (True, w2) }) } }) }"

definition put_in_queue :: "req_info \<Rightarrow> bool \<Rightarrow> bytes \<Rightarrow> hdf \<Rightarrow> world \<Rightarrow> (bool \<times> world) option" where
  "put_in_queue req sync ename hdfrcv w = put_in_queue_long req sync ename hdfrcv w"

section \<open>Parsing\<close>

definition parse_event :: "req_info \<Rightarrow> bytes \<Rightarrow> world \<Rightarrow> world option" where
  "parse_event req payload w = do {
     let sync = (rq_flags req AND FLAGS_SYNC \<noteq> 0);
     esize \<leftarrow> rd32 payload 0;
     let pos = 4 + unat esize;
     (rsize, hdfrcv) \<leftarrow> unpack_hdf payload pos (size_sub (size_sub (length payload) (unat esize)) 4);
     if rsize = 0 \<or> unat (rsize + esize) + 4 > MAX_PACKET_LEN \<or> length payload < unat esize then
       (let w1 = count_stat (\<lambda>s. s\<lparr>net_broken_req := net_broken_req s + 1\<rparr>) w in
        Some (if sync then tcp_reply_mini req REP_ERR_BROKEN w1 else w1))
     else do {
       ename \<leftarrow> rdn payload 4 (unat esize);
       (rv, w1) \<leftarrow> put_in_queue req sync ename hdfrcv w;
       Some (if \<not> rv \<and> sync then tcp_reply_mini req REP_ERR_MEM w1 else w1) } }"

definition set_req :: "addr \<Rightarrow> (req_info \<Rightarrow> req_info) \<Rightarrow> world \<Rightarrow> (req_info \<times> world) option" where
  "set_req a f w = do {
     s \<leftarrow> w_socks w a;
     Some (f (sk_req s), w\<lparr>w_socks := (w_socks w)(a \<mapsto> s\<lparr>sk_req := f (sk_req s)\<rparr>)\<rparr>) }"

text \<open>
  \<open>parse_message\<close> on the request record of the connection \<open>a\<close>. A message that is too short is answered
  with the id the record has from before; one of another version with the id in host byte order.
\<close>

definition parse_message :: "addr \<Rightarrow> bytes \<Rightarrow> world \<Rightarrow> (bool \<times> world) option" where
  "parse_message a buf w =
     (if length buf < 17 then do {
        (req, w1) \<leftarrow> set_req a id (count_stat (\<lambda>s. s\<lparr>net_broken_req := net_broken_req s + 1\<rparr>) w);
        Some (False, tcp_reply_mini req REP_ERR_BROKEN w1) }
      else do {
        hdr \<leftarrow> rd32 buf 0;
        let ver = drop_bit 28 (hdr AND 0xF0000000);
        let i = hdr AND 0x0FFFFFFF;
        cmd \<leftarrow> rd16 buf 4;
        flags \<leftarrow> rd16 buf 6;
        if ver \<noteq> PROTO_VER then do {
          (req, w1) \<leftarrow> set_req a (\<lambda>r. r\<lparr>rq_id := le32 i\<rparr>)
            (count_stat (\<lambda>s. s\<lparr>net_version_mismatch := net_version_mismatch s + 1\<rparr>) w);
          Some (False, tcp_reply_mini req REP_ERR_VER w1) }
        else do {
          (req, w1) \<leftarrow> set_req a (\<lambda>r. r\<lparr>rq_id := be32 i, rq_cmd := cmd, rq_flags := flags\<rparr>) w;
          w2 \<leftarrow> parse_event req (drop 8 buf) w1;
          Some (True, w2) } })"

end
