(* ===== verification/Client_Wire.thy ===== *)
theory Client_Wire
  imports Client_Request Server_Parse
begin

text \<open>
  The two ends of the wire: the bytes of a request as the server's parser reads them, and the bytes
  of a reply as the client's caller gets them.
\<close>

section \<open>A request arrives\<close>

lemma top_mask: "(0xF0000000 :: u32) = push_bit 28 (mask 4)"
  by (simp add: mask_eq_exp_minus_1)

lemma low_mask: "(0x0FFFFFFF :: u32) = mask 28"
  by (simp add: mask_eq_exp_minus_1)

lemma header_bits:
  fixes i :: u32
  assumes "i < 2 ^ 28"
  shows "drop_bit 28 ((push_bit 28 1 OR i) AND 0xF0000000) = 1" "(push_bit 28 1 OR i) AND 0x0FFFFFFF = i"
proof -
  have "unat i < 2 ^ 28" using assms by (simp add: word_less_nat_alt)
  then have "unat (take_bit 28 i) = unat i" by (simp only: unsigned_take_bit_eq take_bit_nat_eq_self)
  then have "take_bit 28 i = i" by (rule unsigned_word_eqI)
  then have i: "bit i n \<Longrightarrow> n < 28" for n by (metis bit_take_bit_iff)
  define p where "p = push_bit 28 (1 :: u32)"
  have p: "bit p n \<longleftrightarrow> n = 28" for n unfolding p_def by (subst bit_push_bit_iff) (auto simp: bit_1_iff)
  have "drop_bit 28 ((p OR i) AND 0xF0000000) = 1"
    unfolding top_mask by (rule bit_word_eqI) (use i p in \<open>auto simp: bit_simps\<close>)
  moreover have "(p OR i) AND 0x0FFFFFFF = i"
    unfolding low_mask by (rule bit_word_eqI) (use i p in \<open>auto simp: bit_simps\<close>)
  ultimately show "drop_bit 28 ((push_bit 28 1 OR i) AND 0xF0000000) = 1" "(push_bit 28 1 OR i) AND 0x0FFFFFFF = i"
    unfolding p_def by blast+
qed
lemma parse_event_request:
  assumes "sendable hdf" "length ename \<le> 475"
  shows "parse_event req (be32 (of_nat (length ename)) @ ename @ packet_of hdf) w = do {
     let sync = (rq_flags req AND 2 \<noteq> 0);
     (rv, w1) \<leftarrow> put_in_queue req sync ename hdf w;
     Some (if \<not> rv \<and> sync then tcp_reply_mini req REP_ERR_MEM w1 else w1) }"
proof -
  let ?k = "length ename" and ?p = "packet_of hdf"
  let ?m = "be32 (of_nat ?k) @ ename @ ?p"
  have p: "20 \<le> length ?p" "length ?p \<le> 65044" using length_packet_of [OF assms(1)] by (simp_all add: packet_of_def length_packed)
  have k: "unat (of_nat ?k :: u32) = ?k" using assms(2) by (intro unat_of_small) simp
  have r: "unat (of_nat (length ?p) :: u32) = length ?p" using p(2) by (intro unat_of_small) simp
  have rk: "unat (of_nat (length ?p) + of_nat ?k :: u32) = length ?p + ?k"
    unfolding of_nat_add [symmetric] using p(2) assms(2) by (intro unat_of_small) simp
  have un: "unpack_hdf ?m (4 + ?k) len = Some (of_nat (length ?p), hdf)" for len
    using unpack_sendable [OF assms(1), of "be32 (of_nat ?k) @ ename" "[]" len] by simp
  have ne: "(of_nat (length ?p) :: u32) \<noteq> 0" using r p(1) by (metis le_zero_eq unsigned_0 zero_neq_numeral)
  have "rd32 ?m 0 = Some (of_nat ?k)" by (simp add: mem_simps)
  moreover have "rdn ?m 4 ?k = Some ename" by (simp add: rdn_def)
  ultimately show ?thesis
    using p assms(2) ne unfolding parse_event_def Let_def by (simp add: k un rk)
qed

lemma parse_request:
  assumes "sendable hdf" "length ename \<le> 475" "reqid < 2 ^ 28" "w_socks w a = Some s"
    and req: "req = (sk_req s)\<lparr>rq_id := be32 reqid, rq_cmd := cmd, rq_flags := flags\<rparr>"
  shows "parse_message a (request_bytes reqid cmd flags ename hdf) w = do {
     let sync = (flags AND 2 \<noteq> 0);
     (rv, w1) \<leftarrow> put_in_queue req sync ename hdf (w\<lparr>w_socks := (w_socks w)(a \<mapsto> s\<lparr>sk_req := req\<rparr>)\<rparr>);
     Some (True, if \<not> rv \<and> sync then tcp_reply_mini req REP_ERR_MEM w1 else w1) }"
proof -
  let ?v = "push_bit 28 1 OR reqid"
  let ?pl = "be32 (of_nat (length ename)) @ ename @ packet_of hdf"
  have b: "request_bytes reqid cmd flags ename hdf = be32 ?v @ be16 cmd @ be16 flags @ ?pl" by (simp add: request_bytes_def)
  have "20 \<le> length (packet_of hdf)" by (simp add: packet_of_def length_packed)
  then have l: "\<not> length (be32 ?v @ be16 cmd @ be16 flags @ ?pl) < 17" by simp
  have rd: "rd32 (be32 ?v @ be16 cmd @ be16 flags @ ?pl) 0 = Some ?v" "rd16 (be32 ?v @ be16 cmd @ be16 flags @ ?pl) 4 = Some cmd"
      "rd16 ((be32 ?v @ be16 cmd) @ be16 flags @ ?pl) 6 = Some flags"
    by (rule rd32_at0 rd16_at, simp?)+
  have d: "drop 8 (be32 ?v @ be16 cmd @ be16 flags @ ?pl) = ?pl" by simp
  have fl: "rq_flags req = flags" by (simp add: req)
  have ev: "parse_event req ?pl w1 = do {
      (rv, w2) \<leftarrow> put_in_queue req (flags AND 2 \<noteq> 0) ename hdf w1;
      Some (if \<not> rv \<and> flags AND 2 \<noteq> 0 then tcp_reply_mini req REP_ERR_MEM w2 else w2) }" for w1
    using parse_event_request [OF assms(1,2), of req w1] unfolding fl Let_def .
  show ?thesis
    using l rd header_bits [OF assms(3)] d assms(4) ev
    unfolding parse_message_def b Let_def by (simp add: set_req_def req [symmetric] split_def)
qed

section \<open>The client sends\<close>

text \<open>An event with an open connection to its first server, and data that fits.\<close>

definition can_send :: "moc_t \<Rightarrow> moc_arg \<Rightarrow> bool" where
  "can_send evt arg \<longleftrightarrow> mv_servers evt \<noteq> [] \<and> 0 < sr_fd (hd (mv_servers evt)) \<and>
     length (mv_payload evt) = MAX_PACKET_LEN \<and> length (mv_rcvbuf evt) = MAX_PACKET_LEN \<and>
     length (mv_ename evt) \<le> 475 \<and> sendable (mv_hdfsnd evt) \<and> (\<forall>a \<in> set (nt_sends (ma_net arg)). 0 < a)"

lemma send_request:
  assumes "can_send evt arg" "i = 0" "bs = request_bytes reqid cmd flags (mv_ename evt) (mv_hdfsnd evt)"
  shows "\<exists>m m1 as outs. put_request rnd reqid cmd flags (mv_ename evt) (mv_hdfsnd evt) (mv_payload evt) = Some (4 + length bs, m) \<and>
     tcp_srv_send (mv_ename evt) (mv_servers evt ! i) m (4 + length bs) arg =
       Some (True, mv_servers evt ! i, m1, arg\<lparr>ma_net := (ma_net arg)\<lparr>nt_sends := as, nt_out := nt_out (ma_net arg) @ outs\<rparr>\<rparr>) \<and>
     concat (map snd outs) = be32 (of_nat (4 + length bs)) @ bs \<and> (\<forall>x \<in> set outs. fst x = sr_fd (mv_servers evt ! i))"
proof -
  let ?srv = "mv_servers evt ! i"
  have fd: "0 < sr_fd ?srv" using assms(1,2) hd_conv_nth [of "mv_servers evt"] by (auto simp: can_send_def)
  have pl: "length (mv_payload evt) = MAX_PACKET_LEN" "length (mv_ename evt) \<le> 475" "sendable (mv_hdfsnd evt)"
      "\<forall>a \<in> set (nt_sends (ma_net arg)). 0 < a"
    using assms(1) by (simp_all add: can_send_def)
  from put_request_bytes [OF pl(3,1,2), of rnd reqid cmd flags] obtain m where m: "put_request rnd reqid cmd flags (mv_ename evt) (mv_hdfsnd evt) (mv_payload evt) = Some (4 + length bs, m)"
      "length m = MAX_PACKET_LEN" "take (4 + length bs) m = take 4 (mv_payload evt) @ bs"
    unfolding assms(3) by blast
  let ?l = "be32 (of_nat (4 + length bs))"
  have w: "wr m 0 ?l = Some (?l @ drop 4 m)" using m(2) wr_after' [of 0 "[]" ?l m] by simp
  have "length bs \<le> 65531" using pl(2) length_packet_of [OF pl(3)] by (simp add: assms(3) length_request_bytes)
  have "take (length bs) (drop 4 m) = drop 4 (take (4 + length bs) m)" by (simp add: drop_take)
  also have "\<dots> = bs" unfolding m(3) using pl(1) by simp
  finally have tk: "take (4 + length bs) (?l @ drop 4 m) = ?l @ bs" by simp
  have len: "\<not> 4 + length bs > length (?l @ drop 4 m)" using m(2) \<open>length bs \<le> 65531\<close> by simp
  have "\<exists>as outs. ssend (sr_fd ?srv) (?l @ bs) (ma_net arg) =
        (int (4 + length bs), (ma_net arg)\<lparr>nt_sends := as, nt_out := nt_out (ma_net arg) @ outs\<rparr>) \<and>
      (\<forall>x \<in> set outs. fst x = sr_fd ?srv) \<and> concat (map snd outs) = ?l @ bs"
    using ssend_loop_all [OF pl(4), of 0 "?l @ bs" "sr_fd ?srv"] unfolding ssend_def by auto
  then obtain as outs where s: "ssend (sr_fd ?srv) (?l @ bs) (ma_net arg) =
        (int (4 + length bs), (ma_net arg)\<lparr>nt_sends := as, nt_out := nt_out (ma_net arg) @ outs\<rparr>)"
      "\<forall>x \<in> set outs. fst x = sr_fd ?srv" "concat (map snd outs) = ?l @ bs" by blast
  have "tcp_srv_send (mv_ename evt) ?srv m (4 + length bs) arg =
      Some (True, ?srv, ?l @ drop 4 m, arg\<lparr>ma_net := (ma_net arg)\<lparr>nt_sends := as, nt_out := nt_out (ma_net arg) @ outs\<rparr>\<rparr>)"
    using fd w len tk s(1) unfolding tcp_srv_send_def by simp
  with m(1) s(2,3) show ?thesis by blast
qed

lemma pick_first: "mv_servers evt \<noteq> [] \<Longrightarrow> pick_server evt None = Some 0"
  by (simp add: pick_server_def)

section \<open>The client receives\<close>

lemma get_reply:
  assumes "only_data (nt_in n)" "data_of (nt_in n) = be32 (of_nat (length x)) @ be32 reqid @ be32 code @ pl"
    and x: "x = be32 (of_nat (length x)) @ be32 reqid @ be32 code @ pl" and "length x \<le> MAX_PACKET_LEN" "length m = MAX_PACKET_LEN"
  shows "\<exists>rs. tcp_get_rep reqid srv m MAX_PACKET_LEN n = Some (code, length pl, srv, x @ drop (length x) m, n\<lparr>nt_in := rs\<rparr>)"
proof -
  have lx: "length x = 12 + length pl" by (subst x) simp
  have d: "data_of (nt_in n) = x" using assms(2) x by simp
  have "rd32 x 0 = Some (of_nat (length x))" by (subst (1) x) (rule rd32_at0)
  from recv_msg_whole [OF assms(1) d this assms(4), of m] obtain rs where r:
      "recv_msg m MAX_PACKET_LEN n = Some (int (length x), x @ drop (length x) m, n\<lparr>nt_in := rs\<rparr>)"
    using assms(5) by auto
  define rest where "rest = drop (length x) m"
  have "rd32 (be32 (of_nat (length x)) @ be32 reqid @ be32 code @ pl @ rest) 4 = Some reqid" by (rule rd32_at) simp
  moreover have "rd32 ((be32 (of_nat (length x)) @ be32 reqid) @ be32 code @ pl @ rest) 8 = Some code" by (rule rd32_at) simp
  ultimately have rd: "rd32 (x @ rest) 4 = Some reqid" "rd32 (x @ rest) 8 = Some code" using x by (metis append_assoc)+
  have pos: "x \<noteq> []" using lx by auto
  have "size_sub (length x) 12 = length pl" using lx assms(4) by (subst size_sub_le) simp_all
  then have "tcp_get_rep reqid srv m MAX_PACKET_LEN n = Some (code, length pl, srv, x @ rest, n\<lparr>nt_in := rs\<rparr>)"
    using r [folded rest_def] rd pos by (subst tcp_get_rep.simps) simp
  then show ?thesis unfolding rest_def by blast
qed

end
