(* ===== verification/Client_Push.thy ===== *)
theory Client_Push
  imports Client_Wire
begin

text \<open>
  The receiving side of the client (client/mscli.c, client/eloop.c, client/mcbk.c): the event loop
  hands what a connection has received to \<open>msparse_buf\<close>, which cuts it into messages; a message the
  server has pushed goes into the callback queue, a reply into the event; the callback thread calls
  what the application has registered.

  The threads are modelled by their steps. A buffer is the list of the bytes received into it: a
  read behind them, or a write behind the end of the block, is \<open>None\<close>.
\<close>

section \<open>Messages\<close>

text \<open>The value of the last attribute called \<open>cmd\<close>.\<close>

fun push_cmd :: "string option \<Rightarrow> hattr list \<Rightarrow> string option" where
  "push_cmd cmd [] = cmd"
| "push_cmd cmd ((k, v) # as) = push_cmd (if k = ''cmd'' then v else cmd) as"

definition set_evt :: "addr \<Rightarrow> moc_t \<Rightarrow> moc_arg \<Rightarrow> moc_arg" where
  "set_evt a evt arg = arg\<lparr>ma_evts := (ma_evts arg)(a \<mapsto> evt)\<rparr>"

text \<open>
  \<open>msparse_msg\<close> on the bytes of a message behind its length, for a connection of the event \<open>a\<close>. Signals
  to waiting threads have no effect on the data.
\<close>

definition msparse_msg :: "addr \<Rightarrow> bytes \<Rightarrow> moc_arg \<Rightarrow> ((int + unit) \<times> moc_arg) option" where
  "msparse_msg a bs arg =
     (if length bs < 8 then Some (Inl NERR_ASSERT, arg)
      else do {
        id \<leftarrow> rd32 bs 0;
        reply \<leftarrow> rd32 bs 4;
        let psize = length bs - 8;
        if id = 0 \<and> reply = 10000 then
          (if psize < 4 then Some (Inl NERR_ASSERT, arg)
           else do {
             let (ok, arg1) = arg_malloc arg;
             if \<not> ok then Some (Inl NERR_NOMEM, arg1)
             else do {
               (rv, hdf) \<leftarrow> unpack_hdf bs 12 (psize - 4);
               if rv = 0 then Some (Inl NERR_ASSERT, arg1)
               else do {
                 as \<leftarrow> hdf_get_attr hdf [] (Some ''_Reserve'');
                 (case push_cmd None as of
                    None \<Rightarrow> Some (Inl NERR_ASSERT, arg1)
                  | Some cmd \<Rightarrow> do {
                      evt \<leftarrow> ma_evts arg1 a;
                      arg2 \<leftarrow> put_callback \<lparr>mq_ename = Some (mv_ename evt), mq_cmd = Some cmd,
                                 mq_hdfrcv = hdf_remove_tree hdf [] ''_Reserve'', mq_hdfsnd = hdf_init\<rparr> arg1;
                      Some (Inr (), arg2) }) } } })
        else if id < ma_reqid arg then Some (Inl NERR_ASSERT, arg)
        else if psize \<ge> 4 then do {
          evt \<leftarrow> ma_evts arg a;
          (rv, hdf) \<leftarrow> unpack_hdf bs 12 (psize - 4);
          Some (if rv = 0 then Inl NERR_ASSERT else Inr (), set_evt a (evt\<lparr>mv_hdfrcv := hdf\<rparr>) arg) }
        else Some (Inr (), arg) })"

section \<open>Buffers\<close>

definition set_srv :: "addr \<Rightarrow> nat \<Rightarrow> (moc_srv \<Rightarrow> moc_srv) \<Rightarrow> moc_arg \<Rightarrow> moc_arg option" where
  "set_srv a i f arg = do {
     evt \<leftarrow> ma_evts arg a;
     if i < length (mv_servers evt)
     then Some (set_evt a (evt\<lparr>mv_servers := (mv_servers evt)[i := f (mv_servers evt ! i)]\<rparr>) arg)
     else None }"

definition get_srv :: "addr \<Rightarrow> nat \<Rightarrow> moc_arg \<Rightarrow> moc_srv option" where
  "get_srv a i arg = do {
     evt \<leftarrow> ma_evts arg a;
     if i < length (mv_servers evt) then Some (mv_servers evt ! i) else None }"

text \<open>
  \<open>msparse_buf\<close> on the bytes \<open>bs\<close>. The buffer is that of the connection when it has one, and the static
  one otherwise. An order equal to the number of servers passes the test of the code and reads behind
  the array.
\<close>

partial_function (option) msparse_buf :: "addr \<Rightarrow> nat \<Rightarrow> int \<Rightarrow> bytes \<Rightarrow> moc_arg \<Rightarrow> moc_arg option" where
  [code]: "msparse_buf a order fd bs arg = do {
     evt \<leftarrow> ma_evts arg a;
     if length (mv_servers evt) < order then Some arg
     else do {
       srv \<leftarrow> get_srv a order arg;
       if sr_fd srv \<noteq> fd then Some arg
       else do {
         let len = length bs;
         let totaltoget = (if len \<ge> 4 then unat (ntohl (take 4 bs)) else 4);
         if len \<ge> 4 \<and> (totaltoget > 65536 \<or> totaltoget \<le> 8) then Some arg
         else if totaltoget > len then
           (case sr_buf srv of
              None \<Rightarrow>
                (let (ok, arg1) = arg_malloc arg in
                 if \<not> ok then Some arg1
                 else set_srv a order (\<lambda>s. s\<lparr>sr_buf := Some bs, sr_len := len, sr_pktsize := totaltoget\<rparr>) arg1)
            | Some _ \<Rightarrow> set_srv a order (\<lambda>s. s\<lparr>sr_len := len, sr_pktsize := totaltoget\<rparr>) arg)
         else do {
           arg1 \<leftarrow> (if totaltoget < len then set_srv a order (\<lambda>s. s\<lparr>sr_excess := len - totaltoget\<rparr>) arg else Some arg);
           (err, arg2) \<leftarrow> msparse_msg a (drop 4 (take totaltoget bs)) arg1;
           srv2 \<leftarrow> get_srv a order arg2;
           if sr_excess srv2 > len - totaltoget then None
           else if sr_excess srv2 \<noteq> 0 then do {
             let bs' = take (sr_excess srv2) (drop totaltoget bs);
             arg3 \<leftarrow> set_srv a order (\<lambda>s. s\<lparr>sr_buf := map_option (\<lambda>_. bs') (sr_buf s), sr_len := sr_excess s, sr_excess := 0\<rparr>) arg2;
             msparse_buf a order fd bs' arg3 }
           else if sr_buf srv2 \<noteq> None
           then set_srv a order (\<lambda>s. s\<lparr>sr_buf := None, sr_len := 0, sr_pktsize := 0, sr_excess := 0\<rparr>) arg2
           else Some arg2 } } } }"

text \<open>The event loop has received \<open>bs\<close> on a connection; \<open>SBSIZE\<close> is the size of both buffers.\<close>

definition el_received :: "addr \<Rightarrow> nat \<Rightarrow> int \<Rightarrow> bytes \<Rightarrow> moc_arg \<Rightarrow> moc_arg option" where
  "el_received a order fd bs arg = do {
     srv \<leftarrow> get_srv a order arg;
     (case sr_buf srv of
        None \<Rightarrow> msparse_buf a order fd bs arg
      | Some b \<Rightarrow>
          if sr_len srv + length bs > SBSIZE then None
          else do {
            let b' = take (sr_len srv) b @ bs;
            arg1 \<leftarrow> set_srv a order (\<lambda>s. s\<lparr>sr_buf := Some b', sr_len := sr_len s + length bs\<rparr>) arg;
            msparse_buf a order fd b' arg1 }) }"

definition mssrv_close :: "addr \<Rightarrow> nat \<Rightarrow> int \<Rightarrow> moc_arg \<Rightarrow> moc_arg option" where
  "mssrv_close a order fd arg = do {
     evt \<leftarrow> ma_evts arg a;
     if length (mv_servers evt) < order then Some arg
     else do {
       srv \<leftarrow> get_srv a order arg;
       if sr_fd srv \<noteq> fd then Some arg
       else set_srv a order (\<lambda>s. s\<lparr>sr_fd := -1\<rparr>) (on_net (close_fd fd) arg) } }"

section \<open>The event loop\<close>

text \<open>One connection of a round of \<open>el_routine\<close>.\<close>

record el_con =
  ec_name :: string
  ec_order :: nat
  ec_fd :: int

abbreviation (input) MOC_MAX_CON :: nat where "MOC_MAX_CON \<equiv> 100"
abbreviation (input) ETIMEDOUT :: int where "ETIMEDOUT \<equiv> 110"

text \<open>The open connections of an event, then those of all events, at most a hundred.\<close>

definition evt_cons :: "moc_t \<Rightarrow> el_con list" where
  "evt_cons evt = map (\<lambda>i. \<lparr>ec_name = mv_ename evt, ec_order = i, ec_fd = sr_fd (mv_servers evt ! i)\<rparr>)
     (filter (\<lambda>i. 0 < sr_fd (mv_servers evt ! i)) [0..<length (mv_servers evt)])"

partial_function (option) el_refresh :: "string option \<Rightarrow> el_con list \<Rightarrow> moc_arg \<Rightarrow> el_con list option" where
  [code]: "el_refresh key conn arg = do {
     (key1, r) \<leftarrow> ne_hash_next key (ma_evth arg);
     (case r of
        None \<Rightarrow> Some conn
      | Some a \<Rightarrow> do {
          evt \<leftarrow> ma_evts arg a;
          el_refresh key1 (take MOC_MAX_CON (conn @ evt_cons evt)) arg }) }"

definition el_handle :: "el_con \<Rightarrow> rx \<Rightarrow> moc_arg \<Rightarrow> moc_arg option" where
  "el_handle c r arg =
     (case r of
        Fail e \<Rightarrow>
          if e = EAGAIN then Some arg
          else if e = ETIMEDOUT then
            (let (ok, arg1) = arg_malloc arg in
             if \<not> ok then Some arg1
             else put_callback \<lparr>mq_ename = Some (ec_name c), mq_cmd = Some ''_connectlost'', mq_hdfrcv = hdf_init, mq_hdfsnd = hdf_init\<rparr> arg1)
          else do {
            r \<leftarrow> ne_hash_lookup (ec_name c) (ma_evth arg);
            (case r of None \<Rightarrow> Some arg | Some a \<Rightarrow> mssrv_close a (ec_order c) (ec_fd c) arg) }
      | Got bs \<Rightarrow> do {
          r \<leftarrow> ne_hash_lookup (ec_name c) (ma_evth arg);
          (case r of
             None \<Rightarrow> Some arg
           | Some a \<Rightarrow>
               if bs = [] then mssrv_close a (ec_order c) (ec_fd c) arg
               else el_received a (ec_order c) (ec_fd c) bs arg) })"

text \<open>The connections \<open>select\<close> has found readable, with what \<open>recv\<close> gave on each.\<close>

fun el_round :: "(el_con \<times> rx) list \<Rightarrow> moc_arg \<Rightarrow> moc_arg option" where
  "el_round [] arg = Some arg"
| "el_round ((c, r) # rs) arg = do { arg1 \<leftarrow> el_handle c r arg; el_round rs arg1 }"

section \<open>Callbacks\<close>

text \<open>The key of a callback: both names joined by an underscore, cut to the size of the buffer.\<close>

definition mcbk_key :: "string \<Rightarrow> string \<Rightarrow> string" where
  "mcbk_key module cmd = take 1023 (module @ ''_'' @ cmd)"

definition mcbk_find :: "(string, nat) ne_hash \<Rightarrow> string \<Rightarrow> string \<Rightarrow> nat option option" where
  "mcbk_find cbkh module cmd = ne_hash_lookup (mcbk_key module cmd) cbkh"

definition mcbk_regist :: "(string, nat) ne_hash \<Rightarrow> string \<Rightarrow> string \<Rightarrow> nat \<Rightarrow> (string, nat) ne_hash option" where
  "mcbk_regist cbkh module cmd c = do {
     (old, h1) \<leftarrow> ne_hash_remove (mcbk_key module cmd) cbkh;
     (err, h2) \<leftarrow> ne_hash_insert True True (mcbk_key module cmd) c h1;
     Some h2 }"

text \<open>
  One round of \<open>callback_routine\<close>: the next entry is taken out of the queue, the callback for it called,
  if there is one, and the entry freed. The result tells which callback was called on which data.
\<close>

definition callback_round :: "moc_arg \<Rightarrow> ((nat \<times> hdf) list \<times> moc_arg) option" where
  "callback_round arg = do {
     (r, (q, h)) \<leftarrow> msqueue_get (ma_queue arg, ma_heap arg);
     (case r of
        None \<Rightarrow> Some ([], arg\<lparr>ma_queue := q, ma_heap := h\<rparr>)
      | Some e \<Rightarrow> do {
          n \<leftarrow> h e;
          ename \<leftarrow> mq_ename (qe_data n);
          cmd \<leftarrow> mq_cmd (qe_data n);
          c \<leftarrow> mcbk_find (ma_cbkh arg) ename cmd;
          Some (case c of None \<Rightarrow> [] | Some c \<Rightarrow> [(c, mq_hdfrcv (qe_data n))],
                arg\<lparr>ma_queue := q, ma_heap := h(e := None)\<rparr>) }) }"

end
