(* ===== verification/Client_Api.thy ===== *)
theory Client_Api
  imports Client_Push
begin

text \<open>
  The functions an application calls (client/moc.c): finding an event by the name of its module,
  setting parameters, triggering a request with or without the event loop, reading the results,
  registering callbacks, and loading the modules of a configuration.

  Names and addresses are resolved by the parameter \<open>resolve\<close>, \<open>qs\<close> is \<open>qsort\<close>.
\<close>

section \<open>Events by name\<close>

definition find_evt :: "string \<Rightarrow> moc_arg \<Rightarrow> (addr \<times> moc_t) option option" where
  "find_evt module arg = do {
     r \<leftarrow> ne_hash_lookup module (ma_evth arg);
     (case r of None \<Rightarrow> Some None | Some a \<Rightarrow> do { evt \<leftarrow> ma_evts arg a; Some (Some (a, evt)) }) }"

definition moc_hdfsnd :: "string \<Rightarrow> moc_arg \<Rightarrow> hdf option option" where
  "moc_hdfsnd module arg = do { r \<leftarrow> find_evt module arg; Some (map_option (\<lambda>(a, evt). mv_hdfsnd evt) r) }"

definition moc_hdfrcv :: "string \<Rightarrow> moc_arg \<Rightarrow> hdf option option" where
  "moc_hdfrcv module arg = do { r \<leftarrow> find_evt module arg; Some (map_option (\<lambda>(a, evt). mv_hdfrcv evt) r) }"

definition moc_errcode :: "string \<Rightarrow> moc_arg \<Rightarrow> int option" where
  "moc_errcode module arg = do { r \<leftarrow> find_evt module arg; Some (case r of None \<Rightarrow> -1 | Some (a, evt) \<Rightarrow> mv_errcode evt) }"

section \<open>Parameters\<close>

definition moc_set_param :: "string \<Rightarrow> string \<Rightarrow> string \<Rightarrow> moc_arg \<Rightarrow> ((int + unit) \<times> moc_arg) option" where
  "moc_set_param module key val arg = do {
     r \<leftarrow> find_evt module arg;
     (case r of
        None \<Rightarrow> Some (Inl NERR_ASSERT, arg)
      | Some (a, evt) \<Rightarrow> do {
          (err, hdf) \<leftarrow> hdf_set_value (mv_hdfsnd evt) [] key (Some val);
          Some (Inr (), set_evt a (evt\<lparr>mv_hdfsnd := hdf\<rparr>) arg) }) }"

definition moc_set_param_int :: "string \<Rightarrow> string \<Rightarrow> int \<Rightarrow> moc_arg \<Rightarrow> ((int + unit) \<times> moc_arg) option" where
  "moc_set_param_int module key val arg = do {
     r \<leftarrow> find_evt module arg;
     (case r of
        None \<Rightarrow> Some (Inl NERR_ASSERT, arg)
      | Some (a, evt) \<Rightarrow> do {
          (err, hdf) \<leftarrow> hdf_set_int_value (mv_hdfsnd evt) [] key val;
          Some (Inr (), set_evt a (evt\<lparr>mv_hdfsnd := hdf\<rparr>) arg) }) }"

definition moc_set_param_uint :: "string \<Rightarrow> string \<Rightarrow> u32 \<Rightarrow> moc_arg \<Rightarrow> ((int + unit) \<times> moc_arg) option" where
  "moc_set_param_uint module key val arg = moc_set_param module key (show_nat (unat val)) arg"

definition moc_set_param_int64 :: "string \<Rightarrow> string \<Rightarrow> 64 word \<Rightarrow> moc_arg \<Rightarrow> ((int + unit) \<times> moc_arg) option" where
  "moc_set_param_int64 module key val arg = moc_set_param module key (show_int (sint val)) arg"

section \<open>Requests\<close>

definition moc_trigger_r :: "string \<Rightarrow> bytes option \<Rightarrow> u16 \<Rightarrow> u16 \<Rightarrow> moc_arg \<Rightarrow> (int \<times> moc_arg) option" where
  "moc_trigger_r module key cmd flags arg = do {
     r \<leftarrow> find_evt module arg;
     (case r of
        None \<Rightarrow> Some (REP_ERR, arg)
      | Some (a, evt) \<Rightarrow> do {
          (code, evt', arg1) \<leftarrow> mevt_trigger key cmd flags evt arg;
          Some (code, set_evt a evt' arg1) }) }"

text \<open>
  With the event loop the caller sleeps until a reply is signalled. \<open>waiting\<close> is what the other threads do
  meanwhile, with the result of \<open>mssync_timedwait\<close>: 0, or an error.
\<close>

definition moc_trigger :: "(moc_arg \<Rightarrow> (int \<times> moc_arg) option) \<Rightarrow> string \<Rightarrow> bytes option \<Rightarrow> u16 \<Rightarrow> u16 \<Rightarrow> moc_arg \<Rightarrow> (int \<times> moc_arg) option" where
  "moc_trigger waiting module key cmd flags arg = do {
     r \<leftarrow> find_evt module arg;
     (case r of
        None \<Rightarrow> Some (REP_ERR, arg)
      | Some (a, evt) \<Rightarrow> do {
          (ok, i, evt1, arg1) \<leftarrow> mevt_send key cmd flags evt arg;
          let arg2 = set_evt a evt1 arg1;
          if \<not> ok then Some (REP_ERR_SEND, arg2)
          else if flags AND FLAGS_SYNC = 0 then Some (REP_OK, arg2)
          else do {
            arg3 \<leftarrow> set_srv a i (\<lambda>s. if fst (sr_tv s) \<le> 0 then s\<lparr>sr_tv := (1, snd (sr_tv s))\<rparr> else s) arg2;
            (ret, arg4) \<leftarrow> waiting arg3;
            if ret = 0 then Some (REP_OK, arg4)
            else do {
              evt4 \<leftarrow> ma_evts arg4 a;
              (err, hdf) \<leftarrow> hdf_set_value (mv_hdfrcv evt4) [] ''Output.errmsg''
                 (Some (if ret = ETIMEDOUT then no_response else ''timedwait error '' @ show_int ret));
              Some (REP_ERR, set_evt a (evt4\<lparr>mv_hdfrcv := hdf\<rparr>) arg4) } } }) }"

definition moc_regist_callback :: "string \<Rightarrow> string \<Rightarrow> nat \<Rightarrow> moc_arg \<Rightarrow> ((int + unit) \<times> moc_arg) option" where
  "moc_regist_callback module cmd cmdcbk arg =
     (let (ok, arg1) = arg_malloc arg in
      if \<not> ok then Some (Inl NERR_NOMEM, arg1)
      else do { h \<leftarrow> mcbk_regist (ma_cbkh arg1) module cmd cmdcbk; Some (Inr (), arg1\<lparr>ma_cbkh := h\<rparr>) })"

section \<open>Loading the configuration\<close>

definition moc_add_tcp_server :: "(moc_srv list \<Rightarrow> moc_srv list) \<Rightarrow> (string \<Rightarrow> u32 option) \<Rightarrow> moc_t \<Rightarrow> string option \<Rightarrow> int \<Rightarrow> bool \<Rightarrow>
    int \<times> int \<Rightarrow> moc_arg \<Rightarrow> (bool \<times> moc_t \<times> moc_arg) option" where
  "moc_add_tcp_server qs resolve evt host port nblock tv arg = do {
     h \<leftarrow> host;
     (case resolve h of
        None \<Rightarrow> Some (False, evt, arg)
      | Some ia \<Rightarrow>
          (let (grow, arg1) = arg_malloc arg;
               (shrink, arg2) = arg_malloc arg1;
               (ok, evt1, n) = add_tcp_server_addr qs grow shrink ia (of_int port) nblock tv evt (ma_net arg2)
           in Some (ok, evt1, arg2\<lparr>ma_net := n\<rparr>))) }"

text \<open>\<open>mevt_destroy\<close> closes the connections of an event, also those that are closed already.\<close>

definition mevt_destroy :: "moc_t \<Rightarrow> net \<Rightarrow> net" where
  "mevt_destroy evt n = foldl (\<lambda>n s. close_fd (sr_fd s) n) n (mv_servers evt)"

definition new_evt :: "string option \<Rightarrow> moc_arg \<Rightarrow> moc_t option \<times> moc_arg" where
  "new_evt name arg =
     (case name of
        None \<Rightarrow> (None, arg)
      | Some s \<Rightarrow> (let (ok1, arg1) = arg_malloc arg; (ok2, arg2) = arg_malloc arg1 in (mevt_create ok1 ok2 s, arg2)))"

text \<open>
  The configuration servers, tried one after the other. \<open>freed\<close> tells that \<open>nevt\<close> points to an event that
  has been freed; \<open>junk\<close> is the timeout a server added without one gets. The result is the event
  with the configuration, if a server has sent it.
\<close>

partial_function (option) load_netmodules ::
    "(moc_srv list \<Rightarrow> moc_srv list) \<Rightarrow> (string \<Rightarrow> u32 option) \<Rightarrow> int \<times> int \<Rightarrow> hdf \<Rightarrow> path option \<Rightarrow> bool \<Rightarrow> moc_arg \<Rightarrow>
     ((int + moc_t option \<times> bool) \<times> moc_arg) option" where
  [code]: "load_netmodules qs resolve junk cfg node freed arg =
     (case node of
        None \<Rightarrow> Some (Inr (None, freed), arg)
      | Some p \<Rightarrow>
          (case new_evt (Some ''_Reserve.Clientmod'') arg of
             (None, arg1) \<Rightarrow> Some (Inl NERR_NOMEM, arg1)
           | (Some nevt, arg1) \<Rightarrow> do {
               host \<leftarrow> hdf_get_value cfg p (Some ''host'') None;
               port \<leftarrow> hdf_get_int_value cfg p (Some ''port'') 5000;
               (ok, nevt1, arg2) \<leftarrow> moc_add_tcp_server qs resolve nevt host port False junk arg1;
               (nevt2, arg3) \<leftarrow> (if ok then do { (code, e, arg3) \<leftarrow> mevt_trigger None 200 FLAGS_SYNC nevt1 arg2; Some (e, arg3) }
                                 else Some (nevt1, arg2));
               if ok \<and> mv_errcode nevt2 \<ge> REP_OK then Some (Inr (Some nevt2, False), arg3)
               else load_netmodules qs resolve junk cfg (hdf_obj_next cfg (Some p)) True (on_net (mevt_destroy nevt2) arg3) }))"

partial_function (option) load_servers ::
    "(moc_srv list \<Rightarrow> moc_srv list) \<Rightarrow> (string \<Rightarrow> u32 option) \<Rightarrow> hdf \<Rightarrow> path option \<Rightarrow> moc_t \<Rightarrow> moc_arg \<Rightarrow> (moc_t \<times> moc_arg) option" where
  [code]: "load_servers qs resolve t cnode evt arg =
     (case cnode of
        None \<Rightarrow> Some (evt, arg)
      | Some c \<Rightarrow> do {
          ip \<leftarrow> hdf_get_value t c (Some ''ip'') (Some ''127.0.0.1'');
          port \<leftarrow> hdf_get_int_value t c (Some ''port'') 5000;
          nblk \<leftarrow> hdf_get_int_value t c (Some ''non_block'') 0;
          s \<leftarrow> hdf_get_int_value t c (Some ''timeout_s'') 0;
          u \<leftarrow> hdf_get_int_value t c (Some ''timeout_u'') 0;
          (ok, evt1, arg1) \<leftarrow> moc_add_tcp_server qs resolve evt ip port (nblk \<noteq> 0) (s, u) arg;
          load_servers qs resolve t (hdf_obj_next t (Some c)) evt1 arg1 })"

partial_function (option) load_modules ::
    "(moc_srv list \<Rightarrow> moc_srv list) \<Rightarrow> (string \<Rightarrow> u32 option) \<Rightarrow> hdf \<Rightarrow> path option \<Rightarrow> moc_arg \<Rightarrow> ((int + unit) \<times> moc_arg) option" where
  [code]: "load_modules qs resolve t node arg =
     (case node of
        None \<Rightarrow> Some (Inr (), arg)
      | Some p \<Rightarrow>
          (case new_evt (hdf_obj_name t (Some p)) arg of
             (None, arg1) \<Rightarrow> Some (Inl NERR_NOMEM, arg1)
           | (Some evt, arg1) \<Rightarrow> do {
               cnode \<leftarrow> hdf_obj_child t (Some p);
               (evt1, arg2) \<leftarrow> load_servers qs resolve t cnode evt arg1;
               arg3 \<leftarrow> (if mv_servers evt1 \<noteq> [] then do {
                          let a = ma_next arg2;
                          (err, h) \<leftarrow> ne_hash_insert True True (mv_ename evt) a (ma_evth arg2);
                          Some (set_evt a evt1 (arg2\<lparr>ma_evth := h, ma_next := a + 1\<rparr>)) }
                        else Some arg2);
               load_modules qs resolve t (hdf_obj_next t (Some p)) arg3 }))"

text \<open>
  \<open>_moc_load_fromhdf\<close>. When every configuration server has failed, the event of the last one is freed a
  second time.
\<close>

definition moc_load_fromhdf :: "(moc_srv list \<Rightarrow> moc_srv list) \<Rightarrow> (string \<Rightarrow> u32 option) \<Rightarrow> int \<times> int \<Rightarrow> hdf \<Rightarrow> moc_arg \<Rightarrow> ((int + unit) \<times> moc_arg) option" where
  "moc_load_fromhdf qs resolve junk cfg arg = do {
     node \<leftarrow> hdf_get_child cfg [] (Some ''_netmodules'');
     (r, arg1) \<leftarrow> load_netmodules qs resolve junk cfg node False arg;
     (case r of
        Inl e \<Rightarrow> Some (Inl e, arg1)
      | Inr (nevt, freed) \<Rightarrow> do {
          (t, p) \<leftarrow> (case nevt of
                        None \<Rightarrow> Some (cfg, Some [])
                      | Some e \<Rightarrow> do { p \<leftarrow> hdf_get_obj (mv_hdfrcv e) [] (Some ''modules''); Some (mv_hdfrcv e, p) });
          p1 \<leftarrow> (case p of None \<Rightarrow> Some None
                 | Some q \<Rightarrow> do { r \<leftarrow> hdf_get_obj t q (Some ''modules''); Some (if r = None then Some q else r) });
          node \<leftarrow> hdf_obj_child t p1;
          (r2, arg2) \<leftarrow> load_modules qs resolve t node arg1;
          (case r2 of
             Inl e \<Rightarrow> Some (Inl e, arg2)
           | Inr u \<Rightarrow> if freed then None
                      else Some (Inr (), case nevt of None \<Rightarrow> arg2 | Some e \<Rightarrow> on_net (mevt_destroy e) arg2)) }) }"

text \<open>The loop of \<open>_moc_destroy\<close> over the events.\<close>

partial_function (option) destroy_evts :: "string option \<Rightarrow> moc_arg \<Rightarrow> moc_arg option" where
  [code]: "destroy_evts key arg = do {
     (key1, r) \<leftarrow> ne_hash_next key (ma_evth arg);
     (case r of
        None \<Rightarrow> Some arg
      | Some a \<Rightarrow> do {
          evt \<leftarrow> ma_evts arg a;
          destroy_evts key1 (on_net (mevt_destroy evt) (arg\<lparr>ma_evts := (ma_evts arg)(a := None)\<rparr>)) }) }"

definition moc_destroy_r :: "moc_arg \<Rightarrow> moc_arg option" where
  "moc_destroy_r arg = destroy_evts None arg"

end
