(* ===== verification/Server_Tcp.thy ===== *)
theory Server_Tcp
  imports Server_Parse
begin

text \<open>
  Connections (server/tcp.c): new connections, the framing of the byte stream into messages, and
  closing. The buffer fields of \<open>struct tcp_socket\<close> are the record \<open>framing\<close>, kept per connection
  beside the rest of the state; the temporary buffer is the bytes it holds, and filling it past its
  \<open>SBSIZE\<close> bytes is \<open>None\<close>.
\<close>

abbreviation (input) SBSIZE :: nat where "SBSIZE \<equiv> 69632"

record framing =
  fr_buf :: "bytes option"
  fr_pktsize :: nat
  fr_len :: nat
  fr_excess :: nat

definition framing_init :: framing where
  "framing_init = \<lparr>fr_buf = None, fr_pktsize = 0, fr_len = 0, fr_excess = 0\<rparr>"

text \<open>
  \<open>tcp_newconnection\<close> at a fresh address with the socket number \<open>accept\<close> returned; \<open>junk\<close> is what the
  allocated request record held before, \<open>nonblock\<close> whether \<open>fcntl\<close> succeeded.
\<close>

definition tcp_newconnection :: "int \<Rightarrow> bool \<Rightarrow> req_info \<Rightarrow> world \<Rightarrow> ((addr \<times> framing) option \<times> world) option" where
  "tcp_newconnection newfd nonblock junk w =
     (let (ok1, w1) = malloc_ok w in
      if \<not> ok1 then Some (None, w1)
      else let (ok2, w2) = malloc_ok w1 in
      if \<not> ok2 then Some (None, w2)
      else if \<not> nonblock then Some (None, logged (Closed newfd) w2)
      else do {
        let a = w_next w2;
        let s = \<lparr>sk_refcount = 0, sk_fd = newfd, sk_evt = True, sk_req = junk, sk_on_close = False\<rparr>;
        w3 \<leftarrow> tcp_socket_add_ref a (w2\<lparr>w_socks := (w_socks w2)(a \<mapsto> s), w_next := a + 1\<rparr>);
        Some (Some (a, framing_init), w3) })"

text \<open>The common \<open>error_exit\<close>: close, forget the event, drop the connection's own reference.\<close>

definition conn_error :: "addr \<Rightarrow> world \<Rightarrow> world option" where
  "conn_error a w = do {
     s \<leftarrow> w_socks w a;
     tcp_socket_remove_ref a (logged (Closed (sk_fd s))
       (w\<lparr>w_socks := (w_socks w)(a \<mapsto> s\<lparr>sk_fd := -1, sk_evt := False\<rparr>)\<rparr>)) }"

text \<open>
  \<open>process_buf\<close> on the first \<open>len\<close> bytes of its buffer, which is the static one when \<open>fr_buf\<close> is NULL.
  The flag of the result tells whether the connection is still open.
\<close>

function process_buf :: "addr \<Rightarrow> bytes \<Rightarrow> framing \<Rightarrow> world \<Rightarrow> (bool \<times> framing \<times> world) option" where
  "process_buf a bs fr w =
     (let len = length bs;
          totaltoget = (if len \<ge> 4 then unat (ntohl (take 4 bs)) else 4) in
      if len \<ge> 4 \<and> (totaltoget > 65536 \<or> totaltoget \<le> 8) then
        map_option (\<lambda>w'. (False, fr, w')) (conn_error a w)
      else if totaltoget > len then
        (case fr_buf fr of
           None \<Rightarrow>
             (let (ok, w1) = malloc_ok w in
              if \<not> ok then map_option (\<lambda>w'. (False, fr, w')) (conn_error a w1)
              else Some (True, fr\<lparr>fr_buf := Some bs, fr_len := len, fr_pktsize := totaltoget\<rparr>, w1))
         | Some _ \<Rightarrow> Some (True, fr\<lparr>fr_buf := Some bs, fr_len := len, fr_pktsize := totaltoget\<rparr>, w))
      else
        let excess = len - totaltoget in
        (case parse_message a (drop 4 (take totaltoget bs)) (count_stat (\<lambda>s. s\<lparr>msg_tcp := msg_tcp s + 1\<rparr>) w) of
           None \<Rightarrow> None
         | Some (ok, w1) \<Rightarrow>
             if \<not> ok then map_option (\<lambda>w'. (False, fr\<lparr>fr_excess := excess\<rparr>, w')) (conn_error a w1)
             else if excess > 0 then
               (case init_req a w1 of
                  None \<Rightarrow> None
                | Some w2 \<Rightarrow>
                    process_buf a (drop totaltoget bs)
                      (fr\<lparr>fr_buf := map_option (\<lambda>_. drop totaltoget bs) (fr_buf fr), fr_len := excess, fr_excess := 0\<rparr>) w2)
             else if fr_buf fr \<noteq> None then Some (True, framing_init, w1)
             else Some (True, fr, w1)))"
  by auto
termination
  by (relation "measure (\<lambda>(a, bs, fr, w). length bs)") (auto split: if_splits)

declare process_buf.simps [simp del]

datatype recv_result = Received bytes | Again | Timed_out | Failed

definition tcp_recv :: "addr \<Rightarrow> recv_result \<Rightarrow> framing \<Rightarrow> world \<Rightarrow> (bool \<times> framing \<times> world) option" where
  "tcp_recv a r fr w =
     (case fr_buf fr of
        None \<Rightarrow>
          (case r of
             Again \<Rightarrow> Some (True, fr, w)
           | Timed_out \<Rightarrow> Some (True, fr, w)
           | Failed \<Rightarrow> map_option (\<lambda>w'. (False, fr, w')) (conn_error a w)
           | Received bs \<Rightarrow> do { w1 \<leftarrow> init_req a w; process_buf a bs fr w1 })
      | Some b \<Rightarrow>
          (case r of
             Again \<Rightarrow> Some (True, fr, w)
           | Timed_out \<Rightarrow> map_option (\<lambda>w'. (False, fr, w')) (conn_error a w)
           | Failed \<Rightarrow> map_option (\<lambda>w'. (False, fr, w')) (conn_error a w)
           | Received bs \<Rightarrow>
               if length b + length bs > SBSIZE then None
               else process_buf a (b @ bs) (fr\<lparr>fr_buf := Some (b @ bs), fr_len := fr_len fr + length bs\<rparr>) w))"

text \<open>How many bytes a \<open>recv\<close> call asks for.\<close>

definition recv_room :: "framing \<Rightarrow> nat" where
  "recv_room fr = (if fr_buf fr = None then SBSIZE else size_sub (fr_pktsize fr) (fr_len fr))"

end
