(* ===== verification/Server_Frame.thy ===== *)
theory Server_Frame
  imports Server_Tcp
begin

text \<open>
  What each operation of the server leaves alone. A reply changes only the log and the answers of
  \<open>send\<close> (\<open>quiet\<close>); handling a request changes, of the connections, only the reference count of
  its own one, and that only upwards (\<open>parse_message_keeps\<close>). The theory holds the equations of the
  operations when memory does not run out, on which the theorems about streams, queues and
  reference counts rest.
\<close>

section \<open>Replies change nothing but the log\<close>

definition quiet :: "world \<Rightarrow> world \<Rightarrow> bool" where
  "quiet w w' \<longleftrightarrow> w' = w\<lparr>w_log := w_log w', w_sends := w_sends w'\<rparr>"

lemma quiet_refl [simp]: "quiet w w"
  by (simp add: quiet_def)

lemma quiet_trans: "quiet w w1 \<Longrightarrow> quiet w1 w2 \<Longrightarrow> quiet w w2"
  by (cases w; cases w1; cases w2) (simp add: quiet_def)

lemma quiet_fields:
  assumes "quiet w w'"
  shows "w_stat w' = w_stat w" "w_socks w' = w_socks w" "w_entries w' = w_entries w" "w_events w' = w_events w"
    "w_table w' = w_table w" "w_next w' = w_next w" "w_cfg w' = w_cfg w" "w_mem w' = w_mem w" "w_rnd w' = w_rnd w"
  using assms by (cases w; cases w'; simp add: quiet_def)+

lemma quiet_do_send: "quiet w (snd (do_send fd bs w))"
  by (auto simp: do_send_def logged_def quiet_def Let_def split: prod.splits)

lemma quiet_rep_send_error: "quiet w (rep_send_error req code w)"
  by (simp add: rep_send_error_def quiet_do_send)

lemma quiet_rep_send_loop: "quiet w (snd (rep_send_loop req n rest w))"
proof (induction req n rest w rule: rep_send_loop.induct)
  case (1 req n rest w)
  let ?w1 = "snd (do_send (rq_fd req) rest w)"
  note q = quiet_do_send [of w "rq_fd req" rest]
  show ?case
    using 1 quiet_trans [OF q quiet_rep_send_error] quiet_trans [OF q] q
    by (subst rep_send_loop.simps) (auto simp: Let_def)
qed

lemma quiet_reply_mini [simp]: "quiet w (tcp_reply_mini req code w)"
  by (simp add: tcp_reply_mini_def rep_send_def quiet_rep_send_loop)

lemma quiet_reply_long [simp]: "quiet w (tcp_reply_long req code val w)"
  by (cases val) (simp_all add: tcp_reply_long_def rep_send_def quiet_rep_send_loop)

lemma malloc_ok_plenty [simp]: "w_mem w = [] \<Longrightarrow> malloc_ok w = (True, w)"
  by (simp add: malloc_ok_def)

lemma quiet_reply_trigger: "reply_trigger q code w = Some (r, w') \<Longrightarrow> w_mem w = [] \<Longrightarrow> quiet w w'"
  by (auto simp: reply_trigger_def split: if_splits prod.splits)

lemma quiet_count [simp]: "w_socks (count_stat f w) = w_socks w" "w_entries (count_stat f w) = w_entries w"
  "w_events (count_stat f w) = w_events w" "w_table (count_stat f w) = w_table w" "w_next (count_stat f w) = w_next w"
  "w_cfg (count_stat f w) = w_cfg w" "w_mem (count_stat f w) = w_mem w" "w_rnd (count_stat f w) = w_rnd w"
  by (simp_all add: count_stat_def)

lemma logged_fields [simp]: "w_socks (logged e w) = w_socks w" "w_entries (logged e w) = w_entries w"
  "w_events (logged e w) = w_events w" "w_table (logged e w) = w_table w" "w_next (logged e w) = w_next w"
  "w_cfg (logged e w) = w_cfg w" "w_mem (logged e w) = w_mem w" "w_rnd (logged e w) = w_rnd w" "w_stat (logged e w) = w_stat w"
  by (simp_all add: logged_def)

section \<open>The structure of the state\<close>

text \<open>
  Two states have the same structure when they differ at most in counters, log, kernel answers and
  in the reply data of queue entries.
\<close>

definition same_entries :: "qdata qheap \<Rightarrow> qdata qheap \<Rightarrow> bool" where
  "same_entries h h' \<longleftrightarrow> (\<forall>a. map_option (\<lambda>n. (qe_prev n, qd_req (qe_data n))) (h' a) = map_option (\<lambda>n. (qe_prev n, qd_req (qe_data n))) (h a))"

definition same_shape :: "world \<Rightarrow> world \<Rightarrow> bool" where
  "same_shape w w' \<longleftrightarrow> w_socks w' = w_socks w \<and> same_entries (w_entries w) (w_entries w') \<and> w_events w' = w_events w \<and>
     w_table w' = w_table w \<and> w_next w \<le> w_next w' \<and> w_mem w' = w_mem w"

lemma same_entries_refl [simp]: "same_entries h h"
  by (simp add: same_entries_def)

lemma same_entries_trans: "same_entries h h1 \<Longrightarrow> same_entries h1 h2 \<Longrightarrow> same_entries h h2"
  by (simp add: same_entries_def)

lemma same_shape_refl [simp]: "same_shape w w"
  by (simp add: same_shape_def)

lemma same_shape_trans: "same_shape w w1 \<Longrightarrow> same_shape w1 w2 \<Longrightarrow> same_shape w w2"
  using same_entries_trans by (auto simp: same_shape_def)

lemma quiet_same_shape: "quiet w w' \<Longrightarrow> same_shape w w'"
  by (simp add: same_shape_def quiet_fields)

lemma count_same_shape [simp]: "same_shape w (count_stat f w)"
  by (simp add: same_shape_def)

lemma set_hdfsnd_same_shape: "set_hdfsnd a hdf w = Some w' \<Longrightarrow> same_shape w w'"
  by (auto simp: set_hdfsnd_def same_shape_def same_entries_def)

lemma same_shape_mem: "same_shape w w' \<Longrightarrow> w_mem w' = w_mem w"
  by (simp add: same_shape_def)

lemma answer_same_shape:
  assumes "set_hdfsnd a hdf w = Some w1" "reply_trigger q code w1 = Some (r, w2)" "w_mem w = []"
  shows "same_shape w w2"
proof -
  have sh: "same_shape w w1" by (rule set_hdfsnd_same_shape [OF assms(1)])
  have "same_shape w1 w2" by (rule quiet_same_shape, rule quiet_reply_trigger [OF assms(2)]) (simp add: same_shape_mem [OF sh] assms(3))
  with sh show ?thesis by (rule same_shape_trans)
qed

lemma parse_stats_same_shape: "parse_stats a w = Some w' \<Longrightarrow> w_mem w = [] \<Longrightarrow> same_shape w w'"
  by (auto simp: parse_stats_def intro: answer_same_shape)

lemma parse_clientmod_same_shape: "parse_clientmod a w = Some w' \<Longrightarrow> w_mem w = [] \<Longrightarrow> same_shape w w'"
  by (auto simp: parse_clientmod_def quiet_same_shape split: option.splits intro: answer_same_shape)

section \<open>Making and freeing entries\<close>

definition new_entry :: "req_info \<Rightarrow> bytes \<Rightarrow> hdf \<Rightarrow> qdata queue_entry" where
  "new_entry req ename hdf =
     \<lparr>qe_data = \<lparr>qd_operation = ucast (rq_cmd req), qd_ename = ename, qd_hdfrcv = hdf, qd_hdfsnd = hdf_init, qd_req = req\<rparr>,
      qe_prev = None\<rparr>"

definition entered_world :: "req_info \<Rightarrow> bytes \<Rightarrow> hdf \<Rightarrow> tcp_socket \<Rightarrow> world \<Rightarrow> world" where
  "entered_world req ename hdf s w =
     w\<lparr>w_socks := (w_socks w)(rq_sock req \<mapsto> s\<lparr>sk_refcount := sk_refcount s + 1\<rparr>),
       w_entries := (w_entries w)(w_next w \<mapsto> new_entry req ename hdf), w_next := w_next w + 1\<rparr>"

lemma entered_world_fields [simp]:
  "w_socks (entered_world req ename hdf s w) = (w_socks w)(rq_sock req \<mapsto> s\<lparr>sk_refcount := sk_refcount s + 1\<rparr>)"
  "w_entries (entered_world req ename hdf s w) = (w_entries w)(w_next w \<mapsto> new_entry req ename hdf)"
  "w_next (entered_world req ename hdf s w) = w_next w + 1"
  "w_events (entered_world req ename hdf s w) = w_events w" "w_table (entered_world req ename hdf s w) = w_table w"
  "w_mem (entered_world req ename hdf s w) = w_mem w"
  by (simp_all add: entered_world_def)

lemma make_entry_plenty:
  "w_mem w = [] \<Longrightarrow> w_socks w (rq_sock req) = Some s \<Longrightarrow>
   make_queue_long_entry req ename hdf w = Some (Some (w_next w), entered_world req ename hdf s w)"
  by (simp add: make_queue_long_entry_def tcp_socket_add_ref_def entered_world_def new_entry_def)

lemma remove_ref_keep:
  "w_socks w a = Some s \<Longrightarrow> 1 < sk_refcount s \<Longrightarrow>
   tcp_socket_remove_ref a w = Some (w\<lparr>w_socks := (w_socks w)(a \<mapsto> s\<lparr>sk_refcount := sk_refcount s - 1\<rparr>)\<rparr>)"
  by (simp add: tcp_socket_remove_ref_def Let_def)

lemma free_entry_keep:
  assumes "w_entries w e = Some n" "w_socks w (rq_sock (qd_req (qe_data n))) = Some s" "1 < sk_refcount s"
  shows "free_entry e w = Some (w\<lparr>w_socks := (w_socks w)(rq_sock (qd_req (qe_data n)) \<mapsto> s\<lparr>sk_refcount := sk_refcount s - 1\<rparr>),
     w_entries := (w_entries w)(e := None)\<rparr>)"
  using assms by (simp add: free_entry_def queue_entry_free_def release_entry_def remove_ref_keep)

text \<open>A request that is answered at once leaves no trace in the structure.\<close>

lemma answer_at_once_same_shape:
  assumes run: "answer_at_once act req ename hdf w = Some (ok, w')"
    and act: "\<And>a w w'. act a w = Some w' \<Longrightarrow> w_mem w = [] \<Longrightarrow> same_shape w w'"
    and mem: "w_mem w = []" and sock: "w_socks w (rq_sock req) = Some s" "0 < sk_refcount s"
    and free: "w_entries w (w_next w) = None"
  shows "ok \<and> same_shape w w'"
proof -
  let ?w1 = "entered_world req ename hdf s w"
  obtain w2 where w2: "act (w_next w) ?w1 = Some w2" and w3: "free_entry (w_next w) w2 = Some w'" and ok
    using run by (auto simp: answer_at_once_def make_entry_plenty [where s = s] mem sock)
  have sh: "same_shape ?w1 w2" by (rule act [OF w2]) (simp add: mem)
  then obtain n where n: "w_entries w2 (w_next w) = Some n" "qd_req (qe_data n) = req"
    by (auto simp: same_shape_def same_entries_def new_entry_def dest!: spec [of _ "w_next w"])
  have "w' = w2\<lparr>w_socks := (w_socks w2)(rq_sock req \<mapsto> s), w_entries := (w_entries w2)(w_next w := None)\<rparr>"
    using w3 free_entry_keep [OF n(1), of "s\<lparr>sk_refcount := sk_refcount s + 1\<rparr>"] sh sock(2)
    by (simp add: n(2) same_shape_def)
  then have "same_shape w w'"
    using sh sock(1) free by (auto simp: same_shape_def same_entries_def fun_upd_idem split: if_splits)
  with \<open>ok\<close> show ?thesis by simp
qed

section \<open>The outcome of a request\<close>

lemma put_in_queue_outcome:
  assumes run: "put_in_queue_long req sync ename hdf w = Some (ok, w')"
    and mem: "w_mem w = []" and sock: "w_socks w (rq_sock req) = Some s" "0 < sk_refcount s"
    and free: "w_entries w (w_next w) = None"
  shows "ok \<and> (same_shape w w' \<or>
     (\<exists>ev. find_entry_in_table w ename = Some (Some ev) \<and> enqueue sync ev (w_next w) (entered_world req ename hdf s w) = Some w'))"
proof -
  obtain r where r: "find_entry_in_table w ename = Some r" using run by (auto simp: put_in_queue_long_def)
  have stats: "answer_at_once parse_stats req ename hdf w = Some (ok, w') \<Longrightarrow> ok \<and> same_shape w w'"
    by (rule answer_at_once_same_shape [OF _ _ mem sock free]) (auto intro: parse_stats_same_shape)
  have clientmod: "answer_at_once parse_clientmod req ename hdf w = Some (ok, w') \<Longrightarrow> ok \<and> same_shape w w'"
    by (rule answer_at_once_same_shape [OF _ _ mem sock free]) (auto intro: parse_clientmod_same_shape)
  have refused: "same_shape w (if sync then tcp_reply_mini req code (count_stat f w) else count_stat f w)" for code f
    using same_shape_trans [OF count_same_shape quiet_same_shape [OF quiet_reply_mini]] by simp
  show ?thesis
  proof (cases r)
    case None
    then show ?thesis
      using run stats clientmod refused unfolding put_in_queue_long_def r Let_def
      by (auto split: if_splits)
  next
    case (Some ev)
    then show ?thesis
      using run refused unfolding put_in_queue_long_def r Let_def
      by (auto simp: make_entry_plenty [where s = s] mem sock split: if_splits)
  qed
qed

lemma set_prev_dom: "set_prev a p h = Some h' \<Longrightarrow> dom h' = dom h"
  by (auto simp: set_prev_def split: option.splits if_splits)

lemma queue_ops_dom:
  "queue_put (q, h) e = Some (q', h') \<Longrightarrow> dom h' = dom h" "queue_cas (q, h) e = Some (q', h') \<Longrightarrow> dom h' = dom h"
  by (cases "q_top q"; clarsimp simp: queue_cas_def queue_put_def set_prev_dom)+

lemma enqueue_frame:
  assumes "enqueue sync ev e w = Some w'"
  shows "w_socks w' = w_socks w" "w_next w' = w_next w" "w_mem w' = w_mem w" "w_table w' = w_table w"
    "dom (w_entries w') = dom (w_entries w)" "dom (w_events w') = dom (w_events w)"
  using assms queue_ops_dom by (fastforce simp: enqueue_def split: if_splits)+

lemma parse_event_outcome:
  assumes run: "parse_event req payload w = Some w'"
    and mem: "w_mem w = []" and sock: "w_socks w (rq_sock req) = Some s" "0 < sk_refcount s"
    and free: "w_entries w (w_next w) = None"
  shows "same_shape w w' \<or>
     (\<exists>ename hdf ev. find_entry_in_table w ename = Some (Some ev) \<and>
        enqueue (rq_flags req AND FLAGS_SYNC \<noteq> 0) ev (w_next w) (entered_world req ename hdf s w) = Some w')"
proof -
  let ?sync = "rq_flags req AND FLAGS_SYNC \<noteq> 0"
  have broken: "same_shape w (if ?sync then tcp_reply_mini req REP_ERR_BROKEN (count_stat f w) else count_stat f w)" for f
    using same_shape_trans [OF count_same_shape quiet_same_shape [OF quiet_reply_mini]] by simp
  have entered: "ok \<and> (same_shape w w1 \<or> (\<exists>ev. find_entry_in_table w ename = Some (Some ev) \<and>
        enqueue ?sync ev (w_next w) (entered_world req ename hdf s w) = Some w1))"
    if "put_in_queue_long req ?sync ename hdf w = Some (ok, w1)" for ename hdf ok w1
    using put_in_queue_outcome [OF that mem sock free] by auto
  obtain esize where esize: "rd32 payload 0 = Some esize" using run by (auto simp: parse_event_def Let_def)
  obtain rsize hdf where hdf: "unpack_hdf payload (4 + unat esize) (size_sub (size_sub (length payload) (unat esize)) 4) = Some (rsize, hdf)"
    using run by (auto simp: parse_event_def Let_def esize)
  show ?thesis
  proof (cases "rsize = 0 \<or> unat (rsize + esize) + 4 > MAX_PACKET_LEN \<or> length payload < unat esize")
    case True
    then have "w' = (let w1 = count_stat (\<lambda>s. s\<lparr>net_broken_req := net_broken_req s + 1\<rparr>) w in
        if ?sync then tcp_reply_mini req REP_ERR_BROKEN w1 else w1)"
      using run unfolding parse_event_def esize bind.bind_lunit Let_def hdf by simp
    then show ?thesis using broken by (simp add: Let_def)
  next
    case False
    then obtain ename ok w1 where "put_in_queue_long req ?sync ename hdf w = Some (ok, w1)"
        and "w' = (if \<not> ok \<and> ?sync then tcp_reply_mini req REP_ERR_MEM w1 else w1)"
      using run unfolding parse_event_def esize bind.bind_lunit Let_def hdf put_in_queue_def by auto
    then show ?thesis using entered [of ename hdf ok w1] by auto
  qed
qed

definition empty_world :: world where
  "empty_world = \<lparr>w_stat = sys_stats_init, w_socks = (\<lambda>_. None), w_entries = (\<lambda>_. None), w_events = (\<lambda>_. None),
     w_table = replicate 16 [], w_next = 0, w_cfg = hdf_init, w_log = [], w_sends = [], w_mem = [], w_rnd = (\<lambda>_. 0)\<rparr>"

section \<open>A connection stays ready\<close>

text \<open>
  A connection is ready for input when its request record belongs to it, it is referenced, memory
  does not run out and the next address is free. Handling a message keeps it ready.
\<close>

definition fresh :: "world \<Rightarrow> bool" where
  "fresh w \<longleftrightarrow> (\<forall>a \<ge> w_next w. w_entries w a = None \<and> w_socks w a = None \<and> w_events w a = None)"

definition conn_ready :: "addr \<Rightarrow> world \<Rightarrow> bool" where
  "conn_ready a w \<longleftrightarrow> w_mem w = [] \<and> fresh w \<and>
     (\<exists>s. w_socks w a = Some s \<and> 0 < sk_refcount s \<and> rq_fd (sk_req s) = sk_fd s \<and> rq_sock (sk_req s) = a)"

lemma fresh_dom: "fresh w \<longleftrightarrow> (\<forall>a \<in> dom (w_entries w) \<union> dom (w_socks w) \<union> dom (w_events w). a < w_next w)"
  by (auto simp: fresh_def dom_def not_less [symmetric])

lemma empty_world_simps [simp]: "fresh empty_world" "w_mem empty_world = []"
  by (simp_all add: empty_world_def fresh_def)

lemma same_entries_dom: "same_entries h h' \<Longrightarrow> dom h' = dom h"
proof (rule set_eqI)
  fix a
  assume "same_entries h h'"
  then show "a \<in> dom h' \<longleftrightarrow> a \<in> dom h"
    by (cases "h a"; cases "h' a") (auto simp: same_entries_def dest: spec [of _ a])
qed

lemma same_shape_fresh: "same_shape w w' \<Longrightarrow> fresh w \<Longrightarrow> fresh w'"
  using same_entries_dom [of "w_entries w" "w_entries w'"] by (auto simp: same_shape_def fresh_dom intro: less_le_trans)

lemma same_shape_ready: "same_shape w w' \<Longrightarrow> conn_ready a w \<Longrightarrow> conn_ready a w'"
  using same_shape_fresh by (simp add: conn_ready_def) (simp add: same_shape_def)

lemma entered_fresh: "fresh w \<Longrightarrow> w_socks w (rq_sock req) = Some s \<Longrightarrow> fresh (entered_world req ename hdf s w)"
  by (auto simp: fresh_dom intro: less_SucI)

lemma enqueue_fresh: "enqueue sync ev e w = Some w' \<Longrightarrow> fresh w \<Longrightarrow> fresh w'"
  by (simp add: fresh_dom enqueue_frame)

lemma entered_ready:
  assumes "conn_ready a w" "w_socks w a = Some s" "rq_sock req = a" "enqueue sync ev e (entered_world req ename hdf s w) = Some w'"
  shows "conn_ready a w'"
  using assms entered_fresh [of w req s ename hdf] enqueue_fresh [OF assms(4)]
  by (auto simp: conn_ready_def enqueue_frame [OF assms(4)])

lemma set_req_ready:
  assumes "set_req a f w = Some (req, w')" "conn_ready a w" "\<And>r. rq_fd (f r) = rq_fd r" "\<And>r. rq_sock (f r) = rq_sock r"
  shows "conn_ready a w'" "rq_sock req = a"
  using assms by (auto simp: set_req_def conn_ready_def fresh_def)

lemma parse_event_ready:
  assumes "parse_event req payload w = Some w'" "conn_ready a w" "rq_sock req = a"
  shows "conn_ready a w'"
proof -
  obtain s where s: "w_socks w (rq_sock req) = Some s" "0 < sk_refcount s" "w_mem w = []" "w_entries w (w_next w) = None"
    using assms(2,3) by (auto simp: conn_ready_def fresh_def)
  show ?thesis
    using parse_event_outcome [OF assms(1) s(3,1,2,4)] same_shape_ready [of w w' a] assms(2,3) entered_ready [of a w s req] s(1)
    by auto
qed

lemma parse_message_ready:
  assumes "parse_message a m w = Some (ok, w')" "conn_ready a w"
  shows "conn_ready a w'"
proof -
  note cr = same_shape_ready [OF count_same_shape assms(2)]
  have mini: "conn_ready a w1 \<Longrightarrow> conn_ready a (tcp_reply_mini req code w1)" for w1 req code
    by (rule same_shape_ready [OF quiet_same_shape]) auto
  show ?thesis
    using assms(1) set_req_ready [OF _ cr] set_req_ready [OF _ assms(2)] mini parse_event_ready
    unfolding parse_message_def Let_def
    by (fastforce split: if_splits)
qed

lemma init_req_ready: "conn_ready a w \<Longrightarrow> init_req a w = Some w"
  by (auto simp: conn_ready_def init_req_def fun_upd_idem)

end
