(* ===== verification/Server_Worker.thy ===== *)
theory Server_Worker
  imports Server_Frame
begin

text \<open>
  Plugins and their worker threads (server/mocd.c): starting a plugin enters it into the table,
  its worker takes entries out of the queue, has the plugin process them and frees them; stopping
  sets a flag, waits for the worker to drain the queue and frees the plugin.

  A plugin is its state \<open>'s\<close> with \<open>process_driver\<close> on the entry at an address. One round of the
  worker's loop is one step; the timed wait for a signal is a round that finds the queue empty. The
  loop ends only when the plugin is told to stop, so a run that does not end is \<open>None\<close>.
\<close>

type_synonym 's process_driver = "addr \<Rightarrow> 's \<Rightarrow> world \<Rightarrow> ('s \<times> world) option"

section \<open>The worker\<close>

definition take_entry :: "addr \<Rightarrow> world \<Rightarrow> (addr option \<times> world) option" where
  "take_entry ev w = do {
     e \<leftarrow> w_events w ev;
     (r, q, h) \<leftarrow> queue_get (ee_queue e, w_entries w);
     Some (r, w\<lparr>w_entries := h, w_events := (w_events w)(ev \<mapsto> e\<lparr>ee_queue := q\<rparr>)\<rparr>) }"

text \<open>One round; the flag tells whether the loop goes on.\<close>

definition worker_round :: "'s process_driver \<Rightarrow> addr \<Rightarrow> 's \<times> world \<Rightarrow> (bool \<times> 's \<times> world) option" where
  "worker_round process ev sw = do {
     (r, w1) \<leftarrow> take_entry ev (snd sw);
     (case r of
        None \<Rightarrow> do { e \<leftarrow> w_events w1 ev; Some (\<not> ee_stop e, fst sw, w1) }
      | Some a \<Rightarrow> do {
          (s, w2) \<leftarrow> process a (fst sw) w1;
          w3 \<leftarrow> free_entry a w2;
          Some (True, s, w3) }) }"

partial_function (option) moc_start_base_entry :: "'s process_driver \<Rightarrow> addr \<Rightarrow> 's \<times> world \<Rightarrow> ('s \<times> world) option" where
  [code]: "moc_start_base_entry process ev sw = do {
     r \<leftarrow> worker_round process ev sw;
     if fst r then moc_start_base_entry process ev (snd r) else Some (snd r) }"

section \<open>Starting and stopping plugins\<close>

abbreviation (input) chainlen :: nat where "chainlen \<equiv> 1000000"
abbreviation (input) hashlen :: nat where "hashlen \<equiv> 16"

text \<open>
  \<open>stop_driver\<close> is called before the worker is joined, so the worker processes what is left in the
  queue with the plugin's state after it.
\<close>

definition moc_stop_driver :: "'s process_driver \<Rightarrow> ('s \<Rightarrow> 's option) \<Rightarrow> addr \<Rightarrow> 's \<times> world \<Rightarrow> ('s \<times> world) option" where
  "moc_stop_driver process stop_driver ev sw = do {
     e \<leftarrow> w_events (snd sw) ev;
     s0 \<leftarrow> stop_driver (fst sw);
     (s, w1) \<leftarrow> moc_start_base_entry process ev
        (s0, (snd sw)\<lparr>w_events := (w_events (snd sw))(ev \<mapsto> e\<lparr>ee_stop := True\<rparr>)\<rparr>);
     e1 \<leftarrow> w_events w1 ev;
     (h, w2) \<leftarrow> queue_free release_entry (ee_queue e1, w_entries w1) w1;
     Some (s, w2\<lparr>w_entries := h, w_events := (w_events w2)(ev := None)\<rparr>) }"

text \<open>\<open>init\<close> is what the plugin's \<open>init_driver\<close> returned: its name and state, or \<open>None\<close>.\<close>

definition moc_start_driver :: "'s process_driver \<Rightarrow> ('s \<Rightarrow> 's option) \<Rightarrow> (bytes \<times> 's) option \<Rightarrow> world \<Rightarrow> ((addr \<times> 's) option \<times> world) option" where
  "moc_start_driver process stop_driver init w =
     (case init of
        None \<Rightarrow> Some (None, w)
      | Some (name, s) \<Rightarrow>
          let ev = w_next w;
              w1 = w\<lparr>w_events := (w_events w)(ev \<mapsto> \<lparr>ee_name = name, ee_queue = queue_create, ee_stop = False\<rparr>), w_next := ev + 1\<rparr>;
              h = evt_bucket w1 name;
              chain = w_table w1 ! h in
          if w_table w = [] then None
          else if length chain \<le> chainlen then Some (Some (ev, s), w1\<lparr>w_table := (w_table w1)[h := ev # chain]\<rparr>)
          else do {
            (s', w2) \<leftarrow> moc_stop_driver process stop_driver ev (s, w1);
            Some (None, w2) })"

text \<open>
  The plugins of the configuration, in order; \<open>load\<close> is what the dynamic linker and \<open>init_driver\<close> give
  for a plugin name. The states of the plugins that started are collected with their addresses.
\<close>

fun moc_start_all :: "'s process_driver \<Rightarrow> ('s \<Rightarrow> 's option) \<Rightarrow> (string option \<Rightarrow> (bytes \<times> 's) option) \<Rightarrow> string option list \<Rightarrow> world \<Rightarrow>
    ((addr \<times> 's) list \<times> world) option" where
  "moc_start_all process stop_driver load [] w = Some ([], w)"
| "moc_start_all process stop_driver load (n # ns) w = do {
     (r, w1) \<leftarrow> moc_start_driver process stop_driver (load n) w;
     (rs, w2) \<leftarrow> moc_start_all process stop_driver load ns w1;
     Some ((case r of None \<Rightarrow> rs | Some x \<Rightarrow> x # rs), w2) }"

partial_function (option) plugin_names :: "hdf \<Rightarrow> path option \<Rightarrow> string option list option" where
  [code]: "plugin_names cfg res =
     (if res = None then Some []
      else do {
        v \<leftarrow> hdf_obj_value cfg res;
        vs \<leftarrow> plugin_names cfg (hdf_obj_next cfg res);
        Some (v # vs) })"

definition moc_start :: "string \<Rightarrow> 's process_driver \<Rightarrow> ('s \<Rightarrow> 's option) \<Rightarrow> (string option \<Rightarrow> (bytes \<times> 's) option) \<Rightarrow> world \<Rightarrow>
    ((addr \<times> 's) list \<times> world) option" where
  "moc_start pre_server process stop_driver load w = do {
     res \<leftarrow> hdf_get_obj (w_cfg w) [] (Some (pre_server @ ''.plugins.0''));
     plugins \<leftarrow> plugin_names (w_cfg w) res;
     moc_start_all process stop_driver load plugins (w\<lparr>w_table := replicate hashlen []\<rparr>) }"

fun stop_chain :: "'s process_driver \<Rightarrow> ('s \<Rightarrow> 's option) \<Rightarrow> addr list \<Rightarrow> (addr \<Rightarrow> 's) \<Rightarrow> world \<Rightarrow> ((addr \<Rightarrow> 's) \<times> world) option" where
  "stop_chain process stop_driver [] st w = Some (st, w)"
| "stop_chain process stop_driver (ev # evs) st w = do {
     (s, w1) \<leftarrow> moc_stop_driver process stop_driver ev (st ev, w);
     stop_chain process stop_driver evs (st(ev := s)) w1 }"

definition moc_stop :: "'s process_driver \<Rightarrow> ('s \<Rightarrow> 's option) \<Rightarrow> (addr \<Rightarrow> 's) \<Rightarrow> world \<Rightarrow> ((addr \<Rightarrow> 's) \<times> world) option" where
  "moc_stop process stop_driver st w = do {
     (st', w1) \<leftarrow> stop_chain process stop_driver (concat (w_table w)) st w;
     Some (st', w1\<lparr>w_table := []\<rparr>) }"

end
