(* ===== verification/Server_Stream.thy ===== *)
theory Server_Stream
  imports Server_Frame "HOL-Library.Code_Target_Numeral"
begin

text \<open>
  The framing of the byte stream (server/tcp.c) against a specification without buffers. \<open>consume\<close>
  cuts messages off the front of everything that is pending and hands them to \<open>parse_message\<close>;
  \<open>tcp_recv\<close> with its static buffer, its temporary buffer and its recursion on left-over bytes
  computes the same, however the network cuts the stream into pieces.
\<close>

section \<open>The specification\<close>

definition frame_size :: "bytes \<Rightarrow> nat" where
  "frame_size bs = unat (ntohl (take 4 bs))"

definition count_tcp :: "world \<Rightarrow> world" where
  "count_tcp w = count_stat (\<lambda>s. s\<lparr>msg_tcp := msg_tcp s + 1\<rparr>) w"

text \<open>The result: whether the connection is open, the bytes that wait for more, the state.\<close>

function consume :: "addr \<Rightarrow> bytes \<Rightarrow> world \<Rightarrow> (bool \<times> bytes \<times> world) option" where
  "consume a bs w =
     (if length bs < 4 then Some (True, bs, w)
      else if frame_size bs > 65536 \<or> frame_size bs \<le> 8 then map_option (\<lambda>w'. (False, [], w')) (conn_error a w)
      else if length bs < frame_size bs then Some (True, bs, w)
      else
        (case parse_message a (drop 4 (take (frame_size bs) bs)) (count_tcp w) of
           None \<Rightarrow> None
         | Some (ok, w1) \<Rightarrow>
             if ok then consume a (drop (frame_size bs) bs) w1
             else map_option (\<lambda>w'. (False, [], w')) (conn_error a w1)))"
  by auto
termination
  by (relation "measure (\<lambda>(a, bs, w). length bs)") auto

declare consume.simps [simp del]

lemma consume_short: "length bs < 4 \<Longrightarrow> consume a bs w = Some (True, bs, w)"
  by (subst consume.simps) simp

text \<open>
  What is left waits for a whole message: it is shorter than the message it begins. A stream whose
  first message is whole is \<open>whole\<close>; one whose size field is out of range is \<open>broken\<close>.
\<close>

definition waits :: "bytes \<Rightarrow> bool" where
  "waits p \<longleftrightarrow> length p < 4 \<or> length p < frame_size p \<and> 8 < frame_size p \<and> frame_size p \<le> 65536"

definition broken :: "bytes \<Rightarrow> bool" where
  "broken bs \<longleftrightarrow> 4 \<le> length bs \<and> (frame_size bs > 65536 \<or> frame_size bs \<le> 8)"

definition whole :: "bytes \<Rightarrow> bool" where
  "whole bs \<longleftrightarrow> 8 < frame_size bs \<and> frame_size bs \<le> 65536 \<and> frame_size bs \<le> length bs"

lemma stream_cases:
  obtains (waits) "waits bs" | (broken) "broken bs" | (whole) "whole bs"
  by (force simp: waits_def broken_def whole_def)

lemma waits_consume: "waits bs \<Longrightarrow> consume a bs w = Some (True, bs, w)"
  by (subst consume.simps) (auto simp: waits_def)

lemma broken_consume: "broken bs \<Longrightarrow> consume a bs w = map_option (\<lambda>w'. (False, [], w')) (conn_error a w)"
  by (subst consume.simps) (auto simp: broken_def)

lemma whole_consume:
  "whole bs \<Longrightarrow> consume a bs w =
     (case parse_message a (drop 4 (take (frame_size bs) bs)) (count_tcp w) of
        None \<Rightarrow> None
      | Some (ok, w1) \<Rightarrow>
          if ok then consume a (drop (frame_size bs) bs) w1 else map_option (\<lambda>w'. (False, [], w')) (conn_error a w1))"
  by (subst consume.simps) (simp add: whole_def)

lemma frame_size_append: "4 \<le> length xs \<Longrightarrow> frame_size (xs @ ys) = frame_size xs"
  by (simp add: frame_size_def)

lemma broken_append: "broken xs \<Longrightarrow> broken (xs @ ys)"
  by (simp add: broken_def frame_size_append)

lemma whole_append:
  assumes "whole xs"
  shows "whole (xs @ ys)" "frame_size (xs @ ys) = frame_size xs"
    "take (frame_size xs) (xs @ ys) = take (frame_size xs) xs" "drop (frame_size xs) (xs @ ys) = drop (frame_size xs) xs @ ys"
  using assms by (auto simp: whole_def frame_size_append)

lemma consume_waits: "consume a bs w = Some (True, p, w') \<Longrightarrow> waits p"
proof (induction "length bs" arbitrary: bs w rule: less_induct)
  case less
  show ?case
  proof (cases bs rule: stream_cases)
    case whole
    then have "length (drop (frame_size bs) bs) < length bs" by (auto simp: whole_def)
    from less.hyps [OF this] whole less.prems show ?thesis by (auto simp: whole_consume split: option.splits if_splits)
  qed (use less.prems in \<open>auto simp: waits_consume broken_consume\<close>)
qed

text \<open>Consuming two pieces is consuming the first, then what it left with the second.\<close>

lemma consume_append:
  "consume a (xs @ ys) w =
     (case consume a xs w of
        None \<Rightarrow> None
      | Some (open, p, w') \<Rightarrow> if open then consume a (p @ ys) w' else Some (False, [], w'))"
proof (induction "length xs" arbitrary: xs w rule: less_induct)
  case less
  show ?case
  proof (cases xs rule: stream_cases)
    case waits
    then show ?thesis by (simp add: waits_consume)
  next
    case broken
    then show ?thesis
      by (cases "conn_error a w") (simp_all add: broken_consume broken_append)
  next
    case whole
    have "length (drop (frame_size xs) xs) < length xs" using whole by (auto simp: whole_def)
    note ih = less [OF this]
    have cut: "drop (frame_size xs) (xs @ ys) = drop (frame_size xs) xs @ ys"
      by (rule whole_append(4) [OF whole])
    show ?thesis
    proof (cases "parse_message a (drop 4 (take (frame_size xs) xs)) (count_tcp w)")
      case None
      then show ?thesis
        by (simp only: whole_consume [OF whole] whole_consume [OF whole_append(1) [OF whole]] whole_append(2,3) [OF whole]) simp
    next
      case (Some r)
      obtain ok w1 where r: "r = (ok, w1)" by (cases r)
      show ?thesis
        by (cases ok; cases "conn_error a w1")
           (simp_all only: whole_consume [OF whole] whole_consume [OF whole_append(1) [OF whole]] whole_append(2,3) [OF whole]
              Some r cut ih option.case prod.case if_True if_False option.map simp_thms)
    qed
  qed
qed

section \<open>The buffers\<close>

definition pending :: "framing \<Rightarrow> bytes" where
  "pending fr = (case fr_buf fr of None \<Rightarrow> [] | Some b \<Rightarrow> b)"

definition framing_ok :: "framing \<Rightarrow> bool" where
  "framing_ok fr \<longleftrightarrow> fr_excess fr = 0 \<and>
     (case fr_buf fr of
        None \<Rightarrow> True
      | Some b \<Rightarrow> b \<noteq> [] \<and> waits b \<and> fr_len fr = length b \<and> fr_pktsize fr = (if length b < 4 then 4 else frame_size b))"

definition agrees :: "(bool \<times> framing \<times> world) option \<Rightarrow> (bool \<times> bytes \<times> world) option \<Rightarrow> bool" where
  "agrees r s \<longleftrightarrow>
     (case (r, s) of
        (None, None) \<Rightarrow> True
      | (Some (op, fr, w), Some (op', p, w')) \<Rightarrow> op = op' \<and> w = w' \<and> (op \<longrightarrow> framing_ok fr \<and> pending fr = p)
      | _ \<Rightarrow> False)"

lemma agrees_simps [simp]:
  "agrees None None" "agrees None (Some x) = False" "agrees (Some y) None = False"
  "agrees (Some (op, fr, w)) (Some (op', p, w')) \<longleftrightarrow> op = op' \<and> w = w' \<and> (op \<longrightarrow> framing_ok fr \<and> pending fr = p)"
  by (auto simp: agrees_def split: prod.splits)

lemma agrees_closed: "agrees (map_option (\<lambda>w'. (False, fr, w')) r) (map_option (\<lambda>w'. (False, [], w')) r)"
  by (cases r) auto

text \<open>\<open>process_buf\<close> is \<open>consume\<close>: for the static buffer, and for the temporary one that holds \<open>bs\<close>.\<close>

lemma whole_process_buf:
  assumes "whole bs"
  shows "process_buf a bs fr w =
     (case parse_message a (drop 4 (take (frame_size bs) bs)) (count_tcp w) of
        None \<Rightarrow> None
      | Some (ok, w1) \<Rightarrow>
          if \<not> ok then map_option (\<lambda>w'. (False, fr\<lparr>fr_excess := length bs - frame_size bs\<rparr>, w')) (conn_error a w1)
          else if frame_size bs < length bs then
            (case init_req a w1 of
               None \<Rightarrow> None
             | Some w2 \<Rightarrow> process_buf a (drop (frame_size bs) bs)
                 (fr\<lparr>fr_buf := map_option (\<lambda>_. drop (frame_size bs) bs) (fr_buf fr), fr_len := length bs - frame_size bs, fr_excess := 0\<rparr>) w2)
          else if fr_buf fr \<noteq> None then Some (True, framing_init, w1)
          else Some (True, fr, w1))"
proof -
  have "4 \<le> length bs" using assms by (simp add: whole_def)
  then have n: "(if 4 \<le> length bs then unat (ntohl (take 4 bs)) else 4) = frame_size bs" by (simp add: frame_size_def)
  have "\<not> (4 \<le> length bs \<and> (65536 < frame_size bs \<or> frame_size bs \<le> 8))" "\<not> length bs < frame_size bs"
    using assms by (auto simp: whole_def)
  then show ?thesis
    by (subst process_buf.simps) (simp only: n Let_def if_False zero_less_diff count_tcp_def)
qed

lemma waits_process_buf:
  assumes "waits bs" "w_mem w = []"
  shows "process_buf a bs fr w =
     Some (True, fr\<lparr>fr_buf := Some bs, fr_len := length bs, fr_pktsize := (if length bs < 4 then 4 else frame_size bs)\<rparr>, w)"
proof -
  let ?n = "if length bs < 4 then 4 else frame_size bs"
  have n: "(if 4 \<le> length bs then unat (ntohl (take 4 bs)) else 4) = ?n" by (simp add: frame_size_def)
  have "\<not> (4 \<le> length bs \<and> (65536 < ?n \<or> ?n \<le> 8))" "length bs < ?n" using assms(1) by (auto simp: waits_def)
  then show ?thesis
    by (subst process_buf.simps) (cases "fr_buf fr"; simp only: n Let_def if_False if_True malloc_ok_plenty [OF assms(2)] option.case prod.case simp_thms)
qed

lemma broken_process_buf: "broken bs \<Longrightarrow> process_buf a bs fr w = map_option (\<lambda>w'. (False, fr, w')) (conn_error a w)"
  by (subst process_buf.simps) (auto simp: broken_def frame_size_def)

lemma process_buf_consumes:
  assumes "conn_ready a w" "fr_excess fr = 0" "bs \<noteq> []" "fr_buf fr = None \<or> fr_buf fr = Some bs"
  shows "agrees (process_buf a bs fr w) (consume a bs w)"
  using assms
proof (induction "length bs" arbitrary: bs fr w rule: less_induct)
  case less
  show ?case
  proof (cases bs rule: stream_cases)
    case waits
    then show ?thesis
      using less.prems by (auto simp: waits_process_buf waits_consume conn_ready_def framing_ok_def pending_def)
  next
    case broken
    then show ?thesis by (simp add: broken_process_buf broken_consume agrees_closed)
  next
    case whole
    show ?thesis
    proof (cases "parse_message a (drop 4 (take (frame_size bs) bs)) (count_tcp w)")
      case None
      then show ?thesis by (simp add: whole whole_process_buf whole_consume)
    next
      case (Some r)
      obtain ok w1 where r: "r = (ok, w1)" by (cases r)
      have ready: "conn_ready a w1"
        using parse_message_ready Some r same_shape_ready [OF count_same_shape less.prems(1)] by (auto simp: count_tcp_def)
      show ?thesis
      proof (cases "ok \<and> frame_size bs < length bs")
        case True
        let ?fr = "fr\<lparr>fr_buf := map_option (\<lambda>_. drop (frame_size bs) bs) (fr_buf fr), fr_len := length bs - frame_size bs, fr_excess := 0\<rparr>"
        have "agrees (process_buf a (drop (frame_size bs) bs) ?fr w1) (consume a (drop (frame_size bs) bs) w1)"
          using whole True ready less.prems(4) by (intro less.hyps) (auto simp: whole_def)
        then show ?thesis using True by (simp add: whole whole_process_buf whole_consume Some r init_req_ready [OF ready])
      next
        case False
        note steps = whole_process_buf [OF whole] whole_consume [OF whole] Some r
        have "agrees (process_buf a bs fr w) (consume a bs w)" if ok
        proof -
          have "drop (frame_size bs) bs = []" "\<not> frame_size bs < length bs" using False that by auto
          then show ?thesis
            using that less.prems(2) unfolding steps option.case prod.case
            by (simp add: consume_short framing_ok_def pending_def framing_init_def)
        qed
        moreover have "agrees (process_buf a bs fr w) (consume a bs w)" if "\<not> ok"
          using that unfolding steps option.case prod.case by (simp add: agrees_closed)
        ultimately show ?thesis by blast
      qed
    qed
  qed
qed

section \<open>Receiving\<close>

lemma tcp_recv_consumes:
  assumes "conn_ready a w" "framing_ok fr" "bs \<noteq> []" "length bs \<le> recv_room fr"
  shows "agrees (tcp_recv a (Received bs) fr w) (consume a (pending fr @ bs) w)"
proof (cases "fr_buf fr")
  case None
  then show ?thesis
    using assms process_buf_consumes [of a w fr bs]
    by (simp add: tcp_recv_def init_req_ready pending_def framing_ok_def)
next
  case (Some b)
  have b: "waits b" "fr_len fr = length b" "fr_pktsize fr = (if length b < 4 then 4 else frame_size b)" "fr_excess fr = 0"
    using assms(2) Some by (auto simp: framing_ok_def)
  have "recv_room fr = fr_pktsize fr - fr_len fr"
  proof -
    have "fr_len fr \<le> fr_pktsize fr" "fr_pktsize fr < 2 ^ 64" using b by (auto simp: waits_def split: if_splits)
    then show ?thesis by (simp add: recv_room_def Some size_sub_le)
  qed
  then have "length b + length bs \<le> 65536" using b assms(4) by (auto simp: waits_def split: if_splits)
  then show ?thesis
    using assms process_buf_consumes [of a w "fr\<lparr>fr_buf := Some (b @ bs), fr_len := fr_len fr + length bs\<rparr>" "b @ bs"] b
    by (simp add: tcp_recv_def Some pending_def)
qed

text \<open>
  The pieces of a stream, one \<open>recv\<close> each, until the connection is closed; and what the kernel
  guarantees of them: no piece is empty or longer than what was asked for.
\<close>

fun tcp_recvs :: "addr \<Rightarrow> bytes list \<Rightarrow> framing \<Rightarrow> world \<Rightarrow> (bool \<times> framing \<times> world) option" where
  "tcp_recvs a [] fr w = Some (True, fr, w)"
| "tcp_recvs a (c # cs) fr w =
     (case tcp_recv a (Received c) fr w of
        None \<Rightarrow> None
      | Some (op, fr', w') \<Rightarrow> if op then tcp_recvs a cs fr' w' else Some (False, fr', w'))"

fun pieces_fit :: "addr \<Rightarrow> bytes list \<Rightarrow> framing \<Rightarrow> world \<Rightarrow> bool" where
  "pieces_fit a [] fr w = True"
| "pieces_fit a (c # cs) fr w =
     (c \<noteq> [] \<and> length c \<le> recv_room fr \<and>
      (case tcp_recv a (Received c) fr w of Some (True, fr', w') \<Rightarrow> pieces_fit a cs fr' w' | _ \<Rightarrow> True))"

lemma consume_ready: "consume a bs w = Some (True, p, w') \<Longrightarrow> conn_ready a w \<Longrightarrow> conn_ready a w'"
proof (induction "length bs" arbitrary: bs w rule: less_induct)
  case less
  show ?case
  proof (cases bs rule: stream_cases)
    case whole
    then have "length (drop (frame_size bs) bs) < length bs" by (auto simp: whole_def)
    note ih = less.hyps [OF this]
    show ?thesis
      using less.prems whole ih parse_message_ready [OF _ same_shape_ready [OF count_same_shape]]
      by (auto simp: whole_consume count_tcp_def split: option.splits if_splits)
  qed (use less.prems in \<open>auto simp: waits_consume broken_consume\<close>)
qed

lemma tcp_recvs_consume:
  assumes "conn_ready a w" "framing_ok fr" "pieces_fit a cs fr w"
  shows "agrees (tcp_recvs a cs fr w) (consume a (pending fr @ concat cs) w)"
  using assms
proof (induction cs arbitrary: fr w)
  case Nil
  have "waits (pending fr)" using Nil.prems(2) by (auto simp: framing_ok_def pending_def waits_def split: option.splits)
  with Nil show ?case by (simp add: waits_consume)
next
  case (Cons c cs)
  have step: "agrees (tcp_recv a (Received c) fr w) (consume a (pending fr @ c) w)"
    using Cons.prems by (intro tcp_recv_consumes) auto
  show ?case
  proof (cases "consume a (pending fr @ c) w")
    case None
    then have "tcp_recv a (Received c) fr w = None" using step by (cases "tcp_recv a (Received c) fr w") auto
    then show ?thesis using None consume_append [of a "pending fr @ c" "concat cs" w] by simp
  next
    case (Some r)
    obtain op p w' where r: "r = (op, p, w')" by (cases r) auto
    then obtain fr' where fr': "tcp_recv a (Received c) fr w = Some (op, fr', w')" "op \<longrightarrow> framing_ok fr' \<and> pending fr' = p"
      using step Some by (cases "tcp_recv a (Received c) fr w") auto
    have all: "consume a (pending fr @ concat (c # cs)) w = (if op then consume a (p @ concat cs) w' else Some (False, [], w'))"
      using consume_append [of a "pending fr @ c" "concat cs" w] Some r by simp
    show ?thesis
    proof (cases op)
      case True
      then have "conn_ready a w'" using consume_ready Some r Cons.prems(1) by simp
      then show ?thesis
        using Cons.IH [of w' fr'] fr' True all Cons.prems(3) by simp
    next
      case False
      then show ?thesis using fr' all by simp
    qed
  qed
qed

section \<open>Messages\<close>

definition frame :: "bytes \<Rightarrow> bytes" where
  "frame m = be32 (of_nat (4 + length m)) @ m"

definition frameable :: "bytes \<Rightarrow> bool" where
  "frameable m \<longleftrightarrow> 4 < length m \<and> length m \<le> 65532"

fun deliver :: "addr \<Rightarrow> bytes list \<Rightarrow> world \<Rightarrow> (bool \<times> world) option" where
  "deliver a [] w = Some (True, w)"
| "deliver a (m # ms) w =
     (case parse_message a m (count_tcp w) of
        None \<Rightarrow> None
      | Some (ok, w1) \<Rightarrow> if ok then deliver a ms w1 else map_option (\<lambda>w'. (False, w')) (conn_error a w1))"

lemma frame_whole:
  assumes "frameable m"
  shows "whole (frame m @ bs)" "frame_size (frame m @ bs) = 4 + length m"
    "drop 4 (take (4 + length m) (frame m @ bs)) = m" "drop (4 + length m) (frame m @ bs) = bs"
proof -
  have "unat (of_nat (4 + length m) :: u32) = 4 + length m"
    using assms by (intro unat_of_small) (auto simp: frameable_def)
  then show size: "frame_size (frame m @ bs) = 4 + length m" by (simp add: frame_size_def frame_def)
  show "whole (frame m @ bs)" using assms by (simp add: whole_def size frameable_def) (simp add: frame_def)
qed (simp_all add: frame_def)

lemma consume_frames:
  "\<forall>m \<in> set ms. frameable m \<Longrightarrow>
   consume a (concat (map frame ms)) w = map_option (\<lambda>(op, w'). (op, [], w')) (deliver a ms w)"
proof (induction ms arbitrary: w)
  case Nil
  then show ?case by (simp add: consume_short)
next
  case (Cons m ms)
  then have m: "frameable m" by simp
  note cut = frame_whole [OF m, of "concat (map frame ms)"]
  show ?case
    using Cons cut by (auto simp: whole_consume option.map_comp comp_def split: option.splits)
qed

section \<open>New connections\<close>

lemma new_connection_ready:
  assumes "tcp_newconnection fd True junk w0 = Some (Some (a, fr), w)" "w_mem w0 = []" "fresh w0"
  shows "fr = framing_init" "\<exists>w1. init_req a w = Some w1 \<and> conn_ready a w1"
  using assms
  by (auto simp: tcp_newconnection_def tcp_socket_add_ref_def Let_def init_req_def conn_ready_def fresh_def)

lemma first_recv: "init_req a w = Some w1 \<Longrightarrow> init_req a w1 = Some w1"
  by (auto simp: init_req_def)

lemma tcp_recv_init:
  "init_req a w = Some w1 \<Longrightarrow> fr_buf fr = None \<Longrightarrow> tcp_recv a (Received c) fr w = tcp_recv a (Received c) fr w1"
  using first_recv [of a w w1] by (simp add: tcp_recv_def)

lemma framing_init_ok [simp]: "framing_ok framing_init" "pending framing_init = []" "fr_buf framing_init = None"
  by (simp_all add: framing_ok_def framing_init_def pending_def)

lemma first_pieces:
  assumes "init_req a w = Some w1" "cs \<noteq> []"
  shows "tcp_recvs a cs framing_init w = tcp_recvs a cs framing_init w1" "pieces_fit a cs framing_init w = pieces_fit a cs framing_init w1"
  using assms by (cases cs; simp add: tcp_recv_init [OF assms(1)])+

lemma new_stream:
  assumes "tcp_newconnection fd True junk w0 = Some (Some (a, fr), w)" "w_mem w0 = []" "fresh w0"
    and "pieces_fit a cs fr w" "cs \<noteq> []"
  obtains w1 where "init_req a w = Some w1" "conn_ready a w1" "agrees (tcp_recvs a cs fr w) (consume a (concat cs) w1)"
proof -
  obtain w1 where w1: "init_req a w = Some w1" "conn_ready a w1" and fr: "fr = framing_init"
    using new_connection_ready [OF assms(1-3)] by auto
  show thesis
    using that [OF w1] assms(4) tcp_recvs_consume [OF w1(2) framing_init_ok(1), of cs] first_pieces [OF w1(1) assms(5)]
    by (simp add: fr)
qed

lemma agrees_outcome:
  assumes "agrees r s"
  shows "map_option (\<lambda>(op, fr, w). (op, if op then pending fr else [], w)) r = map_option (\<lambda>(op, p, w). (op, if op then p else [], w)) s"
  using assms by (cases r; cases s) (auto simp: agrees_def split: prod.splits)

lemma framing_ok_room:
  assumes "framing_ok fr"
  shows "length (pending fr) < 65536 \<and> 0 < recv_room fr \<and> length (pending fr) + recv_room fr \<le> SBSIZE"
proof (cases "fr_buf fr")
  case None
  then show ?thesis by (simp add: pending_def recv_room_def)
next
  case (Some b)
  have b: "waits b" "fr_len fr = length b" "fr_pktsize fr = (if length b < 4 then 4 else frame_size b)"
    using assms Some by (auto simp: framing_ok_def)
  then have "size_sub (fr_pktsize fr) (fr_len fr) = fr_pktsize fr - fr_len fr"
    by (intro size_sub_le) (auto simp: waits_def split: if_splits)
  then show ?thesis using b by (auto simp: Some pending_def recv_room_def waits_def split: if_splits)
qed

section \<open>Properties\<close>

text \<open>
  C5. Messages arrive whole and in order. A new connection on which a client sends the messages
  \<open>ms\<close>, each behind its length, receives the stream in pieces of any sizes; then the server parses
  exactly \<open>ms\<close>, one after the other, until a message makes it close the connection, and when none
  does, no byte is left over.
\<close>

theorem messages_in_order:
  assumes "tcp_newconnection fd True junk w0 = Some (Some (a, fr), w)" "w_mem w0 = []" "fresh w0"
    and "pieces_fit a cs fr w" "concat cs = concat (map frame ms)" "\<forall>m \<in> set ms. frameable m" "cs \<noteq> []"
  shows "\<exists>w1. init_req a w = Some w1 \<and>
     map_option (\<lambda>(op, fr', w'). (op, if op then pending fr' else [], w')) (tcp_recvs a cs fr w) =
     map_option (\<lambda>(op, w'). (op, [], w')) (deliver a ms w1)"
proof -
  obtain w1 where w1: "init_req a w = Some w1" "agrees (tcp_recvs a cs fr w) (consume a (concat cs) w1)"
    using new_stream [OF assms(1-4,7)] by blast
  show ?thesis
    using w1(1) agrees_outcome [OF w1(2)] consume_frames [OF assms(6), of a w1] assms(5)
    by (cases "deliver a ms w1") (auto split: if_splits)
qed

text \<open>Two broken requests with different ids; the first piece ends inside the length field.\<close>

definition broken_request :: "u32 \<Rightarrow> bytes" where
  "broken_request i = be32 (0x10000000 + i) @ be16 1001 @ be16 FLAGS_SYNC @ be32 0 @ be32 0 @ [NUL]"

definition demo_pieces :: "bytes list" where
  "demo_pieces = (let bs = frame (broken_request 1) @ frame (broken_request 2) in
     [take 3 bs, take 1 (drop 3 bs), take 17 (drop 4 bs), drop 21 bs])"

definition demo_conn :: "addr \<times> framing \<times> world" where
  "demo_conn = (case tcp_newconnection 7 True \<lparr>rq_fd = 0, rq_id = [], rq_cmd = 0, rq_flags = 0, rq_sock = 0\<rparr> empty_world of
     Some (Some (a, fr), w) \<Rightarrow> (a, fr, w) | _ \<Rightarrow> (0, framing_init, empty_world))"

lemma demo_conn_new:
  "tcp_newconnection 7 True \<lparr>rq_fd = 0, rq_id = [], rq_cmd = 0, rq_flags = 0, rq_sock = 0\<rparr> empty_world =
     Some (Some (0, fst (snd demo_conn)), snd (snd demo_conn))"
  by (simp add: demo_conn_def tcp_newconnection_def tcp_socket_add_ref_def empty_world_def Let_def)

lemma demo_pieces_fit: "pieces_fit 0 demo_pieces (fst (snd demo_conn)) (snd (snd demo_conn))"
  by code_simp

lemma demo_messages: "concat demo_pieces = concat (map frame [broken_request 1, broken_request 2])"
    "\<forall>m \<in> set [broken_request 1, broken_request 2]. frameable m"
  by code_simp+

theorem messages_in_order_witness:
  "\<exists>w1. init_req 0 (snd (snd demo_conn)) = Some w1 \<and>
     map_option (\<lambda>(op, fr', w'). (op, if op then pending fr' else [], w')) (tcp_recvs 0 demo_pieces (fst (snd demo_conn)) (snd (snd demo_conn))) =
     map_option (\<lambda>(op, w'). (op, [], w')) (deliver 0 [broken_request 1, broken_request 2] w1)"
  by (rule messages_in_order [OF demo_conn_new _ _ demo_pieces_fit demo_messages]) (simp_all add: demo_pieces_def Let_def)

text \<open>
  C9. How the network cuts the stream does not matter: two ways to cut the same bytes, sent on a new
  connection, leave the server in the same state, with the connection open or closed alike and the
  same bytes waiting.
\<close>

theorem pieces_do_not_matter:
  assumes "tcp_newconnection fd True junk w0 = Some (Some (a, fr), w)" "w_mem w0 = []" "fresh w0"
    and "pieces_fit a cs fr w" "pieces_fit a cs' fr w" "concat cs = concat cs'" "cs \<noteq> []" "cs' \<noteq> []"
  shows "map_option (\<lambda>(op, fr', w'). (op, if op then pending fr' else [], w')) (tcp_recvs a cs fr w) =
     map_option (\<lambda>(op, fr', w'). (op, if op then pending fr' else [], w')) (tcp_recvs a cs' fr w)"
proof -
  obtain w1 where w1: "init_req a w = Some w1" "agrees (tcp_recvs a cs fr w) (consume a (concat cs) w1)"
    using new_stream [OF assms(1-4,7)] by blast
  obtain w2 where w2: "init_req a w = Some w2" "agrees (tcp_recvs a cs' fr w) (consume a (concat cs') w2)"
    using new_stream [OF assms(1-3,5,8)] by blast
  show ?thesis using agrees_outcome [OF w1(2)] agrees_outcome [OF w2(2)] w1(1) w2(1) assms(6) by simp
qed

lemma demo_piece_fits: "pieces_fit 0 [concat demo_pieces] (fst (snd demo_conn)) (snd (snd demo_conn))"
  by code_simp

theorem pieces_do_not_matter_witness:
  "map_option (\<lambda>(op, fr', w'). (op, if op then pending fr' else [], w')) (tcp_recvs 0 demo_pieces (fst (snd demo_conn)) (snd (snd demo_conn))) =
   map_option (\<lambda>(op, fr', w'). (op, if op then pending fr' else [], w'))
     (tcp_recvs 0 [concat demo_pieces] (fst (snd demo_conn)) (snd (snd demo_conn)))"
  by (rule pieces_do_not_matter [OF demo_conn_new _ _ demo_pieces_fit demo_piece_fits]) (simp_all add: demo_pieces_def Let_def)

text \<open>
  C20. Whatever arrives on a new connection, as long as it is open the temporary buffer holds less
  than 65536 bytes, the next \<open>recv\<close> asks for at least one byte (so that a result of 0 means the peer
  has closed), and for no more than fits into the buffer.
\<close>

theorem receive_buffer_bounded:
  assumes "tcp_newconnection fd True junk w0 = Some (Some (a, fr), w)" "w_mem w0 = []" "fresh w0"
    and "pieces_fit a cs fr w" "tcp_recvs a cs fr w = Some (True, fr', w')"
  shows "length (pending fr') < 65536 \<and> 0 < recv_room fr' \<and> length (pending fr') + recv_room fr' \<le> SBSIZE"
proof -
  have "framing_ok fr'"
  proof (cases "cs = []")
    case True
    then show ?thesis using assms(5) new_connection_ready(1) [OF assms(1-3)] by simp
  next
    case False
    then obtain w1 where "agrees (tcp_recvs a cs fr w) (consume a (concat cs) w1)" using new_stream [OF assms(1-4)] by blast
    then show ?thesis using assms(5) by (cases "consume a (concat cs) w1") auto
  qed
  then show ?thesis by (rule framing_ok_room)
qed

lemma demo_open:
  "pieces_fit 0 (butlast demo_pieces) (fst (snd demo_conn)) (snd (snd demo_conn))"
  "case tcp_recvs 0 (butlast demo_pieces) (fst (snd demo_conn)) (snd (snd demo_conn)) of
     Some (op, fr, w) \<Rightarrow> op | None \<Rightarrow> False"
  by code_simp+

theorem receive_buffer_bounded_witness:
  "\<exists>fr' w'. tcp_recvs 0 (butlast demo_pieces) (fst (snd demo_conn)) (snd (snd demo_conn)) = Some (True, fr', w') \<and>
     length (pending fr') < 65536 \<and> 0 < recv_room fr' \<and> length (pending fr') + recv_room fr' \<le> SBSIZE"
proof -
  obtain fr' w' where r: "tcp_recvs 0 (butlast demo_pieces) (fst (snd demo_conn)) (snd (snd demo_conn)) = Some (True, fr', w')"
    using demo_open(2) by (auto split: option.splits)
  from receive_buffer_bounded [OF demo_conn_new _ _ demo_open(1) r] r show ?thesis by simp
qed

end
