(* ===== verification/Server_Refs.thy ===== *)
theory Server_Refs
  imports Server_Worker Server_Stream
begin

text \<open>
  The invariant of the server's shared state: the reference count of a connection is one for the
  open socket plus one for every queue entry that will be answered on it, so a connection is freed
  exactly when neither is left; every queue holds its own entries, and every allocated entry is in
  one queue or in the hands of one worker. The theory proves that every operation keeps it and, from
  it, succeeds: no operation uses a connection or an entry that has been freed.
\<close>

section \<open>The invariant\<close>

definition holders :: "world \<Rightarrow> addr \<Rightarrow> addr set" where
  "holders w a = {e. \<exists>n. w_entries w e = Some n \<and> rq_sock (qd_req (qe_data n)) = a}"

definition ref_inv :: "world \<Rightarrow> bool" where
  "ref_inv w \<longleftrightarrow> fresh w \<and>
     (\<forall>a s. w_socks w a = Some s \<longrightarrow> sk_refcount s = of_bool (sk_evt s) + int (card (holders w a)) \<and> 0 < sk_refcount s) \<and>
     (\<forall>e n. w_entries w e = Some n \<longrightarrow> w_socks w (rq_sock (qd_req (qe_data n))) \<noteq> None)"

definition queues_hold :: "(addr \<Rightarrow> addr list) \<Rightarrow> addr set \<Rightarrow> world \<Rightarrow> bool" where
  "queues_hold Q X w \<longleftrightarrow>
     (\<forall>ev e. w_events w ev = Some e \<longrightarrow> queue_rep (ee_queue e, w_entries w) (Q ev)) \<and>
     (\<forall>ev. w_events w ev = None \<longrightarrow> Q ev = []) \<and>
     (\<forall>ev ev'. ev \<noteq> ev' \<longrightarrow> set (Q ev) \<inter> set (Q ev') = {}) \<and>
     (\<forall>ev. set (Q ev) \<inter> X = {}) \<and>
     X \<union> (\<Union>ev. set (Q ev)) = dom (w_entries w)"

definition table_ok :: "world \<Rightarrow> bool" where
  "table_ok w \<longleftrightarrow> w_table w \<noteq> [] \<and>
     (\<forall>c \<in> set (w_table w). \<forall>ev \<in> set c. w_events w ev \<noteq> None)"

definition world_inv :: "addr set \<Rightarrow> world \<Rightarrow> bool" where
  "world_inv X w \<longleftrightarrow> w_mem w = [] \<and> table_ok w \<and> ref_inv w \<and> (\<exists>Q. queues_hold Q X w)"

text \<open>The connections that can still receive, and those whose request record is set up.\<close>

definition open_socks :: "world \<Rightarrow> addr set" where
  "open_socks w = {a. \<exists>s. w_socks w a = Some s \<and> sk_evt s}"

definition bound_socks :: "world \<Rightarrow> addr set" where
  "bound_socks w = {a. \<exists>s. w_socks w a = Some s \<and> sk_evt s \<and> rq_fd (sk_req s) = sk_fd s \<and> rq_sock (sk_req s) = a}"

definition conns_kept :: "world \<Rightarrow> world \<Rightarrow> bool" where
  "conns_kept w w' \<longleftrightarrow> open_socks w' = open_socks w \<and> bound_socks w \<subseteq> bound_socks w'"

lemma conns_kept_refl [simp]: "conns_kept w w"
  by (simp add: conns_kept_def)

lemma conns_kept_trans [trans]: "conns_kept w w1 \<Longrightarrow> conns_kept w1 w2 \<Longrightarrow> conns_kept w w2"
  by (auto simp: conns_kept_def)

lemma conns_kept_bound: "conns_kept w w' \<Longrightarrow> a \<in> bound_socks w \<Longrightarrow> a \<in> bound_socks w'"
  by (auto simp: conns_kept_def)

lemma bound_open: "a \<in> bound_socks w \<Longrightarrow> a \<in> open_socks w"
  by (auto simp: bound_socks_def open_socks_def)

lemma ref_inv_fresh: "ref_inv w \<Longrightarrow> fresh w"
  by (simp add: ref_inv_def)

lemma ref_inv_sock:
  assumes "ref_inv w" "w_socks w a = Some s"
  shows "sk_refcount s = of_bool (sk_evt s) + int (card (holders w a))" "0 < sk_refcount s"
  using assms unfolding ref_inv_def by blast+

lemma ref_inv_entry:
  assumes "ref_inv w" "w_entries w e = Some n"
  obtains s where "w_socks w (rq_sock (qd_req (qe_data n))) = Some s"
  using assms unfolding ref_inv_def by blast

lemma ref_inv_entry_ex: "ref_inv w \<Longrightarrow> w_entries w e = Some n \<Longrightarrow> \<exists>s. w_socks w (rq_sock (qd_req (qe_data n))) = Some s"
  using ref_inv_entry by blast

lemma ref_invI:
  assumes "fresh w"
    and "\<And>a s. w_socks w a = Some s \<Longrightarrow> sk_refcount s = of_bool (sk_evt s) + int (card (holders w a))"
    and "\<And>a s. w_socks w a = Some s \<Longrightarrow> 0 < sk_refcount s"
    and "\<And>e n. w_entries w e = Some n \<Longrightarrow> \<exists>s. w_socks w (rq_sock (qd_req (qe_data n))) = Some s"
  shows "ref_inv w"
  unfolding ref_inv_def using assms by simp

lemma held_alloc: "queues_hold Q X w \<Longrightarrow> a \<in> set (Q ev) \<union> X \<Longrightarrow> \<exists>n. w_entries w a = Some n"
  unfolding queues_hold_def by blast

lemma holders_finite: "fresh w \<Longrightarrow> finite (holders w a)"
  by (rule finite_subset [of _ "{..< w_next w}"]) (auto simp: holders_def fresh_dom)

lemma bound_ready: "world_inv X w \<Longrightarrow> a \<in> bound_socks w \<Longrightarrow> conn_ready a w"
  by (auto simp: world_inv_def bound_socks_def conn_ready_def ref_inv_def)

section \<open>Changes that do not matter\<close>

lemma same_entries_data:
  "same_entries h h' \<Longrightarrow> h' e = Some n' \<Longrightarrow> \<exists>n. h e = Some n \<and> qe_prev n = qe_prev n' \<and> qd_req (qe_data n) = qd_req (qe_data n')"
  by (cases "h e") (auto simp: same_entries_def dest: spec [of _ e])

lemma same_entries_sym: "same_entries h h' \<Longrightarrow> same_entries h' h"
  by (simp add: same_entries_def)

lemma same_entries_holders: "same_entries (w_entries w) (w_entries w') \<Longrightarrow> holders w' a = holders w a"
  using same_entries_data [of "w_entries w" "w_entries w'"] same_entries_data [OF same_entries_sym]
  unfolding holders_def by (intro Collect_cong) metis

lemma qpath_same: "same_entries h h' \<Longrightarrow> qpath h p as \<Longrightarrow> qpath h' p as"
  using same_entries_data [OF same_entries_sym [of h h']]
  by (induction as arbitrary: p) (auto, metis)

lemma queue_rep_same: "same_entries h h' \<Longrightarrow> queue_rep (q, h) as \<Longrightarrow> queue_rep (q, h') as"
  by (auto simp: queue_rep_def qpath_same)

definition same_socks :: "world \<Rightarrow> world \<Rightarrow> bool" where
  "same_socks w w' \<longleftrightarrow> (\<forall>a. map_option (\<lambda>s. (sk_refcount s, sk_evt s)) (w_socks w' a) = map_option (\<lambda>s. (sk_refcount s, sk_evt s)) (w_socks w a))"

lemma same_socks_D:
  "same_socks w w' \<Longrightarrow> w_socks w' a = Some s' \<Longrightarrow> \<exists>s. w_socks w a = Some s \<and> sk_refcount s = sk_refcount s' \<and> sk_evt s = sk_evt s'"
  by (cases "w_socks w a") (auto simp: same_socks_def dest: spec [of _ a])

lemma same_socks_sym: "same_socks w w' \<Longrightarrow> same_socks w' w"
  by (simp add: same_socks_def)

lemma ref_inv_same:
  assumes "ref_inv w" "same_socks w w'" "same_entries (w_entries w) (w_entries w')" "fresh w'"
  shows "ref_inv w'"
  unfolding ref_inv_def same_entries_holders [OF assms(3)]
proof (intro conjI allI impI)
  show "fresh w'" by (rule assms(4))
next
  fix a s'
  assume "w_socks w' a = Some s'"
  then obtain s where s: "w_socks w a = Some s" "sk_refcount s = sk_refcount s'" "sk_evt s = sk_evt s'"
    using same_socks_D [OF assms(2)] by blast
  show "sk_refcount s' = of_bool (sk_evt s') + int (card (holders w a))"
    using ref_inv_sock(1) [OF assms(1) s(1)] unfolding s .
  show "0 < sk_refcount s'" using ref_inv_sock(2) [OF assms(1) s(1)] unfolding s .
next
  fix e n
  assume "w_entries w' e = Some n"
  then obtain n' where "w_entries w e = Some n'" "qd_req (qe_data n') = qd_req (qe_data n)"
    using same_entries_data [OF assms(3)] by blast
  then obtain s where "w_socks w (rq_sock (qd_req (qe_data n))) = Some s"
    using assms(1) unfolding ref_inv_def by (metis option.exhaust)
  then show "w_socks w' (rq_sock (qd_req (qe_data n))) \<noteq> None"
    using same_socks_D [OF same_socks_sym [OF assms(2)]] by fastforce
qed

lemma queues_hold_same:
  assumes "queues_hold Q X w" "same_entries (w_entries w) (w_entries w')" "w_events w' = w_events w"
  shows "queues_hold Q X w'"
  using assms(1) same_entries_dom [OF assms(2)] queue_rep_same [OF assms(2)] by (simp add: queues_hold_def assms(3))

lemma same_shape_inv:
  assumes "same_shape w w'" "world_inv X w"
  shows "world_inv X w'" "conns_kept w w'"
proof -
  have sh: "w_socks w' = w_socks w" "same_entries (w_entries w) (w_entries w')" "w_events w' = w_events w"
    "w_table w' = w_table w" "w_mem w' = w_mem w" using assms(1) by (auto simp: same_shape_def)
  have "same_socks w w'" using sh(1) by (simp add: same_socks_def)
  moreover have "fresh w'" using same_shape_fresh assms by (auto simp: world_inv_def ref_inv_fresh)
  ultimately have "ref_inv w'" using ref_inv_same sh(2) assms(2) by (auto simp: world_inv_def)
  moreover obtain Q where "queues_hold Q X w" using assms(2) by (auto simp: world_inv_def)
  then have "queues_hold Q X w'" by (rule queues_hold_same) (simp_all add: sh)
  ultimately show "world_inv X w'"
    using assms(2) sh by (auto simp: world_inv_def table_ok_def)
  show "conns_kept w w'" by (simp add: conns_kept_def open_socks_def bound_socks_def sh)
qed

section \<open>Entering a request\<close>

lemma holders_entered:
  assumes "fresh w"
  shows "holders (entered_world req ename hdf s w) a = (if a = rq_sock req then insert (w_next w) (holders w a) else holders w a)"
  using assms by (auto simp: holders_def new_entry_def fresh_def)

lemma entered_ref_inv:
  assumes "ref_inv w" "w_socks w (rq_sock req) = Some s"
  shows "ref_inv (entered_world req ename hdf s w)"
proof -
  have fr: "fresh w" using assms(1) by (rule ref_inv_fresh)
  have new: "w_next w \<notin> holders w a" for a using fr by (auto simp: holders_def fresh_def)
  note s = ref_inv_sock [OF assms]
  show ?thesis
  proof (rule ref_invI)
    show "fresh (entered_world req ename hdf s w)" by (rule entered_fresh [OF fr assms(2)])
  next
    fix a s'
    assume "w_socks (entered_world req ename hdf s w) a = Some s'"
    then show "sk_refcount s' = of_bool (sk_evt s') + int (card (holders (entered_world req ename hdf s w) a))" "0 < sk_refcount s'"
      using s ref_inv_sock [OF assms(1)] new holders_finite [OF fr] by (auto simp: holders_entered [OF fr] split: if_splits)
  next
    fix e n
    assume "w_entries (entered_world req ename hdf s w) e = Some n"
    then show "\<exists>s'. w_socks (entered_world req ename hdf s w) (rq_sock (qd_req (qe_data n))) = Some s'"
      using ref_inv_entry [OF assms(1)] by (auto simp: new_entry_def split: if_splits) blast
  qed
qed

lemma entered_queues:
  assumes "queues_hold Q X w" "fresh w"
  shows "queues_hold Q (insert (w_next w) X) (entered_world req ename hdf s w)"
proof -
  have new: "w_next w \<notin> set (Q ev)" "w_next w \<notin> X" for ev
    using held_alloc [OF assms(1), of "w_next w"] assms(2) by (force simp: fresh_def)+
  show ?thesis
    using assms new by (auto simp: queues_hold_def queue_rep_def rep_simps)
qed

text \<open>What a queue operation changes of the heap: the \<open>prev\<close> field of one entry.\<close>

definition only_prev :: "addr set \<Rightarrow> qdata qheap \<Rightarrow> qdata qheap \<Rightarrow> bool" where
  "only_prev A h h' \<longleftrightarrow> (\<forall>x. map_option qe_data (h' x) = map_option qe_data (h x)) \<and> (\<forall>x. x \<notin> A \<longrightarrow> h' x = h x)"

lemma only_prev_set: "set_prev t p h = Some h' \<Longrightarrow> t \<in> A \<Longrightarrow> only_prev A h h'"
  by (auto simp: set_prev_def only_prev_def split: option.splits)

lemma only_prev_refl [simp]: "only_prev A h h"
  by (simp add: only_prev_def)

lemma queue_put_only_prev:
  "queue_rep (q, h) as \<Longrightarrow> queue_put (q, h) e = Some (q', h') \<Longrightarrow> only_prev (insert e (set as)) h h'"
  by (auto simp: queue_put_def queue_rep_def split: option.splits if_splits intro: only_prev_set)

lemma queue_cas_only_prev: "queue_cas (q, h) e = Some (q', h') \<Longrightarrow> only_prev (insert e (set as)) h h'"
  by (auto simp: queue_cas_def split: option.splits intro: only_prev_set)

lemma qpath_only_prev: "only_prev A h h' \<Longrightarrow> set as \<inter> A = {} \<Longrightarrow> qpath h p as \<Longrightarrow> qpath h' p as"
  by (induction as arbitrary: p) (auto simp: only_prev_def)

lemma only_prev_dom: "only_prev A h h' \<Longrightarrow> dom h' = dom h"
  by (auto simp: only_prev_def dom_def) (metis option.map_disc_iff not_None_eq)+

lemma only_prev_data: "only_prev A h h' \<Longrightarrow> h' x = Some n' \<Longrightarrow> \<exists>n. h x = Some n \<and> qe_data n = qe_data n'"
  by (cases "h x") (auto simp: only_prev_def dest: spec [of _ x])

lemma only_prev_sym: "only_prev A h h' \<Longrightarrow> only_prev A h' h"
  by (auto simp: only_prev_def)

lemma holders_only_prev: "only_prev A (w_entries w) (w_entries w') \<Longrightarrow> holders w' a = holders w a"
  using only_prev_data [of A "w_entries w" "w_entries w'"] only_prev_data [OF only_prev_sym]
  unfolding holders_def by (intro Collect_cong) metis

lemma ref_inv_only_prev:
  assumes "ref_inv w" "w_socks w' = w_socks w" "only_prev A (w_entries w) (w_entries w')" "fresh w'"
  shows "ref_inv w'"
  using assms(1,4) only_prev_data [OF assms(3)] unfolding ref_inv_def holders_only_prev [OF assms(3)] assms(2)
  by metis

lemma Union_at: "(\<Union>x. set (Q x)) = set (Q ev) \<union> (\<Union>x \<in> - {ev}. set (Q x))"
  by auto

lemma Union_other: "(\<Union>x \<in> - {ev}. set ((Q(ev := L)) x)) = (\<Union>x \<in> - {ev}. set (Q x))"
  by auto

lemma Union_upd: "set L = insert a (set (Q ev)) \<Longrightarrow> (\<Union>x. set ((Q(ev := L)) x)) = insert a (\<Union>x. set (Q x))"
  using Union_at [of Q ev] Union_at [of "Q(ev := L)" ev] Union_other [of Q ev L] by simp

lemma enqueue_holds:
  assumes hold: "queues_hold Q (insert a X) w" and a: "a \<notin> X" "w_entries w a = Some n" "qe_prev n = None"
    and e: "w_events w ev = Some e"
  shows "\<exists>w'. enqueue sync ev a w = Some w' \<and> queues_hold (Q(ev := if sync then a # Q ev else Q ev @ [a])) X w' \<and>
     only_prev (insert a (set (Q ev))) (w_entries w) (w_entries w')"
proof -
  let ?q = "ee_queue e" and ?h = "w_entries w"
  have rep: "queue_rep (?q, ?h) (Q ev)" using hold e by (simp add: queues_hold_def)
  have out: "a \<notin> set (Q ev')" for ev' using hold by (auto simp: queues_hold_def)
  have fr: "queue_fresh (?q, ?h) (Q ev) a" using out a by (simp add: queue_fresh_def)
  obtain q' h' where op: "(if sync then queue_cas (?q, ?h) a else queue_put (?q, ?h) a) = Some (q', h')"
      and rep': "queue_rep (q', h') (if sync then a # Q ev else Q ev @ [a])"
    using queue_cas_rep [OF rep fr] queue_put_rep [OF rep fr] by (cases sync) auto
  have op': "only_prev (insert a (set (Q ev))) ?h h'"
    using op queue_put_only_prev [OF rep] queue_cas_only_prev by (cases sync) auto
  have other: "queue_rep (q1, h') (Q ev')" if "queue_rep (q1, ?h) (Q ev')" "ev' \<noteq> ev" for q1 ev'
  proof -
    have "set (Q ev') \<inter> insert a (set (Q ev)) = {}" using hold that(2) out by (auto simp: queues_hold_def)
    then show ?thesis using that(1) qpath_only_prev [OF op'] by (auto simp: queue_rep_def)
  qed
  let ?w = "logged (Signalled (ee_name e)) (w\<lparr>w_entries := h', w_events := (w_events w)(ev \<mapsto> e\<lparr>ee_queue := q'\<rparr>)\<rparr>)"
  have "enqueue sync ev a w = Some ?w" using op by (simp add: enqueue_def e)
  moreover have "queues_hold (Q(ev := if sync then a # Q ev else Q ev @ [a])) X ?w"
    unfolding queues_hold_def
  proof (intro conjI)
    show "X \<union> (\<Union>x. set ((Q(ev := if sync then a # Q ev else Q ev @ [a])) x)) = dom (w_entries ?w)"
      using hold only_prev_dom [OF op'] Union_upd [of "if sync then a # Q ev else Q ev @ [a]" a Q ev] by (simp add: queues_hold_def)
  qed (use hold rep' other out a(1) e in \<open>auto simp: queues_hold_def\<close>)
  ultimately show ?thesis using op' by auto
qed

section \<open>Dropping a reference\<close>

definition dropped :: "tcp_socket \<Rightarrow> tcp_socket option" where
  "dropped s = (if sk_refcount s = 1 then None else Some (s\<lparr>sk_refcount := sk_refcount s - 1\<rparr>))"

definition same_rest :: "world \<Rightarrow> world \<Rightarrow> bool" where
  "same_rest w w' \<longleftrightarrow> w_events w' = w_events w \<and> w_table w' = w_table w \<and> w_next w' = w_next w \<and> w_mem w' = w_mem w"

lemma remove_ref_drops:
  assumes "w_socks w a = Some s" "0 < sk_refcount s"
  shows "\<exists>w'. tcp_socket_remove_ref a w = Some w' \<and> w_socks w' = (w_socks w)(a := dropped s) \<and>
     w_entries w' = w_entries w \<and> same_rest w w'"
  using assms
  by (auto simp: tcp_socket_remove_ref_def tcp_socket_free_def dropped_def same_rest_def Let_def)

lemma conns_kept_drop:
  assumes "w_socks w a = Some s" "w_socks w' = (w_socks w)(a := dropped s)" "sk_refcount s = 1 \<longrightarrow> \<not> sk_evt s"
  shows "conns_kept w w'"
  using assms by (auto simp: conns_kept_def open_socks_def bound_socks_def dropped_def split: if_splits)

lemma free_entry_inv:
  assumes inv: "ref_inv w" and n: "w_entries w e = Some n"
  shows "\<exists>w'. free_entry e w = Some w' \<and> ref_inv w' \<and> w_entries w' = (w_entries w)(e := None) \<and> same_rest w w' \<and> conns_kept w w'"
proof -
  let ?a = "rq_sock (qd_req (qe_data n))"
  obtain s where s: "w_socks w ?a = Some s" using ref_inv_entry [OF inv n] .
  obtain w1 where w1: "tcp_socket_remove_ref ?a w = Some w1" "w_socks w1 = (w_socks w)(?a := dropped s)" "same_rest w w1"
    using remove_ref_drops [OF s ref_inv_sock(2) [OF inv s]] by blast
  let ?w = "w1\<lparr>w_entries := (w_entries w)(e := None)\<rparr>"
  have fin: "finite (holders w a)" for a using holders_finite ref_inv_fresh [OF inv] .
  have hold: "holders ?w a = holders w a - {e}" for a by (auto simp: holders_def)
  have e: "e \<in> holders w a \<longleftrightarrow> a = ?a" for a using n by (auto simp: holders_def)
  have card: "card (holders w a - {e}) = (if a = ?a then card (holders w a) - 1 else card (holders w a))" for a
    using fin e by (simp add: card_Diff_singleton_if)
  have pos: "0 < card (holders w ?a)" using fin e [of ?a] by (auto simp: card_gt_0_iff)
  have run: "free_entry e w = Some ?w" using w1(1) n by (simp add: free_entry_def queue_entry_free_def release_entry_def)
  have "ref_inv ?w"
  proof (rule ref_invI)
    show "fresh ?w"
      using ref_inv_fresh [OF inv] w1(2,3) s by (auto simp: fresh_def same_rest_def)
  next
    fix a s'
    assume a: "w_socks ?w a = Some s'"
    show "sk_refcount s' = of_bool (sk_evt s') + int (card (holders ?w a))" "0 < sk_refcount s'"
      using a w1(2) ref_inv_sock [OF inv, of a] ref_inv_sock [OF inv s] s pos unfolding hold card
      by (auto simp: dropped_def split: if_splits)
  next
    fix e' n'
    assume e': "w_entries ?w e' = Some n'"
    then have n': "w_entries w e' = Some n'" "e' \<noteq> e" by (auto split: if_splits)
    then obtain s' where s': "w_socks w (rq_sock (qd_req (qe_data n'))) = Some s'" using ref_inv_entry [OF inv] by blast
    have "sk_refcount s \<noteq> 1" if "rq_sock (qd_req (qe_data n')) = ?a"
    proof -
      have "{e, e'} \<subseteq> holders w ?a" using n n' that by (auto simp: holders_def)
      from card_mono [OF fin this] show ?thesis using ref_inv_sock(1) [OF inv s] n'(2) by auto
    qed
    then show "\<exists>s'. w_socks ?w (rq_sock (qd_req (qe_data n'))) = Some s'"
      using s' w1(2) by (auto simp: dropped_def)
  qed
  moreover have "conns_kept w ?w"
    using conns_kept_drop [OF s, of ?w] w1(2) ref_inv_sock [OF inv s] pos by auto
  moreover have "same_rest w ?w" using w1(3) by (simp add: same_rest_def)
  ultimately show ?thesis using run by auto
qed

lemma queues_hold_free:
  assumes "queues_hold Q X w" "e \<in> X" "w_entries w' = (w_entries w)(e := None)" "w_events w' = w_events w"
  shows "queues_hold Q (X - {e}) w'"
proof -
  have "e \<notin> set (Q ev)" for ev using assms(1,2) by (auto simp: queues_hold_def)
  moreover have "X \<union> (\<Union>ev. set (Q ev)) = dom (w_entries w)" using assms(1) by (simp add: queues_hold_def)
  ultimately have "X - {e} \<union> (\<Union>ev. set (Q ev)) = dom (w_entries w')" by (auto simp: assms(3))
  with \<open>\<And>ev. e \<notin> set (Q ev)\<close> show ?thesis
    using assms by (auto simp: queues_hold_def queue_rep_def rep_simps)
qed

lemma free_entry_world_inv:
  assumes "world_inv X w" "e \<in> X"
  shows "\<exists>w'. free_entry e w = Some w' \<and> world_inv (X - {e}) w' \<and> conns_kept w w' \<and> w_events w' = w_events w"
proof -
  obtain Q where Q: "queues_hold Q X w" using assms(1) by (auto simp: world_inv_def)
  obtain n where "w_entries w e = Some n" using held_alloc [OF Q, of e] assms(2) by auto
  moreover have "ref_inv w" using assms(1) by (simp add: world_inv_def)
  ultimately obtain w' where w': "free_entry e w = Some w'" "ref_inv w'" "w_entries w' = (w_entries w)(e := None)" "same_rest w w'" "conns_kept w w'"
    using free_entry_inv by blast
  have "queues_hold Q (X - {e}) w'" using queues_hold_free [OF Q assms(2) w'(3)] w'(4) by (simp add: same_rest_def)
  then show ?thesis using w' assms(1) by (auto simp: world_inv_def table_ok_def same_rest_def)
qed

section \<open>Closing a connection\<close>

lemma conn_error_inv:
  assumes inv: "world_inv X w" and a: "a \<in> open_socks w"
  shows "\<exists>w'. conn_error a w = Some w' \<and> world_inv X w' \<and> open_socks w' = open_socks w - {a} \<and> bound_socks w - {a} \<subseteq> bound_socks w' \<and>
     w_events w' = w_events w"
proof -
  have ri: "ref_inv w" using inv by (simp add: world_inv_def)
  obtain s where s: "w_socks w a = Some s" "sk_evt s" using a by (auto simp: open_socks_def)
  let ?s = "s\<lparr>sk_fd := -1, sk_evt := False\<rparr>"
  let ?w1 = "logged (Closed (sk_fd s)) (w\<lparr>w_socks := (w_socks w)(a \<mapsto> ?s)\<rparr>)"
  obtain w' where w': "tcp_socket_remove_ref a ?w1 = Some w'" "w_socks w' = (w_socks w)(a := dropped ?s)"
      "w_entries w' = w_entries w" "same_rest ?w1 w'"
    using remove_ref_drops [of ?w1 a ?s] ref_inv_sock(2) [OF ri s(1)] by auto
  have hold: "holders w' b = holders w b" for b by (simp add: holders_def w'(3))
  have cnt: "sk_refcount s = 1 + int (card (holders w a))" using ref_inv_sock(1) [OF ri s(1)] s(2) by simp
  have "ref_inv w'"
  proof (rule ref_invI)
    show "fresh w'" using ref_inv_fresh [OF ri] w' s(1) by (auto simp: fresh_def same_rest_def)
  next
    fix b s'
    assume "w_socks w' b = Some s'"
    then show "sk_refcount s' = of_bool (sk_evt s') + int (card (holders w' b))" "0 < sk_refcount s'"
      using w'(2) cnt ref_inv_sock [OF ri, of b] by (auto simp: hold dropped_def split: if_splits)
  next
    fix e n
    assume "w_entries w' e = Some n"
    then have n: "w_entries w e = Some n" by (simp add: w'(3))
    then have "e \<in> holders w (rq_sock (qd_req (qe_data n)))" by (auto simp: holders_def)
    moreover have "holders w a = {}" if "sk_refcount s = 1"
      using that cnt holders_finite [OF ref_inv_fresh [OF ri], of a] by simp
    moreover obtain s' where "w_socks w (rq_sock (qd_req (qe_data n))) = Some s'" using ref_inv_entry [OF ri n] .
    ultimately show "\<exists>s. w_socks w' (rq_sock (qd_req (qe_data n))) = Some s"
      using w'(2) by (auto simp: dropped_def)
  qed
  moreover obtain Q where "queues_hold Q X w" using inv by (auto simp: world_inv_def)
  then have "queues_hold Q X w'" using w'(3,4) by (simp add: queues_hold_def same_rest_def)
  ultimately have "world_inv X w'"
    using inv w'(4) by (auto simp: world_inv_def table_ok_def same_rest_def)
  moreover have "open_socks w' = open_socks w - {a}" "bound_socks w - {a} \<subseteq> bound_socks w'"
    using w'(2) by (auto simp: open_socks_def bound_socks_def dropped_def split: if_splits)
  ultimately show ?thesis using w'(1,4) s(1) by (auto simp: conn_error_def same_rest_def)
qed

section \<open>Handling input\<close>

text \<open>The request record of a connection may be rewritten, as long as it keeps belonging to it.\<close>

lemma req_update_inv:
  assumes inv: "world_inv X w" and s: "w_socks w a = Some s"
    and w': "w' = w\<lparr>w_socks := (w_socks w)(a \<mapsto> s\<lparr>sk_req := r\<rparr>)\<rparr>"
    and r: "a \<in> bound_socks w \<longrightarrow> rq_fd r = sk_fd s \<and> rq_sock r = a"
  shows "world_inv X w'" "conns_kept w w'"
proof -
  have "same_socks w w'" using s by (simp add: same_socks_def w')
  moreover have "fresh w'" using ref_inv_fresh [of w] inv s by (auto simp: world_inv_def fresh_def w')
  ultimately have "ref_inv w'" using ref_inv_same [of w w'] inv by (simp add: world_inv_def w')
  moreover obtain Q where "queues_hold Q X w" using inv by (auto simp: world_inv_def)
  then have "queues_hold Q X w'" by (simp add: queues_hold_def w')
  ultimately show "world_inv X w'" using inv by (auto simp: world_inv_def table_ok_def w')
  show "conns_kept w w'" using s r by (auto simp: conns_kept_def open_socks_def bound_socks_def w')
qed

lemma entered_inv:
  assumes inv: "world_inv X w" and s: "w_socks w (rq_sock req) = Some s" and ev: "w_events w ev = Some e"
    and run: "enqueue sync ev (w_next w) (entered_world req ename hdf s w) = Some w'"
  shows "world_inv X w'" "conns_kept w w'"
proof -
  let ?w1 = "entered_world req ename hdf s w"
  have ri: "ref_inv w" and fr: "fresh w" using inv ref_inv_fresh by (auto simp: world_inv_def)
  obtain Q where Q: "queues_hold Q X w" using inv by (auto simp: world_inv_def)
  have "w_next w \<notin> X" using held_alloc [OF Q, of "w_next w"] fr by (force simp: fresh_def)
  then obtain A where "queues_hold (Q(ev := if sync then w_next w # Q ev else Q ev @ [w_next w])) X w'"
      "only_prev A (w_entries ?w1) (w_entries w')"
    using enqueue_holds [OF entered_queues [OF Q fr, of req ename hdf s], of "new_entry req ename hdf" ev e sync] run ev
    by (auto simp: new_entry_def)
  moreover have "fresh w'" by (rule enqueue_fresh [OF run entered_fresh [OF fr s]])
  ultimately have "ref_inv w'" "\<exists>Q. queues_hold Q X w'"
    using ref_inv_only_prev [OF entered_ref_inv [OF ri s]] enqueue_frame(1) [OF run] by blast+
  moreover have "table_ok w'" "w_mem w' = []"
    using inv enqueue_frame [OF run] by (auto simp: world_inv_def table_ok_def)
  ultimately show "world_inv X w'" by (simp add: world_inv_def)
  show "conns_kept w w'"
    using s by (auto simp: conns_kept_def open_socks_def bound_socks_def enqueue_frame [OF run])
qed

lemma found_event:
  assumes "table_ok w" "find_entry_in_table w key = Some (Some ev)"
  shows "\<exists>e. w_events w ev = Some e \<and> ee_name e = key"
proof -
  have "find_in_evt_chain evs c key = Some (Some ev) \<Longrightarrow> \<exists>e. evs ev = Some e \<and> ee_name e = key" for evs c
    by (induction c) (auto split: if_splits)
  then show ?thesis using assms by (auto simp: find_entry_in_table_def split: if_splits)
qed

lemma parse_event_inv:
  assumes inv: "world_inv X w" and a: "a \<in> bound_socks w" "rq_sock req = a" and run: "parse_event req payload w = Some w'"
  shows "world_inv X w' \<and> conns_kept w w'"
proof -
  obtain s where s: "w_socks w (rq_sock req) = Some s" using a by (auto simp: bound_socks_def)
  have "ref_inv w" "w_mem w = []" using inv by (auto simp: world_inv_def)
  have "0 < sk_refcount s" by (rule ref_inv_sock(2) [OF \<open>ref_inv w\<close> s])
  moreover have "w_entries w (w_next w) = None" using ref_inv_fresh [OF \<open>ref_inv w\<close>] by (simp add: fresh_def)
  ultimately have "same_shape w w' \<or> (\<exists>ename hdf ev. find_entry_in_table w ename = Some (Some ev) \<and>
      enqueue (rq_flags req AND FLAGS_SYNC \<noteq> 0) ev (w_next w) (entered_world req ename hdf s w) = Some w')"
    by (rule parse_event_outcome [OF run \<open>w_mem w = []\<close> s])
  then show ?thesis
  proof
    assume "same_shape w w'"
    then show ?thesis using same_shape_inv [OF _ inv] by blast
  next
    assume "\<exists>ename hdf ev. find_entry_in_table w ename = Some (Some ev) \<and>
      enqueue (rq_flags req AND FLAGS_SYNC \<noteq> 0) ev (w_next w) (entered_world req ename hdf s w) = Some w'"
    then obtain ename hdf ev where found: "find_entry_in_table w ename = Some (Some ev)"
        and put: "enqueue (rq_flags req AND FLAGS_SYNC \<noteq> 0) ev (w_next w) (entered_world req ename hdf s w) = Some w'" by blast
    obtain e where "w_events w ev = Some e" using found_event [OF _ found] inv by (auto simp: world_inv_def)
    from entered_inv [OF inv s this put] show ?thesis by blast
  qed
qed

lemma set_req_inv:
  assumes inv: "world_inv X w" and a: "a \<in> bound_socks w" and run: "set_req a f w = Some (req, w')"
    and f: "\<And>r. rq_fd (f r) = rq_fd r" "\<And>r. rq_sock (f r) = rq_sock r"
  shows "world_inv X w'" "conns_kept w w'" "rq_sock req = a"
proof -
  obtain s where s: "w_socks w a = Some s" "rq_fd (sk_req s) = sk_fd s" "rq_sock (sk_req s) = a" using a by (auto simp: bound_socks_def)
  have w': "w' = w\<lparr>w_socks := (w_socks w)(a \<mapsto> s\<lparr>sk_req := f (sk_req s)\<rparr>)\<rparr>" "req = f (sk_req s)"
    using run s(1) by (auto simp: set_req_def)
  show "world_inv X w'" "conns_kept w w'" by (rule req_update_inv [OF inv s(1) w'(1)], simp add: f s)+
  show "rq_sock req = a" by (simp add: w'(2) f s)
qed

lemma parse_message_inv:
  assumes inv: "world_inv X w" and a: "a \<in> bound_socks w" and run: "parse_message a m w = Some (ok, w')"
  shows "world_inv X w' \<and> conns_kept w w'"
proof -
  have refused: "world_inv X (tcp_reply_mini r code w1) \<and> conns_kept w (tcp_reply_mini r code w1)"
    if "set_req a f (count_stat g w) = Some (req, w1)" "\<And>r. rq_fd (f r) = rq_fd r" "\<And>r. rq_sock (f r) = rq_sock r" for f g req w1 r code
  proof -
    note cnt = same_shape_inv [OF count_same_shape [of w g] inv]
    have "a \<in> bound_socks (count_stat g w)" using cnt(2) a by (auto simp: conns_kept_def)
    note w1 = set_req_inv [OF cnt(1) this that]
    have sh: "same_shape w1 (tcp_reply_mini r code w1)" by (rule quiet_same_shape) simp
    show ?thesis using same_shape_inv [OF sh w1(1)] conns_kept_trans [OF cnt(2) w1(2)] conns_kept_trans by blast
  qed
  have accepted: "world_inv X w2 \<and> conns_kept w w2"
    if "set_req a f w = Some (req, w1)" "parse_event req p w1 = Some w2" "\<And>r. rq_fd (f r) = rq_fd r" "\<And>r. rq_sock (f r) = rq_sock r" for f req w1 w2 p
  proof -
    note w1 = set_req_inv [OF inv a that(1,3,4)]
    have "a \<in> bound_socks w1" using w1(2) a by (auto simp: conns_kept_def)
    from parse_event_inv [OF w1(1) this w1(3) that(2)] show ?thesis using conns_kept_trans [OF w1(2)] by blast
  qed
  show ?thesis
    using run unfolding parse_message_def Let_def by (auto split: if_splits dest!: refused accepted)
qed

definition closed_at :: "addr \<Rightarrow> world \<Rightarrow> world \<Rightarrow> bool" where
  "closed_at a w w' \<longleftrightarrow> open_socks w' = open_socks w - {a} \<and> bound_socks w - {a} \<subseteq> bound_socks w'"

lemma closed_at_kept: "conns_kept w w1 \<Longrightarrow> closed_at a w1 w2 \<Longrightarrow> closed_at a w w2"
  by (auto simp: closed_at_def conns_kept_def)

lemma conn_error_closes:
  assumes "world_inv X w" "a \<in> open_socks w" "conn_error a w = Some w'"
  shows "world_inv X w' \<and> closed_at a w w'"
  using conn_error_inv [OF assms(1,2)] assms(3) by (auto simp: closed_at_def)

lemma consume_inv:
  assumes "world_inv X w" "a \<in> bound_socks w" "consume a bs w = Some (op, p, w')"
  shows "world_inv X w' \<and> (if op then conns_kept w w' else closed_at a w w')"
  using assms
proof (induction "length bs" arbitrary: bs w rule: less_induct)
  case less
  show ?case
  proof (cases bs rule: stream_cases)
    case waits
    then show ?thesis using less.prems by (simp add: waits_consume)
  next
    case broken
    then show ?thesis using less.prems conn_error_closes [OF less.prems(1) bound_open] by (auto simp: broken_consume)
  next
    case whole
    note cnt = same_shape_inv [OF count_same_shape [of w "\<lambda>s. s\<lparr>msg_tcp := msg_tcp s + 1\<rparr>", folded count_tcp_def] less.prems(1)]
    have "a \<in> bound_socks (count_tcp w)" using cnt(2) less.prems(2) by (auto simp: conns_kept_def)
    then obtain ok w1 where pm: "parse_message a (drop 4 (take (frame_size bs) bs)) (count_tcp w) = Some (ok, w1)"
        and w1: "world_inv X w1" "conns_kept (count_tcp w) w1"
      using parse_message_inv [OF cnt(1)] whole less.prems(3) by (auto simp: whole_consume split: option.splits)
    have kept: "conns_kept w w1" using conns_kept_trans [OF cnt(2) w1(2)] .
    then have b1: "a \<in> bound_socks w1" using less.prems(2) by (auto simp: conns_kept_def)
    show ?thesis
    proof (cases ok)
      case True
      then have "consume a (drop (frame_size bs) bs) w1 = Some (op, p, w')" using less.prems(3) whole pm by (simp add: whole_consume)
      moreover have "length (drop (frame_size bs) bs) < length bs" using whole by (auto simp: whole_def)
      ultimately have "world_inv X w' \<and> (if op then conns_kept w1 w' else closed_at a w1 w')" using less.hyps w1(1) b1 by blast
      then show ?thesis using kept conns_kept_trans closed_at_kept by (auto split: if_splits)
    next
      case False
      then have "conn_error a w1 = Some w'" "\<not> op" using less.prems(3) whole pm by (auto simp: whole_consume)
      then show ?thesis using conn_error_closes [OF w1(1) bound_open [OF b1]] closed_at_kept [OF kept] by auto
    qed
  qed
qed

definition recv_valid :: "framing \<Rightarrow> recv_result \<Rightarrow> bool" where
  "recv_valid fr r = (case r of Received bs \<Rightarrow> bs \<noteq> [] \<and> length bs \<le> recv_room fr | _ \<Rightarrow> True)"

lemma tcp_recv_bound_inv:
  assumes inv: "world_inv X w" and a: "a \<in> bound_socks w" and fr: "framing_ok fr" "bs \<noteq> []" "length bs \<le> recv_room fr"
    and run: "tcp_recv a (Received bs) fr w = Some (op, fr', w')"
  shows "world_inv X w' \<and> (if op then conns_kept w w' \<and> framing_ok fr' \<and> a \<in> bound_socks w' else closed_at a w w')"
proof -
  obtain p where p: "consume a (pending fr @ bs) w = Some (op, p, w')" "op \<longrightarrow> framing_ok fr'"
    using tcp_recv_consumes [OF bound_ready [OF inv a] fr] run by (cases "consume a (pending fr @ bs) w") auto
  show ?thesis using consume_inv [OF inv a p(1)] p(2) conns_kept_bound [OF _ a] by (cases op) auto
qed

lemma init_req_inv:
  assumes inv: "world_inv X w" and a: "a \<in> open_socks w"
  obtains w1 where "init_req a w = Some w1" "world_inv X w1" "conns_kept w w1" "a \<in> bound_socks w1"
proof -
  obtain s where s: "w_socks w a = Some s" "sk_evt s" using a by (auto simp: open_socks_def)
  let ?w = "w\<lparr>w_socks := (w_socks w)(a \<mapsto> s\<lparr>sk_req := (sk_req s)\<lparr>rq_fd := sk_fd s, rq_sock := a\<rparr>\<rparr>)\<rparr>"
  have "world_inv X ?w" "conns_kept w ?w" by (rule req_update_inv [OF inv s(1) refl], simp)+
  then show thesis using s by (intro that [of ?w]) (auto simp: init_req_def bound_socks_def)
qed

lemma tcp_recv_inv:
  assumes inv: "world_inv X w" and a: "a \<in> open_socks w" "fr_buf fr \<noteq> None \<longrightarrow> a \<in> bound_socks w"
    and fr: "framing_ok fr" "recv_valid fr r" and run: "tcp_recv a r fr w = Some (op, fr', w')"
  shows "world_inv X w' \<and>
     (if op then conns_kept w w' \<and> framing_ok fr' \<and> (fr_buf fr' \<noteq> None \<longrightarrow> a \<in> bound_socks w') else closed_at a w w')"
proof (cases "\<exists>bs. r = Received bs")
  case False
  then show ?thesis
    using run inv a fr conn_error_closes [OF inv a(1)]
    by (auto simp: tcp_recv_def split: recv_result.splits option.splits)
next
  case True
  then obtain bs where r: "r = Received bs" ..
  then have bs: "bs \<noteq> []" "length bs \<le> recv_room fr" using fr(2) by (auto simp: recv_valid_def)
  show ?thesis
  proof (cases "fr_buf fr")
    case (Some b)
    then show ?thesis using tcp_recv_bound_inv [OF inv _ fr(1) bs] run a(2) r by (auto split: if_splits)
  next
    case None
    obtain w1 where w1: "init_req a w = Some w1" "world_inv X w1" "conns_kept w w1" "a \<in> bound_socks w1"
      using init_req_inv [OF inv a(1)] .
    have "tcp_recv a (Received bs) fr w1 = Some (op, fr', w')" using run tcp_recv_init [OF w1(1) None] r by simp
    from tcp_recv_bound_inv [OF w1(2,4) fr(1) bs this] show ?thesis
      using conns_kept_trans [OF w1(3)] closed_at_kept [OF w1(3)] by (auto split: if_splits)
  qed
qed

section \<open>New connections and workers\<close>

lemma new_connection_inv:
  assumes inv: "world_inv X w" and run: "tcp_newconnection fd nonblock junk w = Some (r, w')"
  shows "world_inv X w' \<and>
    (case r of None \<Rightarrow> conns_kept w w'
     | Some (a, fr) \<Rightarrow> fr = framing_init \<and> open_socks w' = insert a (open_socks w) \<and> bound_socks w \<subseteq> bound_socks w' \<and> a \<notin> open_socks w)"
proof (cases nonblock)
  case False
  then have "r = None" "same_shape w w'"
    using run inv by (auto simp: tcp_newconnection_def world_inv_def same_shape_def)
  then show ?thesis using same_shape_inv [OF _ inv] by simp
next
  case True
  let ?a = "w_next w" and ?s = "\<lparr>sk_refcount = 1, sk_fd = fd, sk_evt = True, sk_req = junk, sk_on_close = False\<rparr>"
  have ri: "ref_inv w" and fr: "fresh w" and mem: "w_mem w = []" using inv ref_inv_fresh by (auto simp: world_inv_def)
  have w': "w' = w\<lparr>w_socks := (w_socks w)(?a \<mapsto> ?s), w_next := ?a + 1\<rparr>" "r = Some (?a, framing_init)"
    using run True mem by (auto simp: tcp_newconnection_def tcp_socket_add_ref_def Let_def)
  have new: "w_socks w ?a = None" using fr by (simp add: fresh_def)
  have hold: "holders w' b = holders w b" for b by (simp add: holders_def w'(1))
  have "holders w ?a = {}" using ref_inv_entry_ex [OF ri] new by (fastforce simp: holders_def)
  have "ref_inv w'"
  proof (rule ref_invI)
    show "fresh w'" using fr by (auto simp: fresh_def w'(1))
  next
    fix b s'
    assume "w_socks w' b = Some s'"
    then show "sk_refcount s' = of_bool (sk_evt s') + int (card (holders w' b))" "0 < sk_refcount s'"
      using ref_inv_sock [OF ri, of b] \<open>holders w ?a = {}\<close> unfolding hold by (auto simp: w'(1) split: if_splits)
  next
    fix e n
    assume "w_entries w' e = Some n"
    then show "\<exists>s. w_socks w' (rq_sock (qd_req (qe_data n))) = Some s"
      using ref_inv_entry_ex [OF ri, of e n] by (auto simp: w'(1))
  qed
  moreover obtain Q where "queues_hold Q X w" using inv by (auto simp: world_inv_def)
  then have "queues_hold Q X w'" by (simp add: queues_hold_def w'(1))
  ultimately have "world_inv X w'" using inv by (auto simp: world_inv_def table_ok_def w'(1))
  then show ?thesis using new by (auto simp: w' open_socks_def bound_socks_def)
qed

definition front :: "addr list \<Rightarrow> addr option" where
  "front as = (case as of [] \<Rightarrow> None | a # _ \<Rightarrow> Some a)"

lemma take_entry_queues:
  assumes Q: "queues_hold Q X w" and ev: "w_events w ev = Some e"
  obtains q where "take_entry ev w = Some (front (Q ev), w\<lparr>w_events := (w_events w)(ev \<mapsto> e\<lparr>ee_queue := q\<rparr>)\<rparr>)"
    and "queues_hold (Q(ev := tl (Q ev))) (X \<union> set_option (front (Q ev))) (w\<lparr>w_events := (w_events w)(ev \<mapsto> e\<lparr>ee_queue := q\<rparr>)\<rparr>)"
    and "set_option (front (Q ev)) \<inter> X = {}"
proof -
  let ?r = "front (Q ev)"
  have rep: "queue_rep (ee_queue e, w_entries w) (Q ev)" using Q ev by (simp add: queues_hold_def)
  obtain q where get: "queue_get (ee_queue e, w_entries w) = Some (?r, q, w_entries w)"
      and q: "queue_rep (q, w_entries w) (tl (Q ev))" and r: "set (Q ev) = set_option ?r \<union> set (tl (Q ev))" "set_option ?r \<inter> set (tl (Q ev)) = {}"
  proof (cases "Q ev")
    case Nil
    then show thesis using that [of "ee_queue e"] rep queue_get_rep_Nil by (auto simp: front_def)
  next
    case (Cons a as)
    then obtain s' where "queue_get (ee_queue e, w_entries w) = Some (Some a, s')" "queue_rep s' as" "snd s' = w_entries w"
      using queue_get_rep [of "(ee_queue e, w_entries w)" a as] rep by auto
    moreover have "a \<notin> set as" using rep Cons by (auto simp: queue_rep_def)
    ultimately show thesis using that [of "fst s'"] Cons by (cases s') (auto simp: front_def)
  qed
  let ?w = "w\<lparr>w_events := (w_events w)(ev \<mapsto> e\<lparr>ee_queue := q\<rparr>)\<rparr>"
  have run: "take_entry ev w = Some (?r, ?w)" using get by (simp add: take_entry_def ev)
  have dis: "set (Q ev') \<inter> X = {}" "ev' \<noteq> ev \<Longrightarrow> set (Q ev) \<inter> set (Q ev') = {}" for ev'
    using Q by (auto simp: queues_hold_def)
  have sub: "set_option ?r \<subseteq> set (Q ev)" "set (tl (Q ev)) \<subseteq> set (Q ev)" using r(1) by auto
  have out: "set_option ?r \<inter> X = {}" using dis(1) sub(1) by blast
  have out': "set ((Q(ev := tl (Q ev))) ev') \<inter> (X \<union> set_option ?r) = {}" for ev'
    using dis sub r(2) by (cases "ev' = ev") (auto, blast+)
  have "queues_hold (Q(ev := tl (Q ev))) (X \<union> set_option ?r) ?w"
    unfolding queues_hold_def
  proof (intro conjI)
    have "(\<Union>x. set (Q x)) = set_option ?r \<union> (\<Union>x. set ((Q(ev := tl (Q ev))) x))"
      using Union_at [of Q ev] Union_at [of "Q(ev := tl (Q ev))" ev] Union_other [of Q ev] r(1) by (simp add: Un_assoc)
    then show "X \<union> set_option ?r \<union> (\<Union>x. set ((Q(ev := tl (Q ev))) x)) = dom (w_entries ?w)"
      using Q by (auto simp: queues_hold_def)
  next
    have "\<forall>ev' ev''. ev' \<noteq> ev'' \<longrightarrow> set (Q ev') \<inter> set (Q ev'') = {}" using Q by (simp add: queues_hold_def)
    then show "\<forall>ev' ev''. ev' \<noteq> ev'' \<longrightarrow> set ((Q(ev := tl (Q ev))) ev') \<inter> set ((Q(ev := tl (Q ev))) ev'') = {}"
      using sub(2) by (auto simp: fun_upd_def)
  next
    show "\<forall>ev'. set ((Q(ev := tl (Q ev))) ev') \<inter> (X \<union> set_option ?r) = {}" using out' by blast
  qed (use Q q ev in \<open>auto simp: queues_hold_def\<close>)
  then show thesis using that run out by blast
qed

lemma queue_update_inv:
  assumes inv: "world_inv X w" and ev: "w_events w ev = Some e"
    and Q: "queues_hold Q Y (w\<lparr>w_events := (w_events w)(ev \<mapsto> e')\<rparr>)"
  shows "world_inv Y (w\<lparr>w_events := (w_events w)(ev \<mapsto> e')\<rparr>)" "conns_kept w (w\<lparr>w_events := (w_events w)(ev \<mapsto> e')\<rparr>)"
proof -
  let ?w = "w\<lparr>w_events := (w_events w)(ev \<mapsto> e')\<rparr>"
  have ri: "ref_inv w" using inv by (simp add: world_inv_def)
  then have "fresh ?w" using ref_inv_fresh [OF ri] ev by (auto simp: fresh_def)
  then have "ref_inv ?w" by (intro ref_inv_same [OF ri]) (simp_all add: same_socks_def)
  then show "world_inv Y ?w" using inv Q by (auto simp: world_inv_def table_ok_def)
  show "conns_kept w ?w" by (simp add: conns_kept_def open_socks_def bound_socks_def)
qed

lemma take_entry_inv:
  assumes inv: "world_inv X w" and ev: "w_events w ev = Some e"
  shows "\<exists>r w'. take_entry ev w = Some (r, w') \<and> world_inv (X \<union> set_option r) w' \<and> conns_kept w w' \<and> set_option r \<inter> X = {}"
proof -
  obtain Q where Q: "queues_hold Q X w" using inv by (auto simp: world_inv_def)
  obtain q where "take_entry ev w = Some (front (Q ev), w\<lparr>w_events := (w_events w)(ev \<mapsto> e\<lparr>ee_queue := q\<rparr>)\<rparr>)"
    and q: "queues_hold (Q(ev := tl (Q ev))) (X \<union> set_option (front (Q ev))) (w\<lparr>w_events := (w_events w)(ev \<mapsto> e\<lparr>ee_queue := q\<rparr>)\<rparr>)"
    and "set_option (front (Q ev)) \<inter> X = {}" using take_entry_queues [OF Q ev] .
  with queue_update_inv [OF inv ev q] show ?thesis by blast
qed

end
