(* ===== verification/Server_System.thy ===== *)
theory Server_System
  imports Server_Refs
begin

text \<open>
  The server as a state machine: the main thread accepts connections and receives, every plugin's
  worker takes entries, has them processed and frees them, in any interleaving. What the plugins
  may do is the interface \<open>driver\<close>; for every plugin that keeps it, every reachable state satisfies
  the invariant of \<open>Server_Refs\<close>, and a worker told to stop drains its queue and ends.
\<close>

section \<open>What a plugin may do\<close>

text \<open>
  While it processes an entry a plugin may send, fill in reply data and ask to be called back when
  the connection is closed; it leaves queues, entries and reference counts alone.
\<close>

definition driver_frame :: "world \<Rightarrow> world \<Rightarrow> bool" where
  "driver_frame w w' \<longleftrightarrow>
     (\<forall>a. map_option (\<lambda>s. s\<lparr>sk_on_close := False\<rparr>) (w_socks w' a) = map_option (\<lambda>s. s\<lparr>sk_on_close := False\<rparr>) (w_socks w a)) \<and>
     same_entries (w_entries w) (w_entries w') \<and> w_events w' = w_events w \<and> w_table w' = w_table w \<and>
     w_next w \<le> w_next w' \<and> w_mem w' = w_mem w"

lemma same_shape_driver_frame: "same_shape w w' \<Longrightarrow> driver_frame w w'"
  by (simp add: same_shape_def driver_frame_def)

lemma driver_frame_refl [simp]: "driver_frame w w"
  by (simp add: driver_frame_def)

lemma driver_frame_trans: "driver_frame w w1 \<Longrightarrow> driver_frame w1 w2 \<Longrightarrow> driver_frame w w2"
  by (auto simp: driver_frame_def intro: same_entries_trans)

lemma driver_frame_sock:
  assumes "driver_frame w w'" "w_socks w' a = Some s'"
  shows "\<exists>s. w_socks w a = Some s \<and> sk_refcount s' = sk_refcount s \<and> sk_evt s' = sk_evt s \<and> sk_fd s' = sk_fd s \<and> sk_req s' = sk_req s"
proof -
  have "map_option (\<lambda>s. s\<lparr>sk_on_close := False\<rparr>) (w_socks w' a) = map_option (\<lambda>s. s\<lparr>sk_on_close := False\<rparr>) (w_socks w a)"
    using assms(1) by (simp add: driver_frame_def)
  then obtain s where "w_socks w a = Some s" "s'\<lparr>sk_on_close := False\<rparr> = s\<lparr>sk_on_close := False\<rparr>"
    using assms(2) by (cases "w_socks w a") auto
  then show ?thesis by (cases s; cases s') simp
qed

lemma driver_frame_inv:
  assumes "driver_frame w w'" "world_inv X w"
  shows "world_inv X w'" "conns_kept w w'"
proof -
  have fr: "same_entries (w_entries w) (w_entries w')" "w_events w' = w_events w" "w_table w' = w_table w" "w_next w \<le> w_next w'" "w_mem w' = w_mem w"
    using assms(1) by (auto simp: driver_frame_def)
  have socks: "w_socks w' a = None \<longleftrightarrow> w_socks w a = None" for a
    using assms(1) unfolding driver_frame_def by (metis option.map_disc_iff)
  have ri: "ref_inv w" using assms(2) by (simp add: world_inv_def)
  have "same_socks w w'"
    unfolding same_socks_def
  proof
    fix a
    show "map_option (\<lambda>s. (sk_refcount s, sk_evt s)) (w_socks w' a) = map_option (\<lambda>s. (sk_refcount s, sk_evt s)) (w_socks w a)"
      using driver_frame_sock [OF assms(1), of a] socks [of a] by (cases "w_socks w' a") auto
  qed
  moreover have "fresh w'"
    using ref_inv_fresh [OF ri] fr same_entries_dom [OF fr(1)] socks unfolding fresh_def
    by (metis domIff le_trans)
  ultimately have "ref_inv w'" using ref_inv_same [OF ri _ fr(1)] by blast
  moreover obtain Q where "queues_hold Q X w" using assms(2) by (auto simp: world_inv_def)
  then have "queues_hold Q X w'" by (rule queues_hold_same) (simp_all add: fr)
  ultimately show "world_inv X w'" using assms(2) fr by (auto simp: world_inv_def table_ok_def)
  show "conns_kept w w'"
    unfolding conns_kept_def
  proof (intro conjI subsetI set_eqI)
    fix a
    show "a \<in> open_socks w' \<longleftrightarrow> a \<in> open_socks w"
      using driver_frame_sock [OF assms(1), of a] socks [of a]
      by (cases "w_socks w' a"; cases "w_socks w a") (auto simp: open_socks_def)
    show "a \<in> bound_socks w \<Longrightarrow> a \<in> bound_socks w'"
      using driver_frame_sock [OF assms(1), of a] socks [of a]
      by (cases "w_socks w' a"; cases "w_socks w a") (auto simp: bound_socks_def)
  qed
qed

locale driver =
  fixes process :: "'s process_driver"
    and neutral :: "'s \<Rightarrow> qdata \<Rightarrow> bool"
  assumes process_frame: "\<lbrakk>process a s w = Some (s', w'); w_entries w a = Some n; neutral s (qe_data n); w_mem w = []\<rbrakk> \<Longrightarrow> driver_frame w w'"

section \<open>The state machine\<close>

record 's server =
  sv_world :: world
  sv_frames :: "addr \<Rightarrow> framing option"
  sv_busy :: "addr \<Rightarrow> (addr \<times> bool) option"
  sv_state :: "addr \<Rightarrow> 's"

text \<open>
  A worker is idle, or has an entry it has not processed yet (\<open>False\<close>) or has processed and will
  free (\<open>True\<close>).
\<close>

inductive server_step :: "'s process_driver \<Rightarrow> ('s \<Rightarrow> qdata \<Rightarrow> bool) \<Rightarrow> 's server \<Rightarrow> 's server \<Rightarrow> bool"
  for process neutral where
  accept: "tcp_newconnection fd nonblock junk (sv_world S) = Some (r, w) \<Longrightarrow>
     server_step process neutral S
       (S\<lparr>sv_world := w, sv_frames := (case r of None \<Rightarrow> sv_frames S | Some (a, fr) \<Rightarrow> (sv_frames S)(a \<mapsto> fr))\<rparr>)"
| receive: "sv_frames S a = Some fr \<Longrightarrow> recv_valid fr r \<Longrightarrow> tcp_recv a r fr (sv_world S) = Some (op, fr', w) \<Longrightarrow>
     server_step process neutral S (S\<lparr>sv_world := w, sv_frames := (sv_frames S)(a := if op then Some fr' else None)\<rparr>)"
| fetch: "sv_busy S ev = None \<Longrightarrow> take_entry ev (sv_world S) = Some (r, w) \<Longrightarrow>
     server_step process neutral S (S\<lparr>sv_world := w, sv_busy := (sv_busy S)(ev := map_option (\<lambda>a. (a, False)) r)\<rparr>)"
| work: "sv_busy S ev = Some (a, False) \<Longrightarrow> w_entries (sv_world S) a = Some n \<Longrightarrow> neutral (sv_state S ev) (qe_data n) \<Longrightarrow>
     process a (sv_state S ev) (sv_world S) = Some (s, w) \<Longrightarrow>
     server_step process neutral S (S\<lparr>sv_world := w, sv_busy := (sv_busy S)(ev \<mapsto> (a, True)), sv_state := (sv_state S)(ev := s)\<rparr>)"
| finish: "sv_busy S ev = Some (a, True) \<Longrightarrow> free_entry a (sv_world S) = Some w \<Longrightarrow>
     server_step process neutral S (S\<lparr>sv_world := w, sv_busy := (sv_busy S)(ev := None)\<rparr>)"

definition server_runs :: "'s process_driver \<Rightarrow> ('s \<Rightarrow> qdata \<Rightarrow> bool) \<Rightarrow> 's server \<Rightarrow> 's server \<Rightarrow> bool" where
  "server_runs process neutral = (server_step process neutral)\<^sup>*\<^sup>*"

definition in_work :: "'s server \<Rightarrow> addr set" where
  "in_work S = {a. \<exists>ev b. sv_busy S ev = Some (a, b)}"

definition server_inv :: "'s server \<Rightarrow> bool" where
  "server_inv S \<longleftrightarrow>
     world_inv (in_work S) (sv_world S) \<and>
     (\<forall>ev ev' a b b'. sv_busy S ev = Some (a, b) \<longrightarrow> sv_busy S ev' = Some (a, b') \<longrightarrow> ev = ev') \<and>
     (\<forall>a. a \<in> open_socks (sv_world S) \<longleftrightarrow> sv_frames S a \<noteq> None) \<and>
     (\<forall>a fr. sv_frames S a = Some fr \<longrightarrow> framing_ok fr \<and> (fr_buf fr \<noteq> None \<longrightarrow> a \<in> bound_socks (sv_world S)))"

lemma server_inv_one: "server_inv S \<Longrightarrow> sv_busy S ev = Some (a, b) \<Longrightarrow> sv_busy S ev' = Some (a, b') \<Longrightarrow> ev = ev'"
  unfolding server_inv_def by blast

context driver
begin

lemma step_inv:
  assumes "server_step process neutral S S'" "server_inv S"
  shows "server_inv S'"
  using assms
proof cases
  case (accept fd nonblock junk r w)
  have inv: "world_inv (in_work S) (sv_world S)" using assms(2) by (simp add: server_inv_def)
  have "in_work S' = in_work S" by (simp add: in_work_def accept(1))
  then show ?thesis
    using new_connection_inv [OF inv accept(2)] assms(2)
    by (cases r) (auto simp: server_inv_def accept(1) conns_kept_def split: if_splits)
next
  case (receive a fr r op fr' w)
  have inv: "world_inv (in_work S) (sv_world S)" using assms(2) by (simp add: server_inv_def)
  have a: "a \<in> open_socks (sv_world S)" "fr_buf fr \<noteq> None \<longrightarrow> a \<in> bound_socks (sv_world S)" "framing_ok fr"
    using assms(2) receive(2) by (auto simp: server_inv_def)
  have "in_work S' = in_work S" by (simp add: in_work_def receive(1))
  then show ?thesis
    using tcp_recv_inv [OF inv a receive(3,4)] assms(2) receive(2)
    by (cases op) (auto simp: server_inv_def receive(1) conns_kept_def closed_at_def split: if_splits)
next
  case (fetch ev r w)
  have inv: "world_inv (in_work S) (sv_world S)" using assms(2) by (simp add: server_inv_def)
  obtain e where "w_events (sv_world S) ev = Some e" using fetch(3) by (auto simp: take_entry_def)
  from take_entry_inv [OF inv this] fetch(3) have w: "world_inv (in_work S \<union> set_option r) w" "conns_kept (sv_world S) w" "set_option r \<inter> in_work S = {}"
    by auto
  have "in_work S' = in_work S \<union> set_option r"
  proof (intro equalityI subsetI)
    fix x
    assume "x \<in> in_work S \<union> set_option r"
    then obtain ev' b where "sv_busy S ev' = Some (x, b) \<or> r = Some x \<and> ev' = ev \<and> \<not> b" by (auto simp: in_work_def)
    then have "sv_busy S' ev' = Some (x, b)" using fetch(2) by (auto simp: fetch(1))
    then show "x \<in> in_work S'" by (auto simp: in_work_def)
  qed (auto simp: in_work_def fetch(1) split: if_splits)
  then show ?thesis
    using w assms(2) by (auto simp: server_inv_def fetch(1) conns_kept_def in_work_def split: if_splits)
next
  case (work ev a n s w)
  have inv: "world_inv (in_work S) (sv_world S)" using assms(2) by (simp add: server_inv_def)
  have "driver_frame (sv_world S) w" using process_frame [OF work(5,3,4)] inv by (simp add: world_inv_def)
  note w = driver_frame_inv [OF this inv]
  have "in_work S' = in_work S"
  proof (intro equalityI subsetI)
    fix x
    assume "x \<in> in_work S"
    then obtain ev' b where "sv_busy S ev' = Some (x, b)" by (auto simp: in_work_def)
    then have "sv_busy S' ev' = Some (x, if ev' = ev then True else b)" using work(2) by (auto simp: work(1))
    then show "x \<in> in_work S'" by (auto simp: in_work_def)
  qed (use work(2) in \<open>auto simp: in_work_def work(1) split: if_splits\<close>)
  have "\<exists>b0. sv_busy S ev' = Some (x, b0)" if "sv_busy S' ev' = Some (x, b)" for ev' x b
    using that work(2) by (auto simp: work(1) split: if_splits)
  then have one: "\<forall>ev' ev'' x b b'. sv_busy S' ev' = Some (x, b) \<longrightarrow> sv_busy S' ev'' = Some (x, b') \<longrightarrow> ev' = ev''"
    using server_inv_one [OF assms(2)] by metis
  show ?thesis
    unfolding server_inv_def
  proof (intro conjI one)
    show "world_inv (in_work S') (sv_world S')" unfolding \<open>in_work S' = in_work S\<close> using w(1) by (simp add: work(1))
  qed (use w(2) assms(2) in \<open>auto simp: server_inv_def work(1) conns_kept_def\<close>)
next
  case (finish ev a w)
  have inv: "world_inv (in_work S) (sv_world S)" using assms(2) by (simp add: server_inv_def)
  have a: "a \<in> in_work S" using finish(2) by (auto simp: in_work_def)
  have w: "world_inv (in_work S - {a}) w" "conns_kept (sv_world S) w" using free_entry_world_inv [OF inv a] finish(3) by auto
  have "in_work S' = in_work S - {a}"
  proof (intro equalityI subsetI)
    fix x
    assume x: "x \<in> in_work S - {a}"
    then obtain ev' b where "sv_busy S ev' = Some (x, b)" by (auto simp: in_work_def)
    then have "sv_busy S' ev' = Some (x, b)" using finish(2) x by (auto simp: finish(1))
    then show "x \<in> in_work S'" by (auto simp: in_work_def)
  next
    fix x
    assume "x \<in> in_work S'"
    then obtain ev' b where "sv_busy S ev' = Some (x, b)" "ev' \<noteq> ev" by (auto simp: in_work_def finish(1) split: if_splits)
    moreover from this have "x \<noteq> a" using finish(2) assms(2) unfolding server_inv_def by blast
    ultimately show "x \<in> in_work S - {a}" by (auto simp: in_work_def)
  qed
  then show ?thesis
    using w assms(2) by (auto simp: server_inv_def finish(1) conns_kept_def split: if_splits)
qed

lemma runs_inv: "server_runs process neutral S S' \<Longrightarrow> server_inv S \<Longrightarrow> server_inv S'"
  unfolding server_runs_def by (induction rule: rtranclp_induct) (auto intro: step_inv)

end

section \<open>A worker that is told to stop\<close>

text \<open>\<open>served\<close> relates the plugin's states before and after it has processed a list of entries in order.\<close>

primrec served :: "'s process_driver \<Rightarrow> addr list \<Rightarrow> 's \<Rightarrow> 's \<Rightarrow> bool" where
  "served process [] s s' \<longleftrightarrow> s' = s"
| "served process (a # as) s s' \<longleftrightarrow> (\<exists>s1 w w'. process a s w = Some (s1, w') \<and> served process as s1 s')"

lemma driver_frame_queues: "driver_frame w w' \<Longrightarrow> queues_hold Q X w \<Longrightarrow> queues_hold Q X w'"
  by (rule queues_hold_same) (simp_all add: driver_frame_def)

text \<open>A plugin that returns from every request and keeps its contract.\<close>

definition returns :: "'s process_driver \<Rightarrow> bool" where
  "returns process \<longleftrightarrow>
     (\<forall>a s w n. w_entries w a = Some n \<longrightarrow> w_mem w = [] \<longrightarrow> (\<exists>s' w'. process a s w = Some (s', w') \<and> driver_frame w w'))"

lemma worker_drains:
  assumes total: "returns process"
    and "world_inv X w" "queues_hold Q X w" "w_events w ev = Some e" "ee_stop e"
  shows "\<exists>s' w'. moc_start_base_entry process ev (s, w) = Some (s', w') \<and> served process (Q ev) s s' \<and>
     world_inv X w' \<and> queues_hold (Q(ev := [])) X w' \<and> w_events w' ev \<noteq> None \<and> dom (w_entries w') = dom (w_entries w) - set (Q ev)"
  using assms(2-)
proof (induction "Q ev" arbitrary: Q w s e)
  case Nil
  have f: "Q ev = []" "front (Q ev) = None" "tl (Q ev) = []" using Nil.hyps by (simp_all add: front_def)
  obtain q where q: "take_entry ev w = Some (None, w\<lparr>w_events := (w_events w)(ev \<mapsto> e\<lparr>ee_queue := q\<rparr>)\<rparr>)"
    and h: "queues_hold (Q(ev := [])) X (w\<lparr>w_events := (w_events w)(ev \<mapsto> e\<lparr>ee_queue := q\<rparr>)\<rparr>)"
    using take_entry_queues [OF Nil.prems(2,3)] unfolding f(2,3) by auto
  let ?w = "w\<lparr>w_events := (w_events w)(ev \<mapsto> e\<lparr>ee_queue := q\<rparr>)\<rparr>"
  have "worker_round process ev (s, w) = Some (False, s, ?w)" using q Nil.prems(4) by (simp add: worker_round_def)
  then have run: "moc_start_base_entry process ev (s, w) = Some (s, ?w)" by (subst moc_start_base_entry.simps) simp
  have i: "world_inv X ?w" using queue_update_inv(1) [OF Nil.prems(1,3) h] .
  have "served process (Q ev) s s" "w_events ?w ev \<noteq> None" "dom (w_entries ?w) = dom (w_entries w) - set (Q ev)" by (simp_all add: f(1))
  with run i h show ?case by blast
next
  case (Cons a as)
  have Qev: "Q ev = a # as" using Cons.hyps(2) by simp
  have f: "front (Q ev) = Some a" "tl (Q ev) = as" by (simp_all add: front_def Qev)
  obtain q where q: "take_entry ev w = Some (Some a, w\<lparr>w_events := (w_events w)(ev \<mapsto> e\<lparr>ee_queue := q\<rparr>)\<rparr>)"
    and h: "queues_hold (Q(ev := as)) (insert a X) (w\<lparr>w_events := (w_events w)(ev \<mapsto> e\<lparr>ee_queue := q\<rparr>)\<rparr>)" and "a \<notin> X"
    using take_entry_queues [OF Cons.prems(2,3)] unfolding f by auto
  let ?w1 = "w\<lparr>w_events := (w_events w)(ev \<mapsto> e\<lparr>ee_queue := q\<rparr>)\<rparr>"
  have i1: "world_inv (insert a X) ?w1" using queue_update_inv(1) [OF Cons.prems(1,3) h] .
  obtain n where n: "w_entries ?w1 a = Some n" using held_alloc [OF h, of a] by auto
  obtain s2 w2 where p: "process a s ?w1 = Some (s2, w2)" "driver_frame ?w1 w2"
    using total n i1 unfolding returns_def world_inv_def by blast
  have i2: "world_inv (insert a X) w2" using driver_frame_inv(1) [OF p(2) i1] .
  have h2: "queues_hold (Q(ev := as)) (insert a X) w2" using driver_frame_queues [OF p(2) h] .
  obtain n2 where n2: "w_entries w2 a = Some n2" using held_alloc [OF h2, of a] by auto
  have "ref_inv w2" using i2 by (simp add: world_inv_def)
  from free_entry_inv [OF this n2] obtain w3 where w3: "free_entry a w2 = Some w3" "w_entries w3 = (w_entries w2)(a := None)" "same_rest w2 w3"
    by blast
  have i3: "world_inv X w3" using free_entry_world_inv [OF i2, of a] w3(1) \<open>a \<notin> X\<close> by auto
  have "queues_hold (Q(ev := as)) (insert a X - {a}) w3" by (rule queues_hold_free [OF h2 _ w3(2)]) (use w3(3) in \<open>simp_all add: same_rest_def\<close>)
  then have h3: "queues_hold (Q(ev := as)) X w3" using \<open>a \<notin> X\<close> by (simp add: insert_Diff_if)
  have ev3: "w_events w3 ev = Some (e\<lparr>ee_queue := q\<rparr>)" using w3(3) p(2) by (simp add: same_rest_def driver_frame_def)
  have dom3: "dom (w_entries w3) = dom (w_entries w) - {a}"
    using w3(2) p(2) same_entries_dom [of "w_entries ?w1" "w_entries w2"] by (auto simp: driver_frame_def)
  have "as = (Q(ev := as)) ev" by simp
  from Cons.hyps(1) [OF this i3 h3 ev3, of s2] Cons.prems(4)
  obtain s' w' where r: "moc_start_base_entry process ev (s2, w3) = Some (s', w')" "served process as s2 s'" "world_inv X w'"
      "queues_hold (Q(ev := [])) X w'" "w_events w' ev \<noteq> None" "dom (w_entries w') = dom (w_entries w3) - set as"
    by auto
  have "worker_round process ev (s, w) = Some (True, s2, w3)" using q p(1) w3(1) by (simp add: worker_round_def)
  then have "moc_start_base_entry process ev (s, w) = Some (s', w')" using r(1) by (subst moc_start_base_entry.simps) simp
  moreover have "served process (Q ev) s s'" using p(1) r(2) by (auto simp: Qev)
  moreover have "dom (w_entries w') = dom (w_entries w) - set (Q ev)" using r(6) dom3 by (auto simp: Qev)
  ultimately show ?case using r(3-5) by blast
qed


text \<open>A plugin with one request in its queue, that has been told to stop.\<close>

definition last_request :: world where
  "last_request =
     (let req = \<lparr>rq_fd = 7, rq_id = be32 1, rq_cmd = 1000, rq_flags = 0, rq_sock = 2\<rparr> in
      empty_world\<lparr>w_next := 3,
        w_socks := [2 \<mapsto> \<lparr>sk_refcount = 2, sk_fd = 7, sk_evt = True, sk_req = req, sk_on_close = False\<rparr>],
        w_entries := [1 \<mapsto> \<lparr>qe_data = \<lparr>qd_operation = 1000, qd_ename = ''base'', qd_hdfrcv = hdf_init, qd_hdfsnd = hdf_init, qd_req = req\<rparr>, qe_prev = None\<rparr>],
        w_events := [0 \<mapsto> \<lparr>ee_name = ''base'', ee_queue = \<lparr>q_size = 1, q_top = Some 1, q_bottom = Some 1\<rparr>, ee_stop = True\<rparr>]\<rparr>)"

lemma last_request_inv:
  "queues_hold (\<lambda>ev. if ev = 0 then [1] else []) {} last_request" "world_inv {} last_request"
proof -
  show h: "queues_hold (\<lambda>ev. if ev = 0 then [1] else []) {} last_request"
    by (auto simp: queues_hold_def last_request_def Let_def queue_rep_def empty_world_def)
  have "holders last_request 2 = {1}" by (auto simp: holders_def last_request_def Let_def)
  then have "ref_inv last_request"
    by (auto simp: ref_inv_def last_request_def Let_def fresh_def empty_world_def)
  then show "world_inv {} last_request"
    using h by (auto simp: world_inv_def table_ok_def last_request_def Let_def empty_world_def)
qed


end
