(* ===== verification/Server_Cache.thy ===== *)
theory Server_Cache
  imports Cstring
begin

text \<open>
  The server's key/value cache (server/cache.c): a table of doubly linked chains with a per-chain
  least-recently-set eviction. The model is at the level of the pointers: the entries of all
  chains live in one heap, a chain holds its length and its two ends, and every dereference of
  an unallocated or NULL pointer, a division by a zero table length, an access past a value's
  block and a signed overflow is \<open>None\<close>.

  A value block \<open>val\<close> of \<open>vsize\<close> bytes is the list of its bytes, so \<open>vsize\<close> is its length
  (likewise \<open>key\<close> and \<open>ksize\<close>); \<open>free\<close> of the two blocks is part of dropping or overwriting the
  entry. The answers of \<open>malloc\<close> and the clock \<open>g_ctime\<close> are arguments.
\<close>

section \<open>Data\<close>

record cache_entry =
  ce_key :: bytes
  ce_val :: bytes
  ce_expire :: int
  ce_prev :: "addr option"
  ce_next :: "addr option"

type_synonym cheap = "addr \<Rightarrow> cache_entry option"

record cache_chain =
  cc_len :: nat
  cc_first :: "addr option"
  cc_last :: "addr option"

record cache =
  c_numobjs :: nat
  c_flags :: nat
  c_hashlen :: nat
  c_chainlen :: nat
  c_table :: "cache_chain list"

type_synonym cstate = "cache \<times> cheap"

text \<open>The answers of the calls of \<open>malloc\<close> in one operation: the entry, the key and the value block.\<close>

record mallocs =
  m_entry :: "addr option"
  m_key :: bool
  m_val :: bool

definition upd :: "addr \<Rightarrow> (cache_entry \<Rightarrow> cache_entry) \<Rightarrow> cheap \<Rightarrow> cheap option" where
  "upd a f h = (case h a of None \<Rightarrow> None | Some n \<Rightarrow> Some (h(a \<mapsto> f n)))"

section \<open>Operations\<close>

definition cache_create :: "bool \<Rightarrow> bool \<Rightarrow> nat \<Rightarrow> nat \<Rightarrow> cache option" where
  "cache_create cd_ok table_ok numobjs flags =
     (if \<not> cd_ok then None
      else let chainlen = 4; hashlen = numobjs div chainlen in
        if \<not> table_ok then None
        else Some \<lparr>c_numobjs = numobjs, c_flags = flags, c_hashlen = hashlen, c_chainlen = chainlen,
               c_table = replicate hashlen \<lparr>cc_len = 0, cc_first = None, cc_last = None\<rparr>\<rparr>)"

partial_function (option) chain_free :: "addr option \<Rightarrow> cheap \<Rightarrow> cheap option" where
  [code]: "chain_free e h = (case e of
     None \<Rightarrow> Some h
   | Some a \<Rightarrow> do { n \<leftarrow> h a; chain_free (ce_next n) (h(a := None)) })"

fun table_free :: "cache_chain list \<Rightarrow> cheap \<Rightarrow> cheap option" where
  "table_free [] h = Some h"
| "table_free (c # cs) h =
     (if cc_first c = None then table_free cs h
      else do { h' \<leftarrow> chain_free (cc_first c) h; table_free cs h' })"

definition cache_free :: "cstate \<Rightarrow> (int \<times> cheap) option" where
  "cache_free s = (case s of (cd, h) \<Rightarrow> do {
     h' \<leftarrow> table_free (take (c_hashlen cd) (c_table cd)) h;
     Some (1, h') })"

definition hash_step :: "u32 \<Rightarrow> byte \<Rightarrow> u32" where
  "hash_step h c = (let h = h + of_nat (of_char c); h = h + push_bit 10 h in h XOR drop_bit 6 h)"

definition hash :: "bytes \<Rightarrow> u32" where
  "hash key = (let h = foldl hash_step 0 key;
                   h = h + push_bit 3 h;
                   h = h XOR drop_bit 11 h
               in h + push_bit 15 h)"

partial_function (option) find_in_chain :: "cheap \<Rightarrow> addr option \<Rightarrow> bytes \<Rightarrow> addr option option" where
  [code]: "find_in_chain h e key = (case e of
     None \<Rightarrow> Some None
   | Some a \<Rightarrow> do {
       n \<leftarrow> h a;
       if length key \<noteq> length (ce_key n) then find_in_chain h (ce_next n) key
       else if key = ce_key n then Some (Some a)
       else find_in_chain h (ce_next n) key })"

text \<open>The position \<open>hash(key, ksize) % cd->hashlen\<close> and the chain found there.\<close>

definition bucket :: "nat \<Rightarrow> bytes \<Rightarrow> nat" where
  "bucket len key = unat (hash key) mod len"

definition chain_of :: "cache \<Rightarrow> bytes \<Rightarrow> (nat \<times> cache_chain) option" where
  "chain_of cd key =
     (if c_hashlen cd = 0 then None
      else let i = bucket (c_hashlen cd) key in
        if i < length (c_table cd) then Some (i, c_table cd ! i) else None)"

definition find_in_cache :: "bytes \<Rightarrow> cstate \<Rightarrow> addr option option" where
  "find_in_cache key s = (case s of (cd, h) \<Rightarrow> do {
     (i, c) \<leftarrow> chain_of cd key;
     find_in_chain h (cc_first c) key })"

definition put_chain :: "cache \<Rightarrow> nat \<Rightarrow> cache_chain \<Rightarrow> cache" where
  "put_chain cd i c = cd\<lparr>c_table := (c_table cd)[i := c]\<rparr>"

text \<open>Lines 217--241 of \<open>cache_set\<close>: linking a new entry into its chain, evicting the last one when full.\<close>

definition chain_insert :: "nat \<Rightarrow> addr \<Rightarrow> cache_chain \<Rightarrow> cheap \<Rightarrow> (cache_chain \<times> cheap) option" where
  "chain_insert chainlen new c h =
     (if cc_len c = 0 then
        Some (c\<lparr>cc_first := Some new, cc_last := Some new, cc_len := 1\<rparr>, h)
      else if cc_len c \<le> chainlen then do {
        h \<leftarrow> upd new (\<lambda>n. n\<lparr>ce_next := cc_first c\<rparr>) h;
        f \<leftarrow> cc_first c;
        h \<leftarrow> upd f (\<lambda>n. n\<lparr>ce_prev := Some new\<rparr>) h;
        Some (c\<lparr>cc_first := Some new, cc_len := cc_len c + 1\<rparr>, h) }
      else do {
        e \<leftarrow> cc_last c;
        n \<leftarrow> h e;
        let c = c\<lparr>cc_last := ce_prev n\<rparr>;
        l \<leftarrow> cc_last c;
        h \<leftarrow> upd l (\<lambda>n. n\<lparr>ce_next := None\<rparr>) h;
        let h = h(e := None);
        h \<leftarrow> upd new (\<lambda>n. n\<lparr>ce_next := cc_first c\<rparr>) h;
        f \<leftarrow> cc_first c;
        h \<leftarrow> upd f (\<lambda>n. n\<lparr>ce_prev := Some new\<rparr>) h;
        Some (c\<lparr>cc_first := Some new\<rparr>, h) })"

text \<open>Lines 254--266 of \<open>cache_set\<close>: moving an entry to the front of its chain.\<close>

definition chain_promote :: "addr \<Rightarrow> cache_chain \<Rightarrow> cheap \<Rightarrow> (cache_chain \<times> cheap) option" where
  "chain_promote e c h =
     (if cc_first c \<noteq> Some e then do {
        n \<leftarrow> h e;
        let c = (if cc_last c = Some e then c\<lparr>cc_last := ce_prev n\<rparr> else c);
        p \<leftarrow> ce_prev n;
        h \<leftarrow> upd p (\<lambda>m. m\<lparr>ce_next := ce_next n\<rparr>) h;
        n \<leftarrow> h e;
        h \<leftarrow> (case ce_next n of None \<Rightarrow> Some h
               | Some x \<Rightarrow> upd x (\<lambda>m. m\<lparr>ce_prev := ce_prev n\<rparr>) h);
        h \<leftarrow> upd e (\<lambda>m. m\<lparr>ce_prev := None, ce_next := cc_first c\<rparr>) h;
        f \<leftarrow> cc_first c;
        h \<leftarrow> upd f (\<lambda>m. m\<lparr>ce_prev := Some e\<rparr>) h;
        Some (c\<lparr>cc_first := Some e\<rparr>, h) }
      else Some (c, h))"

definition cache_set :: "mallocs \<Rightarrow> int \<Rightarrow> bytes \<Rightarrow> bytes \<Rightarrow> int \<Rightarrow> cstate \<Rightarrow> (int \<times> cstate) option" where
  "cache_set m g_ctime key val timeout s = (case s of (cd, h) \<Rightarrow> do {
     (i, c) \<leftarrow> chain_of cd key;
     r \<leftarrow> find_in_chain h (cc_first c) key;
     (case r of
        None \<Rightarrow>
          (case m_entry m of
             None \<Rightarrow> Some (0, s)
           | Some new \<Rightarrow>
               if \<not> m_key m then Some (0, s)
               else if \<not> m_val m then Some (0, s)
               else do {
                 let n = \<lparr>ce_key = key, ce_val = val,
                          ce_expire = (if timeout = 0 then 0 else g_ctime + timeout),
                          ce_prev = None, ce_next = None\<rparr>;
                 (c', h') \<leftarrow> chain_insert (c_chainlen cd) new c (h(new \<mapsto> n));
                 Some (1, (put_chain cd i c', h')) })
      | Some e \<Rightarrow>
          if \<not> m_val m then Some (0, s)
          else do {
            h \<leftarrow> upd e (\<lambda>n. n\<lparr>ce_val := val\<rparr>) h;
            (c', h') \<leftarrow> chain_promote e c h;
            Some (1, (put_chain cd i c', h')) }) })"

text \<open>Lines 292--310 of \<open>cache_del\<close>: unlinking an entry and freeing it.\<close>

definition chain_del :: "addr \<Rightarrow> cache_chain \<Rightarrow> cheap \<Rightarrow> (cache_chain \<times> cheap) option" where
  "chain_del e c h = do {
     n \<leftarrow> h e;
     (c, h) \<leftarrow>
       (if cc_first c = Some e then do {
          h \<leftarrow> (case ce_next n of None \<Rightarrow> Some h | Some x \<Rightarrow> upd x (\<lambda>m. m\<lparr>ce_prev := None\<rparr>) h);
          Some (c\<lparr>cc_first := ce_next n\<rparr>, h) }
        else do {
          p \<leftarrow> ce_prev n;
          h \<leftarrow> upd p (\<lambda>m. m\<lparr>ce_next := ce_next n\<rparr>) h;
          h \<leftarrow> (case ce_next n of None \<Rightarrow> Some h
                 | Some x \<Rightarrow> upd x (\<lambda>m. m\<lparr>ce_prev := ce_prev n\<rparr>) h);
          Some (c, h) });
     let c = (if cc_last c = Some e then c\<lparr>cc_last := ce_prev n\<rparr> else c);
     Some (c\<lparr>cc_len := cc_len c - 1\<rparr>, h(e := None)) }"

definition cache_del :: "bytes \<Rightarrow> cstate \<Rightarrow> (int \<times> cstate) option" where
  "cache_del key s = (case s of (cd, h) \<Rightarrow> do {
     (i, c) \<leftarrow> chain_of cd key;
     r \<leftarrow> find_in_chain h (cc_first c) key;
     (case r of
        None \<Rightarrow> Some (0, s)
      | Some e \<Rightarrow> do {
          (c', h') \<leftarrow> chain_del e c h;
          Some (1, (put_chain cd i c', h')) }) })"

definition cache_get :: "int \<Rightarrow> bytes \<Rightarrow> cstate \<Rightarrow> ((int \<times> bytes option) \<times> cstate) option" where
  "cache_get g_ctime key s = do {
     r \<leftarrow> find_in_cache key s;
     (case r of
        None \<Rightarrow> Some ((0, None), s)
      | Some e \<Rightarrow> do {
          n \<leftarrow> snd s e;
          if ce_expire n > 0 \<and> ce_expire n < g_ctime then do {
            (_, s') \<leftarrow> cache_del key s;
            Some ((0, None), s') }
          else Some ((1, Some (ce_val n)), s) }) }"

definition cache_cas :: "mallocs \<Rightarrow> bytes \<Rightarrow> bytes \<Rightarrow> bytes \<Rightarrow> cstate \<Rightarrow> (int \<times> cstate) option" where
  "cache_cas m key oldval newval s = do {
     r \<leftarrow> find_in_cache key s;
     (case r of
        None \<Rightarrow> Some (-1, s)
      | Some e \<Rightarrow> do {
          n \<leftarrow> snd s e;
          if length (ce_val n) \<noteq> length oldval then Some (0, s)
          else if ce_val n \<noteq> oldval then Some (0, s)
          else if \<not> m_val m then Some (-2, s)
          else do {
            h \<leftarrow> upd e (\<lambda>n. n\<lparr>ce_val := newval\<rparr>) (snd s);
            Some (1, (fst s, h)) } }) }"

text \<open>
  The value arithmetic of \<open>cache_incr\<close>: the block must end in NUL (reading \<open>val[vsize - 1]\<close> of an
  empty block is an access out of bounds), \<open>intval + increment\<close> must not overflow, and a block of
  fewer than 24 bytes is replaced by one of 24, where \<open>snprintf\<close> with \<open>%23lld\<close> then writes 23
  characters and NUL.
\<close>

definition snprintf_into :: "bytes \<Rightarrow> string \<Rightarrow> bytes" where
  "snprintf_into buf s = (let w = take (length buf - 1) s @ [NUL] in w @ drop (length w) buf)"

definition incr_value :: "bool \<Rightarrow> bytes \<Rightarrow> int \<Rightarrow> (int \<times> (bytes \<times> int) option) option" where
  "incr_value val_ok v increment =
     (if v = [] then None
      else if last v \<noteq> NUL then Some (-2, None)
      else let intval = strtoll (takeWhile (\<lambda>c. c \<noteq> NUL) v) + increment in
        if intval < LLONG_MIN \<or> LLONG_MAX < intval then None
        else if length v < 24 then
          (if \<not> val_ok then Some (-3, None)
           else Some (1, Some (snprintf_into (replicate 24 NUL) (pad_left 23 (show_int intval)), intval)))
        else Some (1, Some (snprintf_into v (pad_left 23 (show_int intval)), intval)))"

definition cache_incr :: "mallocs \<Rightarrow> bytes \<Rightarrow> int \<Rightarrow> cstate \<Rightarrow> ((int \<times> int option) \<times> cstate) option" where
  "cache_incr m key increment s = do {
     r \<leftarrow> find_in_cache key s;
     (case r of
        None \<Rightarrow> Some ((-1, None), s)
      | Some e \<Rightarrow> do {
          n \<leftarrow> snd s e;
          (rv, w) \<leftarrow> incr_value (m_val m) (ce_val n) increment;
          (case w of
             None \<Rightarrow> Some ((rv, None), s)
           | Some (v', intval) \<Rightarrow> do {
               h \<leftarrow> upd e (\<lambda>n. n\<lparr>ce_val := v'\<rparr>) (snd s);
               Some ((rv, Some intval), (fst s, h)) }) }) }"

text \<open>
  The \<open>...f\<close> variants build the key with \<open>vsnprintf\<close> into a buffer of \<open>MAX_CACHEKEY_LEN\<close> bytes
  and pass its return value, the length of the untruncated text, as \<open>ksize\<close>: a longer text makes
  the callee read past the buffer.
\<close>

definition MAX_CACHEKEY_LEN :: nat where
  "MAX_CACHEKEY_LEN = 1024"

definition fmt_key :: "string \<Rightarrow> bytes option" where
  "fmt_key text = (let buf = take (MAX_CACHEKEY_LEN - 1) text @ [NUL]; r = length text in
     if r \<le> MAX_CACHEKEY_LEN then Some (take r buf) else None)"

definition cache_getf :: "int \<Rightarrow> string \<Rightarrow> cstate \<Rightarrow> ((int \<times> bytes option) \<times> cstate) option" where
  "cache_getf g_ctime text s = do { key \<leftarrow> fmt_key text; cache_get g_ctime key s }"

definition cache_setf :: "mallocs \<Rightarrow> int \<Rightarrow> bytes \<Rightarrow> int \<Rightarrow> string \<Rightarrow> cstate \<Rightarrow> (int \<times> cstate) option" where
  "cache_setf m g_ctime val timeout text s = do { key \<leftarrow> fmt_key text; cache_set m g_ctime key val timeout s }"

definition cache_delf :: "string \<Rightarrow> cstate \<Rightarrow> (int \<times> cstate) option" where
  "cache_delf text s = do { key \<leftarrow> fmt_key text; cache_del key s }"

definition cache_incrf :: "mallocs \<Rightarrow> int \<Rightarrow> string \<Rightarrow> cstate \<Rightarrow> ((int \<times> int option) \<times> cstate) option" where
  "cache_incrf m increment text s = do { key \<leftarrow> fmt_key text; cache_incr m key increment s }"

section \<open>Representation of one chain\<close>

text \<open>
  \<open>dllseg h pr p as q\<close>: starting at pointer \<open>p\<close>, whose first entry has \<open>prev = pr\<close>, the \<open>next\<close>
  links visit exactly the entries \<open>as\<close>, each with the right back link, and leave to \<open>q\<close>.
\<close>

primrec dllseg :: "cheap \<Rightarrow> addr option \<Rightarrow> addr option \<Rightarrow> addr list \<Rightarrow> addr option \<Rightarrow> bool" where
  "dllseg h pr p [] q \<longleftrightarrow> p = q"
| "dllseg h pr p (a # as) q \<longleftrightarrow>
     p = Some a \<and> (\<exists>n. h a = Some n \<and> ce_prev n = pr \<and> dllseg h (Some a) (ce_next n) as q)"

definition lastptr :: "addr option \<Rightarrow> addr list \<Rightarrow> addr option" where
  "lastptr pr as = (if as = [] then pr else Some (last as))"

definition headptr :: "addr list \<Rightarrow> addr option \<Rightarrow> addr option" where
  "headptr as q = (case as of [] \<Rightarrow> q | a # _ \<Rightarrow> Some a)"

lemma lastptr_simps [simp]:
  "lastptr pr [] = pr" "lastptr pr (a # as) = lastptr (Some a) as" "lastptr pr (as @ [a]) = Some a"
  by (simp_all add: lastptr_def)

lemma headptr_simps [simp]: "headptr [] q = q" "headptr (a # as) q = Some a"
  by (simp_all add: headptr_def)

definition entry_data :: "cache_entry \<Rightarrow> bytes \<times> bytes \<times> int" where
  "entry_data n = (ce_key n, ce_val n, ce_expire n)"

definition contents :: "cheap \<Rightarrow> addr list \<Rightarrow> (bytes \<times> bytes \<times> int) list" where
  "contents h as = map (\<lambda>a. entry_data (the (h a))) as"

definition chain_rep :: "cheap \<Rightarrow> cache_chain \<Rightarrow> addr list \<Rightarrow> bool" where
  "chain_rep h c as \<longleftrightarrow> dllseg h None (cc_first c) as None \<and> cc_last c = lastptr None as \<and>
     cc_len c = length as \<and> distinct as"

lemma dllseg_headptr: "dllseg h pr p as q \<Longrightarrow> p = headptr as q"
  by (cases as) auto

lemma dllseg_append [rep_simps]:
  "dllseg h pr p (as @ bs) q \<longleftrightarrow>
     dllseg h pr p as (headptr bs q) \<and> dllseg h (lastptr pr as) (headptr bs q) bs q"
proof (induction as arbitrary: pr p)
  case Nil
  then show ?case using dllseg_headptr [of h pr p bs q] by auto
qed (auto)

lemma dllseg_cong: "(\<And>x. x \<in> set as \<Longrightarrow> h' x = h x) \<Longrightarrow> dllseg h' pr p as q = dllseg h pr p as q"
  by (induction as arbitrary: pr p) auto

lemma contents_cong: "(\<And>x. x \<in> set as \<Longrightarrow> h' x = h x) \<Longrightarrow> contents h' as = contents h as"
  by (auto simp: contents_def)

lemma contents_simps [simp]:
  "contents h [] = []" "contents h (a # as) = entry_data (the (h a)) # contents h as"
  "contents h (as @ bs) = contents h as @ contents h bs" "length (contents h as) = length as"
  by (simp_all add: contents_def)

lemma contents_upd [rep_simps]: "a \<notin> set as \<Longrightarrow> contents (h(a := n)) as = contents h as"
  by (auto intro: contents_cong)

lemma dllseg_upd [rep_simps]: "a \<notin> set as \<Longrightarrow> dllseg (h(a := n)) pr p as q = dllseg h pr p as q"
  by (rule dllseg_cong) auto

lemma dllseg_alloc: "dllseg h pr p as q \<Longrightarrow> a \<in> set as \<Longrightarrow> h a \<noteq> None"
  by (induction as arbitrary: pr p) auto

text \<open>Changing only the links of an entry changes no contents.\<close>

lemma contents_link [rep_simps]:
  "h a = Some n \<Longrightarrow> contents (h(a \<mapsto> n\<lparr>ce_next := x\<rparr>)) as = contents h as"
  "h a = Some n \<Longrightarrow> contents (h(a \<mapsto> n\<lparr>ce_prev := y\<rparr>)) as = contents h as"
  "h a = Some n \<Longrightarrow> contents (h(a \<mapsto> n\<lparr>ce_prev := y, ce_next := x\<rparr>)) as = contents h as"
  by (auto simp: contents_def entry_data_def)

text \<open>Redirecting the exit of a segment, and its back link.\<close>

lemma dllseg_set_next:
  assumes "dllseg h pr p (as @ [a]) q" "a \<notin> set as" "h a = Some n"
  shows "dllseg (h(a \<mapsto> n\<lparr>ce_next := q'\<rparr>)) pr p (as @ [a]) q'"
  using assms by (simp add: dllseg_append dllseg_upd)

lemma dllseg_set_prev:
  assumes "dllseg h pr p (a # as) q" "a \<notin> set as" "h a = Some n"
  shows "dllseg (h(a \<mapsto> n\<lparr>ce_prev := pr'\<rparr>)) pr' p (a # as) q"
  using assms by (simp add: dllseg_upd)

lemma find_in_chain_rep:
  assumes "dllseg h pr p as None"
  shows "find_in_chain h p key = Some (find (\<lambda>a. ce_key (the (h a)) = key) as)"
  using assms
proof (induction as arbitrary: pr p)
  case Nil
  then show ?case by (subst find_in_chain.simps) simp
next
  case (Cons a as)
  then obtain n where n: "p = Some a" "h a = Some n" "dllseg h (Some a) (ce_next n) as None" by auto
  from Cons.IH [OF n(3)] n show ?case by (subst find_in_chain.simps) auto
qed

text \<open>Unlinking an entry from the middle of a chain, used by deletion and promotion.\<close>

definition unlink :: "addr \<Rightarrow> cache_entry \<Rightarrow> cheap \<Rightarrow> cheap option" where
  "unlink e n h = do {
     h \<leftarrow> (case ce_prev n of None \<Rightarrow> Some h | Some p \<Rightarrow> upd p (\<lambda>m. m\<lparr>ce_next := ce_next n\<rparr>) h);
     (case ce_next n of None \<Rightarrow> Some h | Some x \<Rightarrow> upd x (\<lambda>m. m\<lparr>ce_prev := ce_prev n\<rparr>) h) }"

lemma unlink_rep:
  assumes "dllseg h None p (as @ e # bs) None" "distinct (as @ e # bs)" "h e = Some n"
  shows "\<exists>h'. unlink e n h = Some h' \<and> dllseg h' None (if as = [] then ce_next n else p) (as @ bs) None
           \<and> contents h' (as @ bs) = contents h (as @ bs) \<and> h' e = Some n
           \<and> (\<forall>x. x \<notin> set (as @ bs) \<longrightarrow> h' x = h x) \<and> dom h' = dom h
           \<and> ce_prev n = lastptr None as \<and> ce_next n = headptr bs None"
proof -
  have seg: "dllseg h None p as (Some e)" "dllseg h (Some e) (ce_next n) bs None"
    and pr: "ce_prev n = lastptr None as"
    using assms by (auto simp: dllseg_append)
  have nx: "ce_next n = headptr bs None" using seg(2) by (rule dllseg_headptr)
  define h1 where "h1 = (if as = [] then h else h(last as \<mapsto> (the (h (last as)))\<lparr>ce_next := ce_next n\<rparr>))"
  have h1: "(case ce_prev n of None \<Rightarrow> Some h | Some p \<Rightarrow> upd p (\<lambda>m. m\<lparr>ce_next := ce_next n\<rparr>) h) = Some h1"
    using seg(1) dllseg_alloc [of h None p as "Some e" "last as"]
    by (auto simp: pr h1_def upd_def lastptr_def)
  have s1: "dllseg h1 None (if as = [] then ce_next n else p) as (ce_next n)"
  proof (cases as rule: rev_cases)
    case Nil
    then show ?thesis by simp
  next
    case (snoc as' a)
    then obtain na where "h a = Some na" using seg(1) by (auto simp: dllseg_append)
    with snoc seg(1) assms(2) show ?thesis
      using dllseg_set_next [of h None p as' a "Some e" na "ce_next n"] by (simp add: h1_def)
  qed
  have f1: "\<And>x. x \<notin> set as \<Longrightarrow> h1 x = h x" by (auto simp: h1_def)
  have c1: "\<And>xs. contents h1 xs = contents h xs" and d1: "dom h1 = dom h"
    using seg(1) dllseg_alloc [of h None p as "Some e" "last as"]
    by (auto simp: h1_def rep_simps split: if_splits)
  have s2: "dllseg h1 (Some e) (ce_next n) bs None"
    using seg(2) assms(2) f1 by (subst dllseg_cong [of bs h1 h]) auto
  define h2 where "h2 = (case bs of [] \<Rightarrow> h1 | b # _ \<Rightarrow> h1(b \<mapsto> (the (h1 b))\<lparr>ce_prev := ce_prev n\<rparr>))"
  have h2: "(case ce_next n of None \<Rightarrow> Some h1 | Some x \<Rightarrow> upd x (\<lambda>m. m\<lparr>ce_prev := ce_prev n\<rparr>) h1) = Some h2"
    using s2 by (cases bs) (auto simp: nx h2_def upd_def)
  have f2: "\<And>x. x \<notin> set bs \<Longrightarrow> h2 x = h1 x" by (cases bs) (auto simp: h2_def)
  have c2: "\<And>xs. contents h2 xs = contents h1 xs" and d2: "dom h2 = dom h1"
    using s2 by (cases bs; auto simp: h2_def rep_simps)+
  have "dllseg h2 (ce_prev n) (ce_next n) bs None"
    using s2 assms(2) by (cases bs) (auto simp: h2_def rep_simps)
  moreover have "dllseg h2 None (if as = [] then ce_next n else p) as (ce_next n)"
    using s1 assms(2) f2 by (subst dllseg_cong [of as h2 h1]) auto
  ultimately have "dllseg h2 None (if as = [] then ce_next n else p) (as @ bs) None"
    by (auto simp: dllseg_append nx pr)
  moreover have "unlink e n h = Some h2" using h1 h2 by (simp add: unlink_def)
  moreover have "h2 e = Some n" using f1 f2 assms(2,3) by auto
  ultimately show ?thesis using f1 f2 c1 c2 d1 d2 pr nx by auto
qed

lemma upd_Some: "h a = Some n \<Longrightarrow> upd a f h = Some (h(a \<mapsto> f n))"
  by (simp add: upd_def)

lemma upd_other: "upd a f h = Some h' \<Longrightarrow> x \<noteq> a \<Longrightarrow> h' x = h x"
  by (auto simp: upd_def split: option.splits)

text \<open>Putting an entry in front of a non-empty chain.\<close>

lemma push_front_rep:
  assumes "dllseg h None (Some f) (f # as) None" "e \<notin> set (f # as)" "distinct (f # as)"
    and "h e = Some n" "ce_prev n = None"
  shows "\<exists>h1 h2. upd e (\<lambda>m. m\<lparr>ce_next := Some f\<rparr>) h = Some h1 \<and> upd f (\<lambda>m. m\<lparr>ce_prev := Some e\<rparr>) h1 = Some h2
           \<and> dllseg h2 None (Some e) (e # f # as) None \<and> contents h2 (e # f # as) = contents h (e # f # as)
           \<and> (\<forall>x. x \<notin> set (e # f # as) \<longrightarrow> h2 x = h x) \<and> dom h2 = dom h"
proof -
  obtain nf where nf: "h f = Some nf" using assms(1) by auto
  let ?h1 = "h(e \<mapsto> n\<lparr>ce_next := Some f\<rparr>)"
  let ?h2 = "?h1(f \<mapsto> nf\<lparr>ce_prev := Some e\<rparr>)"
  have ne: "e \<noteq> f" using assms(2) by auto
  have 1: "upd e (\<lambda>m. m\<lparr>ce_next := Some f\<rparr>) h = Some ?h1" using assms(4) by (rule upd_Some)
  have 2: "upd f (\<lambda>m. m\<lparr>ce_prev := Some e\<rparr>) ?h1 = Some ?h2" using nf ne by (intro upd_Some) simp
  have "dllseg ?h1 None (Some f) (f # as) None"
    using assms(1,2) by (subst dllseg_upd) auto
  then have "dllseg ?h2 (Some e) (Some f) (f # as) None"
    using assms(3) nf ne by (intro dllseg_set_prev) auto
  then have 3: "dllseg ?h2 None (Some e) (e # f # as) None"
    using assms(4,5) ne by auto
  have 4: "contents ?h2 (e # f # as) = contents h (e # f # as)"
    using assms(4) nf ne by (simp add: rep_simps entry_data_def)
  show ?thesis using 1 2 3 4 assms(4) nf by auto
qed

lemma chain_promote_rep:
  assumes rep: "chain_rep h c (as @ e # bs)"
  shows "\<exists>c' h'. chain_promote e c h = Some (c', h') \<and> chain_rep h' c' (e # as @ bs)
           \<and> contents h' (e # as @ bs) = contents h (e # as @ bs)
           \<and> (\<forall>x. x \<notin> set (as @ e # bs) \<longrightarrow> h' x = h x) \<and> dom h' = dom h"
proof (cases as)
  case Nil
  with rep show ?thesis by (auto simp: chain_rep_def chain_promote_def)
next
  case (Cons f as')
  from rep have seg: "dllseg h None (cc_first c) (as @ e # bs) None" and d: "distinct (as @ e # bs)"
    and l: "cc_last c = lastptr None (as @ e # bs)" and len: "cc_len c = length (as @ e # bs)"
    by (auto simp: chain_rep_def)
  have first: "cc_first c = Some f" using seg Cons by simp
  obtain n where n: "h e = Some n" using seg dllseg_alloc [of h None _ _ None e] by fastforce
  obtain h1 where h1: "unlink e n h = Some h1" "dllseg h1 None (Some f) (as @ bs) None"
    "contents h1 (as @ bs) = contents h (as @ bs)" "h1 e = Some n"
    "\<forall>x. x \<notin> set (as @ bs) \<longrightarrow> h1 x = h x" "dom h1 = dom h"
    "ce_prev n = lastptr None as" "ce_next n = headptr bs None"
    using unlink_rep [OF seg d n] Cons first by auto
  let ?p = "last as"
  obtain h0 where h0: "upd ?p (\<lambda>m. m\<lparr>ce_next := ce_next n\<rparr>) h = Some h0"
    "(case ce_next n of None \<Rightarrow> Some h0 | Some x \<Rightarrow> upd x (\<lambda>m. m\<lparr>ce_prev := ce_prev n\<rparr>) h0) = Some h1"
    using h1(1,7) Cons by (auto simp: unlink_def lastptr_def)
  have "?p \<noteq> e" using d Cons by auto
  then have h0e: "h0 e = Some n" using upd_other [OF h0(1)] n by auto
  let ?n' = "n\<lparr>ce_prev := None\<rparr>"
  let ?h1 = "h1(e \<mapsto> ?n')"
  have seg1: "dllseg ?h1 None (Some f) (f # as' @ bs) None"
    using h1(2) d Cons by (subst dllseg_upd) auto
  then obtain h2 h3 where h23: "upd e (\<lambda>m. m\<lparr>ce_next := Some f\<rparr>) ?h1 = Some h2"
    "upd f (\<lambda>m. m\<lparr>ce_prev := Some e\<rparr>) h2 = Some h3" "dllseg h3 None (Some e) (e # f # as' @ bs) None"
    "contents h3 (e # f # as' @ bs) = contents ?h1 (e # f # as' @ bs)"
    "\<forall>x. x \<notin> set (e # f # as' @ bs) \<longrightarrow> h3 x = ?h1 x" "dom h3 = dom ?h1"
    using push_front_rep [OF seg1, of e ?n'] d Cons by auto
  have h2: "upd e (\<lambda>m. m\<lparr>ce_prev := None, ce_next := Some f\<rparr>) h1 = Some h2"
    using h23(1) h1(4) by (auto simp: upd_def)
  let ?c = "(if cc_last c = Some e then c\<lparr>cc_last := ce_prev n\<rparr> else c)\<lparr>cc_first := Some e\<rparr>"
  have "chain_promote e c h = Some (?c, h3)"
    using first d Cons n h0 h0e h1(7) h2 h23(2) by (auto simp: chain_promote_def lastptr_def Let_def)
  moreover have "chain_rep h3 ?c (e # as @ bs)"
    using h23(3) Cons d l len h1(7) by (auto simp: chain_rep_def lastptr_def)
  moreover have "contents h3 (e # as @ bs) = contents h (e # as @ bs)"
    using h23(4) h1(3,4) n Cons d by (simp add: rep_simps entry_data_def)
  ultimately show ?thesis using h23(5,6) h1(4,5,6) Cons by auto
qed

lemma chain_del_rep:
  assumes rep: "chain_rep h c (as @ e # bs)"
  shows "\<exists>c' h'. chain_del e c h = Some (c', h') \<and> chain_rep h' c' (as @ bs)
           \<and> contents h' (as @ bs) = contents h (as @ bs)
           \<and> (\<forall>x. x \<notin> set (as @ e # bs) \<longrightarrow> h' x = h x) \<and> dom h' = dom h - {e}"
proof -
  from rep have seg: "dllseg h None (cc_first c) (as @ e # bs) None" and d: "distinct (as @ e # bs)"
    and l: "cc_last c = lastptr None (as @ e # bs)" and len: "cc_len c = length (as @ e # bs)"
    by (auto simp: chain_rep_def)
  have first: "cc_first c = Some e \<longleftrightarrow> as = []" using seg d by (cases as) auto
  obtain n where n: "h e = Some n" using seg dllseg_alloc [of h None _ _ None e] by fastforce
  obtain h1 where h1: "unlink e n h = Some h1"
    "dllseg h1 None (if as = [] then ce_next n else cc_first c) (as @ bs) None"
    "contents h1 (as @ bs) = contents h (as @ bs)" "h1 e = Some n"
    "\<forall>x. x \<notin> set (as @ bs) \<longrightarrow> h1 x = h x" "dom h1 = dom h"
    "ce_prev n = lastptr None as" "ce_next n = headptr bs None"
    using unlink_rep [OF seg d n] by auto
  let ?c1 = "if as = [] then c\<lparr>cc_first := ce_next n\<rparr> else c"
  let ?c2 = "if cc_last ?c1 = Some e then ?c1\<lparr>cc_last := ce_prev n\<rparr> else ?c1"
  let ?c3 = "?c2\<lparr>cc_len := cc_len ?c2 - 1\<rparr>"
  have del: "chain_del e c h = Some (?c3, h1(e := None))"
    using n first h1(1,7)
    by (cases "as = []"; cases "ce_next n") (auto simp: chain_del_def unlink_def lastptr_def Let_def)
  have "dllseg (h1(e := None)) None (cc_first ?c3) (as @ bs) None"
    using h1(2) d by (subst dllseg_upd) auto
  moreover have "cc_last ?c3 = lastptr None (as @ bs)"
    using l d h1(7) by (cases "as = []"; cases "bs = []") (auto simp: lastptr_def split: if_splits)
  ultimately have "chain_rep (h1(e := None)) ?c3 (as @ bs)"
    using len d by (auto simp: chain_rep_def)
  moreover have "contents (h1(e := None)) (as @ bs) = contents h (as @ bs)"
    using h1(3) d by (subst contents_upd) auto
  ultimately show ?thesis using del h1(5,6) by auto
qed

lemma chain_insert_rep:
  assumes rep: "chain_rep h c as" and new: "new \<notin> set as" and room: "length as \<le> chainlen"
    and n: "h new = Some n" "ce_prev n = None" "ce_next n = None"
  shows "\<exists>c' h'. chain_insert chainlen new c h = Some (c', h') \<and> chain_rep h' c' (new # as)
           \<and> contents h' (new # as) = contents h (new # as)
           \<and> (\<forall>x. x \<notin> set (new # as) \<longrightarrow> h' x = h x) \<and> dom h' = dom h"
proof (cases as)
  case Nil
  with assms show ?thesis by (auto simp: chain_rep_def chain_insert_def)
next
  case (Cons f as')
  with rep have seg: "dllseg h None (Some f) (f # as') None" and first: "cc_first c = Some f"
    and d: "distinct (f # as')" by (auto simp: chain_rep_def)
  from push_front_rep [OF seg _ d n(1,2)] new Cons obtain h1 h2 where h12:
    "upd new (\<lambda>m. m\<lparr>ce_next := Some f\<rparr>) h = Some h1" "upd f (\<lambda>m. m\<lparr>ce_prev := Some new\<rparr>) h1 = Some h2"
    "dllseg h2 None (Some new) (new # f # as') None" "contents h2 (new # f # as') = contents h (new # f # as')"
    "\<forall>x. x \<notin> set (new # f # as') \<longrightarrow> h2 x = h x" "dom h2 = dom h" by auto
  have "chain_insert chainlen new c h = Some (c\<lparr>cc_first := Some new, cc_len := cc_len c + 1\<rparr>, h2)"
    using rep room Cons first h12(1,2) by (auto simp: chain_insert_def chain_rep_def)
  moreover have "chain_rep h2 (c\<lparr>cc_first := Some new, cc_len := cc_len c + 1\<rparr>) (new # as)"
    using rep h12(3) new Cons by (auto simp: chain_rep_def lastptr_def)
  ultimately show ?thesis using h12(4-6) Cons by auto
qed

text \<open>A full chain of at least two entries: the last one is evicted.\<close>

lemma chain_evict_rep:
  assumes rep: "chain_rep h c (f # as @ [e])" and new: "new \<notin> set (f # as @ [e])"
    and full: "chainlen < length (f # as @ [e])"
    and n: "h new = Some n" "ce_prev n = None" "ce_next n = None"
  shows "\<exists>c' h'. chain_insert chainlen new c h = Some (c', h') \<and> chain_rep h' c' (new # f # as)
           \<and> contents h' (new # f # as) = contents h (new # f # as)
           \<and> (\<forall>x. x \<notin> set (new # f # as @ [e]) \<longrightarrow> h' x = h x) \<and> dom h' = dom h - {e}"
proof -
  from rep have seg: "dllseg h None (Some f) ((f # as) @ [e]) None" and first: "cc_first c = Some f"
    and d: "distinct (f # as @ [e])" and last: "cc_last c = Some e" and len: "cc_len c = length (f # as @ [e])"
    by (auto simp: chain_rep_def lastptr_def)
  define l where "l = last (f # as)"
  obtain as'' where as'': "f # as = as'' @ [l]" unfolding l_def by (metis append_butlast_last_id list.simps(3))
  have seg1: "dllseg h None (Some f) (as'' @ [l]) (Some e)"
    using seg unfolding as'' by (auto simp: dllseg_append)
  obtain ne where ne: "h e = Some ne" "ce_prev ne = Some l"
    using seg unfolding as'' by (auto simp: dllseg_append)
  obtain nl where nl: "h l = Some nl" using seg1 by (auto simp: dllseg_append)
  have "distinct ((as'' @ [l]) @ [e])" using d unfolding as'' [symmetric] by simp
  then have dl: "l \<notin> set as''" "l \<noteq> e" "e \<notin> set (f # as)" "new \<noteq> l" "new \<noteq> e" "l \<in> set (f # as)"
    using new unfolding append_Cons [symmetric] as'' by auto
  let ?h1 = "h(l \<mapsto> nl\<lparr>ce_next := None\<rparr>)"
  let ?h2 = "?h1(e := None)"
  have "dllseg ?h1 None (Some f) (f # as) None"
    unfolding as'' using seg1 dl(1) nl by (rule dllseg_set_next)
  then have seg2: "dllseg ?h2 None (Some f) (f # as) None"
    using dl(3) by (subst dllseg_upd)
  have new2: "?h2 new = Some n" using n dl by simp
  have nf: "new \<notin> set (f # as)" and df: "distinct (f # as)" using new d by auto
  obtain h3 h4 where h34: "upd new (\<lambda>m. m\<lparr>ce_next := Some f\<rparr>) ?h2 = Some h3"
    "upd f (\<lambda>m. m\<lparr>ce_prev := Some new\<rparr>) h3 = Some h4"
    "dllseg h4 None (Some new) (new # f # as) None" "contents h4 (new # f # as) = contents ?h2 (new # f # as)"
    "\<forall>x. x \<notin> set (new # f # as) \<longrightarrow> h4 x = ?h2 x" "dom h4 = dom ?h2"
    using push_front_rep [OF seg2 nf df new2 n(2)] by blast
  let ?c = "c\<lparr>cc_last := Some l, cc_first := Some new\<rparr>"
  have "chain_insert chainlen new c h = Some (?c, h4)"
    using len full last ne first upd_Some [of h l nl "\<lambda>n. n\<lparr>ce_next := None\<rparr>", OF nl] h34(1,2)
    by (simp add: chain_insert_def Let_def del: fun_upd_apply)
  moreover have "chain_rep h4 ?c (new # f # as)"
    using h34(3) new d len by (auto simp: chain_rep_def lastptr_def l_def)
  moreover have "contents ?h2 (new # f # as) = contents h (new # f # as)"
    using dl nl by (subst contents_upd) (auto simp: contents_link(1) simp del: fun_upd_apply contents_simps)
  ultimately show ?thesis using h34(4-6) dl(6) nl by (auto split: if_splits)
qed

section \<open>The specification: a table of least-recently-set lists\<close>

text \<open>
  Abstractly a chain is the list of its \<open>(key, value, expire)\<close> triples, the most recently set one
  first, and a cache is the list of its chains with the chain length. Operations answer with the
  C return value and what they store through their pointer arguments.
\<close>

type_synonym lru = "(bytes \<times> bytes \<times> int) list"
type_synonym lru_cache = "nat \<times> lru list"

datatype cop =
    CGet int bytes
  | CSet mallocs int bytes bytes int
  | CDel bytes
  | CCas mallocs bytes bytes bytes
  | CIncr mallocs bytes int

datatype cres = RCode int | RVal int "bytes option" | RNum int "int option"

definition lru_find :: "bytes \<Rightarrow> lru \<Rightarrow> (bytes \<times> int) option" where
  "lru_find key xs = map_of xs key"

definition lru_del :: "bytes \<Rightarrow> lru \<Rightarrow> lru" where
  "lru_del key xs = filter (\<lambda>e. fst e \<noteq> key) xs"

definition lru_replace :: "bytes \<Rightarrow> bytes \<Rightarrow> lru \<Rightarrow> lru" where
  "lru_replace key v xs = map (\<lambda>(k, w, ex). if k = key then (k, v, ex) else (k, w, ex)) xs"

fun lru_chain_step :: "nat \<Rightarrow> cop \<Rightarrow> lru \<Rightarrow> (cres \<times> lru) option" where
  "lru_chain_step cl (CGet now key) xs = Some
     (case lru_find key xs of
        None \<Rightarrow> (RVal 0 None, xs)
      | Some (v, ex) \<Rightarrow>
          if ex > 0 \<and> ex < now then (RVal 0 None, lru_del key xs) else (RVal 1 (Some v), xs))"
| "lru_chain_step cl (CSet m now key val timeout) xs = Some
     (case lru_find key xs of
        None \<Rightarrow>
          if m_entry m = None \<or> \<not> m_key m \<or> \<not> m_val m then (RCode 0, xs)
          else (RCode 1, (key, val, if timeout = 0 then 0 else now + timeout)
                           # (if length xs \<le> cl then xs else butlast xs))
      | Some (v, ex) \<Rightarrow>
          if \<not> m_val m then (RCode 0, xs) else (RCode 1, (key, val, ex) # lru_del key xs))"
| "lru_chain_step cl (CDel key) xs = Some
     (if lru_find key xs = None then (RCode 0, xs) else (RCode 1, lru_del key xs))"
| "lru_chain_step cl (CCas m key old new) xs = Some
     (case lru_find key xs of
        None \<Rightarrow> (RCode (-1), xs)
      | Some (v, ex) \<Rightarrow>
          if v \<noteq> old then (RCode 0, xs)
          else if \<not> m_val m then (RCode (-2), xs)
          else (RCode 1, lru_replace key new xs))"
| "lru_chain_step cl (CIncr m key inc) xs =
     (case lru_find key xs of
        None \<Rightarrow> Some (RNum (-1) None, xs)
      | Some (v, ex) \<Rightarrow> do {
          (rv, w) \<leftarrow> incr_value (m_val m) v inc;
          Some (case w of None \<Rightarrow> (RNum rv None, xs)
                | Some (v', i) \<Rightarrow> (RNum rv (Some i), lru_replace key v' xs)) })"

fun cop_key :: "cop \<Rightarrow> bytes" where
  "cop_key (CGet _ key) = key"
| "cop_key (CSet _ _ key _ _) = key"
| "cop_key (CDel key) = key"
| "cop_key (CCas _ key _ _) = key"
| "cop_key (CIncr _ key _) = key"

definition lru_step :: "cop \<Rightarrow> lru_cache \<Rightarrow> (cres \<times> lru_cache) option" where
  "lru_step x a = (case a of (cl, xss) \<Rightarrow>
     let i = bucket (length xss) (cop_key x) in do {
       (r, xs') \<leftarrow> lru_chain_step cl x (xss ! i);
       Some (r, (cl, xss[i := xs'])) })"

fun cache_step :: "cop \<Rightarrow> cstate \<Rightarrow> (cres \<times> cstate) option" where
  "cache_step (CGet now key) s = do { ((rv, v), s') \<leftarrow> cache_get now key s; Some (RVal rv v, s') }"
| "cache_step (CSet m now key val timeout) s =
     do { (rv, s') \<leftarrow> cache_set m now key val timeout s; Some (RCode rv, s') }"
| "cache_step (CDel key) s = do { (rv, s') \<leftarrow> cache_del key s; Some (RCode rv, s') }"
| "cache_step (CCas m key old new) s = do { (rv, s') \<leftarrow> cache_cas m key old new s; Some (RCode rv, s') }"
| "cache_step (CIncr m key inc) s = do { ((rv, v), s') \<leftarrow> cache_incr m key inc s; Some (RNum rv v, s') }"

text \<open>\<open>malloc\<close> returns a block that is not in use.\<close>

fun fresh_alloc :: "cop \<Rightarrow> cstate \<Rightarrow> bool" where
  "fresh_alloc (CSet m _ _ _ _) s = (case m_entry m of None \<Rightarrow> True | Some a \<Rightarrow> snd s a = None)"
| "fresh_alloc _ s = True"

section \<open>Representation of the whole cache\<close>

definition chain_inv :: "nat \<Rightarrow> nat \<Rightarrow> nat \<Rightarrow> lru \<Rightarrow> bool" where
  "chain_inv cl n i xs \<longleftrightarrow> distinct (map fst xs) \<and> length xs \<le> cl + 1 \<and> (\<forall>e \<in> set xs. bucket n (fst e) = i)"

definition table_rep :: "cheap \<Rightarrow> cache_chain list \<Rightarrow> addr list list \<Rightarrow> bool" where
  "table_rep h t ass \<longleftrightarrow> length t = length ass \<and>
     (\<forall>i < length ass. chain_rep h (t ! i) (ass ! i)) \<and>
     (\<forall>i < length ass. \<forall>j < length ass. i \<noteq> j \<longrightarrow> set (ass ! i) \<inter> set (ass ! j) = {}) \<and>
     dom h = (\<Union>i < length ass. set (ass ! i))"

definition cache_rep :: "cstate \<Rightarrow> lru_cache \<Rightarrow> bool" where
  "cache_rep s a \<longleftrightarrow> (case (s, a) of ((cd, h), (cl, xss)) \<Rightarrow>
     c_chainlen cd = cl \<and> 1 \<le> cl \<and> c_hashlen cd = length xss \<and> xss \<noteq> [] \<and>
     (\<exists>ass. table_rep h (c_table cd) ass \<and> xss = map (contents h) ass) \<and>
     (\<forall>i < length xss. chain_inv cl (length xss) i (xss ! i)))"

lemma bucket_less [simp]: "0 < n \<Longrightarrow> bucket n key < n"
  by (simp add: bucket_def)

lemma table_rep_update:
  assumes t: "table_rep h t ass" and i: "i < length ass" and c: "chain_rep h' c' as'"
    and frame: "\<And>x. x \<notin> set (ass ! i) \<Longrightarrow> x \<notin> set as' \<Longrightarrow> h' x = h x"
    and fresh: "\<And>x. x \<in> set as' \<Longrightarrow> x \<notin> set (ass ! i) \<Longrightarrow> h x = None"
    and dom: "dom h' = dom h - set (ass ! i) \<union> set as'"
  shows "table_rep h' (t[i := c']) (ass[i := as'])"
    and "map (contents h') (ass[i := as']) = (map (contents h) ass)[i := contents h' as']"
proof -
  have disj: "set (ass ! i) \<inter> set (ass ! j) = {}" "set as' \<inter> set (ass ! j) = {}"
    if j: "j < length ass" "j \<noteq> i" for j
  proof -
    show 1: "set (ass ! i) \<inter> set (ass ! j) = {}" using t i j by (auto simp: table_rep_def)
    have "set (ass ! j) \<subseteq> dom h" using t j by (auto simp: table_rep_def)
    then show "set as' \<inter> set (ass ! j) = {}" using fresh 1 by force
  qed
  have same: "h' x = h x" if "j < length ass" "j \<noteq> i" "x \<in> set (ass ! j)" for j x
    using disj [OF that(1,2)] that(3) by (intro frame) auto
  have "chain_rep h' (t[i := c'] ! j) (ass[i := as'] ! j)" if "j < length ass" for j
  proof (cases "j = i")
    case True
    then show ?thesis using c i t by (simp add: table_rep_def)
  next
    case False
    with that t same show ?thesis
      using dllseg_cong [of "ass ! j" h' h None "cc_first (t ! j)" None]
      by (auto simp: table_rep_def chain_rep_def)
  qed
  moreover have "dom h' = (\<Union>j < length ass. set (ass[i := as'] ! j))"
  proof -
    have "dom h - set (ass ! i) = (\<Union>j \<in> {..<length ass} - {i}. set (ass ! j))"
      using t disj(1) i by (auto simp: table_rep_def)
    then show ?thesis using i by (auto simp: dom nth_list_update split: if_splits)
  qed
  moreover have "set (ass[i := as'] ! j) \<inter> set (ass[i := as'] ! k) = {}"
    if "j < length ass" "k < length ass" "j \<noteq> k" for j k
    using that t disj(2) [of j] disj(2) [of k] i
    by (cases "j = i"; cases "k = i") (auto simp: table_rep_def)
  ultimately show "table_rep h' (t[i := c']) (ass[i := as'])"
    using t by (simp add: table_rep_def)
  have "contents h' (ass ! j) = contents h (ass ! j)" if "j < length ass" "j \<noteq> i" for j
    using same that by (intro contents_cong) blast
  then show "map (contents h') (ass[i := as']) = (map (contents h) ass)[i := contents h' as']"
    using i by (intro nth_equalityI) (auto simp: nth_list_update)
qed

lemma cache_rep_update:
  assumes rep: "cache_rep (cd, h) (cl, xss)" and t: "table_rep h (c_table cd) ass"
    and xss: "xss = map (contents h) ass" and i: "i < length xss"
    and c: "chain_rep h' c' as'" and frame: "\<And>x. x \<notin> set (ass ! i) \<Longrightarrow> x \<notin> set as' \<Longrightarrow> h' x = h x"
    and fresh: "\<And>x. x \<in> set as' \<Longrightarrow> x \<notin> set (ass ! i) \<Longrightarrow> h x = None"
    and dom: "dom h' = dom h - set (ass ! i) \<union> set as'"
    and inv: "chain_inv cl (length xss) i (contents h' as')"
  shows "cache_rep (put_chain cd i c', h') (cl, xss[i := contents h' as'])"
proof -
  have i': "i < length ass" using i xss by simp
  note u = table_rep_update [OF t i' c frame fresh dom]
  show ?thesis
    using rep inv u xss i
    by (auto simp: cache_rep_def put_chain_def nth_list_update intro!: exI [of _ "ass[i := as']"])
qed

lemma map_of_contents_notin: "key \<notin> fst ` set (contents h as) \<Longrightarrow> map_of (contents h as @ ys) key = map_of ys key"
  by (simp add: map_add_def map_of_eq_None_iff [THEN iffD2])

lemma chain_find_cases:
  assumes c: "chain_rep h c as" and d: "distinct (map fst (contents h as))"
  obtains (absent) "lru_find key (contents h as) = None" "find_in_chain h (cc_first c) key = Some None"
      "key \<notin> fst ` set (contents h as)"
  | (found) l e r n where "as = l @ e # r" "h e = Some n" "ce_key n = key"
      "find_in_chain h (cc_first c) key = Some (Some e)"
      "lru_find key (contents h as) = Some (ce_val n, ce_expire n)"
      "key \<notin> fst ` set (contents h l)" "key \<notin> fst ` set (contents h r)"
proof -
  have seg: "dllseg h None (cc_first c) as None" using c by (simp add: chain_rep_def)
  note fnd = find_in_chain_rep [OF seg, of key]
  show thesis
  proof (cases "find (\<lambda>a. ce_key (the (h a)) = key) as")
    case None
    then have "key \<notin> fst ` set (contents h as)"
      by (auto simp: find_None_iff contents_def entry_data_def)
    then show thesis using None fnd absent by (simp add: lru_find_def map_of_eq_None_iff)
  next
    case (Some e)
    then have k: "ce_key (the (h e)) = key" and "e \<in> set as" by (auto simp: find_Some_iff)
    then obtain l r where as: "as = l @ e # r" by (meson split_list)
    obtain n where n: "h e = Some n" using dllseg_alloc [OF seg, of e] as by auto
    have "distinct (map fst (contents h l) @ key # map fst (contents h r))"
      using d k n by (simp add: as entry_data_def)
    then have kl: "key \<notin> fst ` set (contents h l)" and kr: "key \<notin> fst ` set (contents h r)"
      by (simp_all only: distinct_append distinct.simps set_map list.set) blast+
    have "lru_find key (contents h as) = Some (ce_val n, ce_expire n)"
      using map_of_contents_notin [OF kl, of "contents h (e # r)"] k n
      by (simp add: as lru_find_def entry_data_def del: map_of_append)
    moreover have "find_in_chain h (cc_first c) key = Some (Some e)" using Some fnd by simp
    moreover have "ce_key n = key" using n k by simp
    ultimately show thesis using found [OF as n] kl kr by blast
  qed
qed

lemma cache_locate:
  assumes "cache_rep (cd, h) (cl, xss)" "i = bucket (length xss) key"
  obtains ass where "table_rep h (c_table cd) ass" "xss = map (contents h) ass" "i < length xss"
    "chain_of cd key = Some (i, c_table cd ! i)" "chain_rep h (c_table cd ! i) (ass ! i)"
    "contents h (ass ! i) = xss ! i" "chain_inv cl (length xss) i (xss ! i)" "c_chainlen cd = cl"
    "1 \<le> cl" "set (ass ! i) \<subseteq> dom h"
proof -
  from assms(1) obtain ass where a: "table_rep h (c_table cd) ass" "xss = map (contents h) ass"
    "c_hashlen cd = length xss" "xss \<noteq> []" "c_chainlen cd = cl" "1 \<le> cl"
    "\<forall>i < length xss. chain_inv cl (length xss) i (xss ! i)"
    by (fastforce simp: cache_rep_def)
  then have i: "i < length xss" using assms(2) by simp
  with a have "chain_of cd key = Some (i, c_table cd ! i)"
    using assms(2) by (auto simp: chain_of_def Let_def table_rep_def)
  moreover have "set (ass ! i) \<subseteq> dom h" using a i by (auto simp: table_rep_def)
  moreover have "chain_rep h (c_table cd ! i) (ass ! i)" using a i by (auto simp: table_rep_def)
  ultimately show thesis using a i that by auto
qed

lemma lru_del_split:
  assumes "key \<notin> fst ` set xs" "key \<notin> fst ` set ys"
  shows "lru_del key (xs @ (key, v) # ys) = xs @ ys"
proof -
  have "filter (\<lambda>e. fst e \<noteq> key) zs = zs" if "key \<notin> fst ` set zs" for zs :: lru
    using that by (intro filter_True) force
  with assms show ?thesis by (simp add: lru_del_def)
qed

lemma lru_replace_split:
  assumes "key \<notin> fst ` set xs" "key \<notin> fst ` set ys"
  shows "lru_replace key v' (xs @ (key, v, ex) # ys) = xs @ (key, v', ex) # ys"
proof -
  have "map (\<lambda>(k, w, ex). if k = key then (k, v', ex) else (k, w, ex)) zs = zs" if "key \<notin> fst ` set zs" for zs :: lru
    using that by (intro map_idI) (force split: prod.splits)
  with assms show ?thesis by (simp add: lru_replace_def)
qed

lemma chain_inv_del: "chain_inv cl n i xs \<Longrightarrow> chain_inv cl n i (lru_del key xs)"
  by (auto simp: chain_inv_def lru_del_def distinct_map_filter intro: le_trans [OF length_filter_le])

lemma chain_inv_replace: "chain_inv cl n i xs \<Longrightarrow> chain_inv cl n i (lru_replace key v xs)"
proof -
  have "map fst (lru_replace key v xs) = map fst xs" by (auto simp: lru_replace_def)
  then show "chain_inv cl n i xs \<Longrightarrow> ?thesis"
    unfolding chain_inv_def by (metis (no_types, lifting) length_map list.set_map image_iff)
qed

lemma chain_inv_cons:
  "chain_inv cl n (bucket n key) xs \<Longrightarrow> key \<notin> fst ` set xs \<Longrightarrow> length xs \<le> cl \<Longrightarrow>
     chain_inv cl n (bucket n key) ((key, v) # xs)"
  by (auto simp: chain_inv_def)

lemma chain_inv_promote:
  "chain_inv cl n (bucket n key) xs \<Longrightarrow> key \<in> fst ` set xs \<Longrightarrow>
     chain_inv cl n (bucket n key) ((key, v) # lru_del key xs)"
proof -
  assume a: "chain_inv cl n (bucket n key) xs" "key \<in> fst ` set xs"
  then have "length (lru_del key xs) < length xs"
    by (auto simp: lru_del_def intro!: length_filter_less)
  then show ?thesis
    using a chain_inv_del [OF a(1), of key] by (intro chain_inv_cons) (auto simp: chain_inv_def lru_del_def)
qed

lemma chain_inv_butlast: "chain_inv cl n i xs \<Longrightarrow> chain_inv cl n i (butlast xs)"
  by (auto simp: chain_inv_def map_butlast distinct_butlast dest: in_set_butlastD)

text \<open>Overwriting the value of one entry.\<close>

lemma value_update_rep:
  assumes "chain_rep h c (l @ e # r)" "h e = Some n" "ce_key n = key"
    and "key \<notin> fst ` set (contents h l)" "key \<notin> fst ` set (contents h r)"
  shows "chain_rep (h(e \<mapsto> n\<lparr>ce_val := v\<rparr>)) c (l @ e # r)"
    and "contents (h(e \<mapsto> n\<lparr>ce_val := v\<rparr>)) (l @ e # r) = lru_replace key v (contents h (l @ e # r))"
proof -
  have d: "e \<notin> set l" "e \<notin> set r" "distinct (l @ e # r)" using assms(1) by (auto simp: chain_rep_def)
  with assms(1,2) show "chain_rep (h(e \<mapsto> n\<lparr>ce_val := v\<rparr>)) c (l @ e # r)"
    by (auto simp: chain_rep_def dllseg_append dllseg_upd)
  show "contents (h(e \<mapsto> n\<lparr>ce_val := v\<rparr>)) (l @ e # r) = lru_replace key v (contents h (l @ e # r))"
    using d assms by (simp add: contents_upd entry_data_def lru_replace_split)
qed

section \<open>Every operation implements its specification\<close>

lemma put_chain_same: "i < length (c_table cd) \<Longrightarrow> put_chain cd i (c_table cd ! i) = cd"
  by (simp add: put_chain_def)

lemma lru_del_absent: "key \<notin> fst ` set xs \<Longrightarrow> lru_del key xs = xs"
  by (auto simp: lru_del_def intro!: filter_True)

lemma cache_del_sim:
  assumes rep: "cache_rep (cd, h) (cl, xss)" and i: "i = bucket (length xss) key"
  shows "\<exists>s'. cache_del key (cd, h) = Some (if lru_find key (xss ! i) = None then 0 else 1, s') \<and>
              cache_rep s' (cl, xss[i := lru_del key (xss ! i)])"
proof -
  from rep i obtain ass where L: "table_rep h (c_table cd) ass" "xss = map (contents h) ass" "i < length xss"
    "chain_of cd key = Some (i, c_table cd ! i)" "chain_rep h (c_table cd ! i) (ass ! i)"
    "contents h (ass ! i) = xss ! i" "chain_inv cl (length xss) i (xss ! i)" "set (ass ! i) \<subseteq> dom h"
    by (rule cache_locate)
  have d: "distinct (map fst (contents h (ass ! i)))" using L(6,7) by (simp add: chain_inv_def)
  from L(5) d show ?thesis
  proof (cases rule: chain_find_cases [where key = key])
    case absent
    then show ?thesis using L(4,6) rep by (simp add: cache_del_def lru_del_absent)
  next
    case (found l e r n)
    from chain_del_rep [OF L(5) [unfolded found(1)]] obtain c' h' where D:
      "chain_del e (c_table cd ! i) h = Some (c', h')" "chain_rep h' c' (l @ r)"
      "contents h' (l @ r) = contents h (l @ r)" "\<forall>x. x \<notin> set (l @ e # r) \<longrightarrow> h' x = h x"
      "dom h' = dom h - {e}" by blast
    have del: "contents h' (l @ r) = lru_del key (xss ! i)"
      using D(3) L(6) found by (simp add: entry_data_def lru_del_split flip: L(6))
    have dd: "distinct (l @ e # r)" using L(5) found(1) by (simp add: chain_rep_def)
    have "dom h' = dom h - set (ass ! i) \<union> set (l @ r)" using D(5) L(8) found(1) dd by auto
    then have "cache_rep (put_chain cd i c', h') (cl, xss[i := contents h' (l @ r)])"
      using rep L(1-3) D(2,4) found(1) chain_inv_del [OF L(7), of key] del
      by (intro cache_rep_update [OF rep L(1-3)]) auto
    then show ?thesis
      using L(4,6) found D(1) del by (simp add: cache_del_def)
  qed
qed

text \<open>Locating an entry and overwriting its value, the effect of \<open>cache_cas\<close> and \<open>cache_incr\<close>.\<close>

lemma cache_find_cases:
  assumes rep: "cache_rep (cd, h) (cl, xss)" and i: "i = bucket (length xss) key"
  obtains (absent) "lru_find key (xss ! i) = None" "find_in_cache key (cd, h) = Some None"
  | (found) e n where "find_in_cache key (cd, h) = Some (Some e)" "h e = Some n"
      "lru_find key (xss ! i) = Some (ce_val n, ce_expire n)"
      "\<And>v. cache_rep (cd, h(e \<mapsto> n\<lparr>ce_val := v\<rparr>)) (cl, xss[i := lru_replace key v (xss ! i)])"
proof -
  from rep i obtain ass where L: "table_rep h (c_table cd) ass" "xss = map (contents h) ass" "i < length xss"
    "chain_of cd key = Some (i, c_table cd ! i)" "chain_rep h (c_table cd ! i) (ass ! i)"
    "contents h (ass ! i) = xss ! i" "chain_inv cl (length xss) i (xss ! i)" "set (ass ! i) \<subseteq> dom h"
    by (rule cache_locate)
  have d: "distinct (map fst (contents h (ass ! i)))" using L(6,7) by (simp add: chain_inv_def)
  from L(5) d show thesis
  proof (cases rule: chain_find_cases [where key = key])
    case absent
    then show thesis using L(4,6) that(1) by (simp add: find_in_cache_def)
  next
    case (found l e r n)
    have "cache_rep (cd, h(e \<mapsto> n\<lparr>ce_val := v\<rparr>)) (cl, xss[i := lru_replace key v (xss ! i)])" for v
    proof -
      note U = value_update_rep [OF L(5) [unfolded found(1)] found(2,3,6,7), of v]
      have "cache_rep (put_chain cd i (c_table cd ! i), h(e \<mapsto> n\<lparr>ce_val := v\<rparr>))
              (cl, xss[i := contents (h(e \<mapsto> n\<lparr>ce_val := v\<rparr>)) (l @ e # r)])"
      proof (rule cache_rep_update [OF rep L(1-3) U(1)])
        show "chain_inv cl (length xss) i (contents (h(e \<mapsto> n\<lparr>ce_val := v\<rparr>)) (l @ e # r))"
          unfolding U(2) using chain_inv_replace [OF L(7)] L(6) found(1) by simp
      qed (use found(1,2) L(8) in auto)
      moreover have "put_chain cd i (c_table cd ! i) = cd"
        using L(1-3) by (intro put_chain_same) (auto simp: table_rep_def)
      moreover have "contents h (l @ e # r) = xss ! i" using L(6) found(1) by simp
      ultimately show ?thesis unfolding U(2) by simp
    qed
    moreover have "find_in_cache key (cd, h) = Some (Some e)" using L(4) found(4) by (simp add: find_in_cache_def)
    moreover have "lru_find key (xss ! i) = Some (ce_val n, ce_expire n)" using found(5) L(6) by simp
    ultimately show thesis using that(2) found(2) by blast
  qed
qed

lemma contents_delete:
  assumes "h e = Some n" "ce_key n = key" "key \<notin> fst ` set (contents h l)" "key \<notin> fst ` set (contents h r)"
  shows "contents h (l @ r) = lru_del key (contents h (l @ e # r))"
  using assms by (simp add: entry_data_def lru_del_split)

lemma cache_set_found:
  assumes rep: "cache_rep (cd, h) (cl, xss)" and i: "i = bucket (length xss) key"
    and f: "lru_find key (xss ! i) = Some (v0, ex)" and m: "m_val m"
  shows "\<exists>s'. cache_set m now key v timeout (cd, h) = Some (1, s') \<and>
              cache_rep s' (cl, xss[i := (key, v, ex) # lru_del key (xss ! i)])"
proof -
  from rep i obtain ass where L: "table_rep h (c_table cd) ass" "xss = map (contents h) ass" "i < length xss"
    "chain_of cd key = Some (i, c_table cd ! i)" "chain_rep h (c_table cd ! i) (ass ! i)"
    "contents h (ass ! i) = xss ! i" "chain_inv cl (length xss) i (xss ! i)" "set (ass ! i) \<subseteq> dom h"
    by (rule cache_locate)
  have d: "distinct (map fst (contents h (ass ! i)))" using L(6,7) by (simp add: chain_inv_def)
  from L(5) d show ?thesis
  proof (cases rule: chain_find_cases [where key = key])
    case absent
    then show ?thesis using f L(6) by simp
  next
    case (found l e r n)
    let ?h1 = "h(e \<mapsto> n\<lparr>ce_val := v\<rparr>)"
    note U = value_update_rep [OF L(5) [unfolded found(1)] found(2,3,6,7), of v]
    have dd: "distinct (l @ e # r)" using L(5) found(1) by (simp add: chain_rep_def)
    from chain_promote_rep [OF U(1)] obtain c' h' where P:
      "chain_promote e (c_table cd ! i) ?h1 = Some (c', h')" "chain_rep h' c' (e # l @ r)"
      "contents h' (e # l @ r) = contents ?h1 (e # l @ r)"
      "\<forall>x. x \<notin> set (l @ e # r) \<longrightarrow> h' x = ?h1 x" "dom h' = dom ?h1" by blast
    have ex: "ce_expire n = ex" using f found(5) L(6) by simp
    have "contents ?h1 (l @ r) = contents h (l @ r)" using dd by (subst contents_upd) auto
    then have c: "contents h' (e # l @ r) = (key, v, ex) # lru_del key (xss ! i)"
      using P(3) contents_delete [OF found(2,3,6,7)] ex found(1,3) L(6)
      by (simp add: entry_data_def del: contents_simps(3))
    have kin: "key \<in> fst ` set (xss ! i)"
      using f by (force simp: lru_find_def dest: map_of_SomeD)
    have "cache_rep (put_chain cd i c', h') (cl, xss[i := contents h' (e # l @ r)])"
    proof (rule cache_rep_update [OF rep L(1-3) P(2)])
      show "chain_inv cl (length xss) i (contents h' (e # l @ r))"
        unfolding c using chain_inv_promote L(7) kin i by blast
    qed (use found(1,2) L(8) P(4,5) in auto)
    then show ?thesis
      using L(4) found(2,4) m P(1) c by (simp add: cache_set_def upd_def)
  qed
qed

lemma cache_set_absent:
  assumes rep: "cache_rep (cd, h) (cl, xss)" and i: "i = bucket (length xss) key"
    and f: "lru_find key (xss ! i) = None" and m: "m_entry m = Some new" "m_key m" "m_val m"
    and new: "h new = None"
  shows "\<exists>s'. cache_set m now key v timeout (cd, h) = Some (1, s') \<and>
              cache_rep s' (cl, xss[i := (key, v, if timeout = 0 then 0 else now + timeout)
                # (if length (xss ! i) \<le> cl then xss ! i else butlast (xss ! i))])"
proof -
  from rep i obtain ass where L: "table_rep h (c_table cd) ass" "xss = map (contents h) ass" "i < length xss"
    "chain_of cd key = Some (i, c_table cd ! i)" "chain_rep h (c_table cd ! i) (ass ! i)"
    "contents h (ass ! i) = xss ! i" "chain_inv cl (length xss) i (xss ! i)" "c_chainlen cd = cl"
    "1 \<le> cl" "set (ass ! i) \<subseteq> dom h"
    by (rule cache_locate)
  have d: "distinct (map fst (contents h (ass ! i)))" using L(6,7) by (simp add: chain_inv_def)
  define as where "as = ass ! i"
  have fnd: "find_in_chain h (cc_first (c_table cd ! i)) key = Some None \<and> key \<notin> fst ` set (xss ! i)"
    using L(5) d by (cases rule: chain_find_cases [where key = key]) (use f L(6) in auto)
  then have kn: "key \<notin> fst ` set (xss ! i)" by blast
  define n where "n = \<lparr>ce_key = key, ce_val = v, ce_expire = (if timeout = 0 then 0 else now + timeout),
    ce_prev = None, ce_next = None\<rparr>"
  let ?x = "(key, v, if timeout = 0 then 0 else now + timeout)"
  let ?h1 = "h(new \<mapsto> n)"
  have na: "new \<notin> set as" and sub: "set as \<subseteq> dom h" using new L(10) by (auto simp: as_def)
  have rep1: "chain_rep ?h1 (c_table cd ! i) as"
    using L(5) na by (simp add: chain_rep_def as_def dllseg_upd)
  have con1: "contents ?h1 as = xss ! i" using na L(6) by (simp add: contents_upd as_def)
  have n1: "?h1 new = Some n" "ce_prev n = None" "ce_next n = None" "entry_data n = ?x"
    by (simp_all add: n_def entry_data_def)
  have len: "length as = length (xss ! i)" using L(6) by (simp add: as_def flip: L(6))
  obtain as' c' h' where I: "chain_insert cl new (c_table cd ! i) ?h1 = Some (c', h')" "chain_rep h' c' (new # as')"
    "contents h' (new # as') = ?x # (if length (xss ! i) \<le> cl then xss ! i else butlast (xss ! i))"
    "\<forall>x. x \<notin> set as \<longrightarrow> x \<noteq> new \<longrightarrow> h' x = h x" "dom h' = dom h - set as \<union> set (new # as')" "set as' \<subseteq> set as"
  proof (cases "length as \<le> cl")
    case True
    from chain_insert_rep [OF rep1 na True n1(1-3)] obtain c' h' where E:
      "chain_insert cl new (c_table cd ! i) ?h1 = Some (c', h')" "chain_rep h' c' (new # as)"
      "contents h' (new # as) = contents ?h1 (new # as)"
      "\<forall>x. x \<notin> set (new # as) \<longrightarrow> h' x = ?h1 x" "dom h' = dom ?h1" by blast
    have "contents h' (new # as) = ?x # xss ! i" using E(3) con1 n1(1,4) by simp
    with E show ?thesis using that [of c' h' as] True len sub by auto
  next
    case False
    then obtain f zs e where as: "as = f # zs @ [e]"
      using L(9) by (cases as; cases "tl as" rule: rev_cases) auto
    have full: "cl < length (f # zs @ [e])" using False as by simp
    from chain_evict_rep [OF rep1 [unfolded as] na [unfolded as] full n1(1-3)] obtain c' h' where E:
      "chain_insert cl new (c_table cd ! i) ?h1 = Some (c', h')" "chain_rep h' c' (new # f # zs)"
      "contents h' (new # f # zs) = contents ?h1 (new # f # zs)"
      "\<forall>x. x \<notin> set (new # f # zs @ [e]) \<longrightarrow> h' x = ?h1 x" "dom h' = dom ?h1 - {e}" by blast
    have "contents ?h1 (f # zs) = butlast (xss ! i)"
      using con1 by (simp add: as butlast_append flip: con1)
    then have "contents h' (new # f # zs) = ?x # butlast (xss ! i)" using E(3) n1(1,4) by simp
    moreover have "distinct as" using rep1 by (simp add: chain_rep_def)
    ultimately show ?thesis
      using that [of c' h' "f # zs"] E as False len sub na by auto
  qed
  have inv: "chain_inv cl (length xss) i (contents h' (new # as'))"
    unfolding I(3) using L(7) kn i chain_inv_butlast [OF L(7)]
    by (auto simp: chain_inv_def dest: in_set_butlastD intro!: chain_inv_cons)
  have "cache_rep (put_chain cd i c', h') (cl, xss[i := contents h' (new # as')])"
    by (rule cache_rep_update [OF rep L(1-3) I(2) _ _ _ inv]) (use I(4-6) new in \<open>auto simp: as_def\<close>)
  then show ?thesis
    using L(4,8) fnd m I(1,3) by (simp add: cache_set_def n_def)
qed

lemma xss_same: "xss[i := xss ! i] = xss"
  by simp

lemma cache_step_sim:
  assumes rep: "cache_rep s a" and env: "fresh_alloc x s" and sp: "lru_step x a = Some (r, a')"
  shows "\<exists>s'. cache_step x s = Some (r, s') \<and> cache_rep s' a'"
proof -
  obtain cd h cl xss where s: "s = (cd, h)" and a: "a = (cl, xss)" by (cases s; cases a) auto
  define i where "i = bucket (length xss) (cop_key x)"
  have rep': "cache_rep (cd, h) (cl, xss)" using rep s a by simp
  obtain xs' where x: "lru_chain_step cl x (xss ! i) = Some (r, xs')" and a': "a' = (cl, xss[i := xs'])"
    using sp by (auto simp: lru_step_def a i_def Let_def split: prod.splits)
  show ?thesis
  proof (cases x)
    case (CGet now key)
    with i_def have i: "i = bucket (length xss) key" by simp
    from cache_del_sim [OF rep' i] obtain cd' h' rv where del: "cache_del key (cd, h) = Some (rv, (cd', h'))"
      "cache_rep (cd', h') (cl, xss[i := lru_del key (xss ! i)])" by (metis surj_pair)
    from rep' i show ?thesis
      by (cases rule: cache_find_cases)
         (use x CGet rep' del in \<open>auto simp: s a' cache_get_def split: if_splits\<close>)
  next
    case (CSet m now key v t)
    with i_def have i: "i = bucket (length xss) key" by simp
    show ?thesis
    proof (cases "lru_find key (xss ! i)")
      case None
      from rep' i have "\<exists>j c. chain_of cd key = Some (j, c) \<and> find_in_chain h (cc_first c) key = Some None"
        by (cases rule: cache_find_cases)
           (use None in \<open>auto simp: find_in_cache_def chain_of_def Let_def split: if_splits\<close>)
      then obtain j c where jc: "chain_of cd key = Some (j, c)" "find_in_chain h (cc_first c) key = Some None"
        by blast
      show ?thesis
      proof (cases "\<exists>new. m_entry m = Some new \<and> m_key m \<and> m_val m")
        case True
        then obtain new where m: "m_entry m = Some new" "m_key m" "m_val m" by blast
        with env CSet s have "h new = None" by simp
        from cache_set_absent [OF rep' i None m this, of now v t] obtain cd' h' where
          "cache_set m now key v t (cd, h) = Some (1, (cd', h'))"
          "cache_rep (cd', h') (cl, xss[i := (key, v, if t = 0 then 0 else now + t)
             # (if length (xss ! i) \<le> cl then xss ! i else butlast (xss ! i))])" by (metis surj_pair)
        then show ?thesis using x CSet None m by (auto simp: s a')
      next
        case False
        then have "cache_set m now key v t (cd, h) = Some (0, (cd, h))"
          using jc by (cases "m_entry m") (auto simp: cache_set_def)
        then show ?thesis using x CSet None False rep' by (auto simp: s a' split: if_splits)
      qed
    next
      case (Some w)
      from rep' i have "\<exists>j e c. chain_of cd key = Some (j, c) \<and> find_in_chain h (cc_first c) key = Some (Some e)"
        by (cases rule: cache_find_cases)
           (use Some in \<open>auto simp: find_in_cache_def chain_of_def Let_def split: if_splits\<close>)
      then have "cache_set m now key v t (cd, h) = Some (0, (cd, h))" if "\<not> m_val m"
        using that by (auto simp: cache_set_def)
      moreover obtain v0 ex where w: "w = (v0, ex)" by (cases w)
      ultimately show ?thesis
        using cache_set_found [OF rep' i Some [unfolded w], of m now v t] x CSet Some rep' w
        by (cases "m_val m") (force simp: s a')+
    qed
  next
    case (CDel key)
    with i_def have i: "i = bucket (length xss) key" by simp
    have "lru_find key (xss ! i) = None \<Longrightarrow> lru_del key (xss ! i) = xss ! i"
      by (simp add: lru_find_def map_of_eq_None_iff lru_del_absent)
    with cache_del_sim [OF rep' i] show ?thesis using x CDel by (auto simp: s a' split: if_splits)
  next
    case (CCas m key old new)
    with i_def have i: "i = bucket (length xss) key" by simp
    from rep' i show ?thesis
      by (cases rule: cache_find_cases)
         (use x CCas rep' in \<open>auto simp: s a' cache_cas_def upd_def split: if_splits\<close>)
  next
    case (CIncr m key inc)
    with i_def have i: "i = bucket (length xss) key" by simp
    from rep' i show ?thesis
    proof (cases rule: cache_find_cases)
      case absent
      then show ?thesis using x CIncr rep' by (auto simp: s a' cache_incr_def)
    next
      case (found e n)
      then obtain rv w where iv: "incr_value (m_val m) (ce_val n) inc = Some (rv, w)"
        using x CIncr by auto
      show ?thesis
      proof (cases w)
        case None
        then show ?thesis using found iv x CIncr rep' by (auto simp: s a' cache_incr_def)
      next
        case (Some vi)
        then show ?thesis using found iv x CIncr rep'
          by (cases vi) (auto simp: s a' cache_incr_def upd_def)
      qed
    qed
  qed
qed

lemma cache_step_undef:
  assumes rep: "cache_rep s a" and sp: "lru_step x a = None"
  shows "cache_step x s = None"
proof -
  obtain cd h cl xss where s: "s = (cd, h)" and a: "a = (cl, xss)" by (cases s; cases a) auto
  have rep': "cache_rep (cd, h) (cl, xss)" using rep s a by simp
  from sp obtain m key inc where x: "x = CIncr m key inc"
    by (cases x) (auto simp: lru_step_def a Let_def split: prod.splits)
  show ?thesis
    by (rule cache_find_cases [OF rep' refl, where key = key])
       (use sp in \<open>auto simp: s a x cache_incr_def lru_step_def Let_def split: prod.splits bind_splits\<close>)
qed

interpretation lru: bisimulation cache_step lru_step cache_rep fresh_alloc
  by unfold_locales (use cache_step_sim cache_step_undef in blast)+

lemma cache_create_rep:
  "4 \<le> n \<Longrightarrow> cache_create True True n f = Some cd \<Longrightarrow>
     cache_rep (cd, Map.empty) (4, replicate (n div 4) [])"
  by (auto simp: cache_create_def Let_def cache_rep_def table_rep_def chain_rep_def chain_inv_def
        div_greater_zero_iff intro!: exI [of _ "replicate (n div 4) []"])

section \<open>Freeing the cache\<close>

lemma chain_free_rep:
  "dllseg h pr p as None \<Longrightarrow> distinct as \<Longrightarrow> chain_free p h = Some (h |` (- set as))"
proof (induction as arbitrary: h pr p)
  case Nil
  then show ?case by (subst chain_free.simps) (simp add: restrict_map_def)
next
  case (Cons a as)
  then obtain n where n: "p = Some a" "h a = Some n" "dllseg h (Some a) (ce_next n) as None" by auto
  have "dllseg (h(a := None)) (Some a) (ce_next n) as None"
    using n(3) Cons.prems(2) by (simp add: dllseg_upd)
  then have "chain_free (ce_next n) (h(a := None)) = Some (h(a := None) |` (- set as))"
    by (rule Cons.IH) (use Cons.prems(2) in simp)
  moreover have "h(a := None) |` (- set as) = h |` (- set (a # as))"
    by (auto simp: restrict_map_def)
  ultimately show ?case using n by (subst chain_free.simps) simp
qed

lemma chain_rep_restrict:
  "chain_rep h c as \<Longrightarrow> set as \<inter> A = {} \<Longrightarrow> chain_rep (h |` (- A)) c as"
proof -
  assume c: "chain_rep h c as" and d: "set as \<inter> A = {}"
  have "dllseg (h |` (- A)) None (cc_first c) as None = dllseg h None (cc_first c) as None"
    using d by (intro dllseg_cong) (auto simp: restrict_map_def)
  with c show ?thesis by (simp add: chain_rep_def)
qed

lemma table_free_rep:
  assumes "list_all2 (chain_rep h) t ass" "sorted_wrt (\<lambda>a b. set a \<inter> set b = {}) ass"
  shows "table_free t h = Some (h |` (- (\<Union>a \<in> set ass. set a)))"
  using assms
proof (induction ass arbitrary: h t rule: list.induct)
  case Nil
  have "t = []" using Nil.prems(1) by (simp only: list_all2_Nil2)
  then show ?case by (simp add: restrict_map_def)
next
  case (Cons as ass)
  let ?h = "h |` (- set as)"
  obtain c cs where t: "t = c # cs" and c: "chain_rep h c as" and cs: "list_all2 (chain_rep h) cs ass"
    using Cons.prems(1) by (auto simp: list_all2_Cons2)
  have "list_all2 (chain_rep ?h) cs ass"
    using cs Cons.prems(2)
    by (auto simp: list_all2_conv_all_nth Int_commute intro!: chain_rep_restrict [of h])
  then have IH: "table_free cs ?h = Some (?h |` (- (\<Union>a \<in> set ass. set a)))"
    using Cons.IH Cons.prems by simp
  have eq: "?h |` (- (\<Union>a \<in> set ass. set a)) = h |` (- (\<Union>a \<in> set (as # ass). set a))"
    by (auto simp: restrict_map_def fun_eq_iff)
  show ?case
  proof (cases "cc_first c")
    case None
    then have "as = []" using c by (cases as) (auto simp: chain_rep_def)
    then have "?h = h" by (simp add: restrict_map_def)
    then show ?thesis using IH eq None t by simp
  next
    case (Some a)
    have "chain_free (cc_first c) h = Some ?h"
      using c by (auto simp: chain_rep_def intro: chain_free_rep)
    then show ?thesis using IH eq Some t by simp
  qed
qed

section \<open>What a lookup may return\<close>

text \<open>
  \<open>known\<close> follows a run and records the value last written to each key; deleting forgets it.
\<close>

fun known_step :: "(bytes \<rightharpoonup> bytes) \<Rightarrow> cop \<times> cres \<Rightarrow> (bytes \<rightharpoonup> bytes)" where
  "known_step m (CSet _ _ key v _, r) = (if r = RCode 1 then m(key \<mapsto> v) else m)"
| "known_step m (CDel key, r) = m(key := None)"
| "known_step m (CCas _ key _ new, r) = (if r = RCode 1 then m(key \<mapsto> new) else m)"
| "known_step m (CIncr ms key inc, r) =
     (case m key of None \<Rightarrow> m
      | Some v \<Rightarrow> (case incr_value (m_val ms) v inc of Some (_, Some (v', _)) \<Rightarrow> m(key \<mapsto> v') | _ \<Rightarrow> m))"
| "known_step m (CGet _ _, r) = m"

definition known :: "cop list \<Rightarrow> cres list \<Rightarrow> (bytes \<rightharpoonup> bytes)" where
  "known ops rs = foldl known_step Map.empty (zip ops rs)"

definition agrees :: "lru_cache \<Rightarrow> (bytes \<rightharpoonup> bytes) \<Rightarrow> bool" where
  "agrees a m \<longleftrightarrow> (\<forall>xs \<in> set (snd a). \<forall>(k, v, ex) \<in> set xs. m k = Some v)"

definition lru_inv :: "lru_cache \<Rightarrow> bool" where
  "lru_inv a \<longleftrightarrow> (case a of (cl, xss) \<Rightarrow> xss \<noteq> [] \<and> (\<forall>i < length xss. chain_inv cl (length xss) i (xss ! i)))"

lemma cache_rep_lru_inv: "cache_rep s a \<Longrightarrow> lru_inv a"
  by (auto simp: cache_rep_def lru_inv_def split: prod.splits)

lemma agrees_other:
  assumes inv: "lru_inv (cl, xss)" and ag: "agrees (cl, xss) m" and i: "i = bucket (length xss) key"
    and xs': "\<forall>(k, v, ex) \<in> set xs'. (k = key \<and> m' key = Some v) \<or> (k \<noteq> key \<and> (k, v, ex) \<in> set (xss ! i))"
    and m': "\<And>k. k \<noteq> key \<Longrightarrow> m' k = m k"
  shows "agrees (cl, xss[i := xs']) m'"
proof -
  have il: "i < length xss" using inv i by (simp add: lru_inv_def)
  have "m' k = Some v" if "j < length xss" "(k, v, ex) \<in> set (xss[i := xs'] ! j)" for j k v ex
  proof (cases "j = i")
    case True
    with that il xs' have "(k = key \<and> m' key = Some v) \<or> (k \<noteq> key \<and> (k, v, ex) \<in> set (xss ! i))" by auto
    with ag il m' show ?thesis by (fastforce simp: agrees_def)
  next
    case False
    with that have "(k, v, ex) \<in> set (xss ! j)" by simp
    moreover from this have "bucket (length xss) k = j" using inv that(1) by (force simp: lru_inv_def chain_inv_def)
    ultimately show ?thesis using ag m' [of k] False i that(1) by (fastforce simp: agrees_def)
  qed
  then show ?thesis by (fastforce simp: agrees_def in_set_conv_nth [of _ "xss[i := xs']"])
qed

lemma lru_step_agrees:
  assumes inv: "lru_inv a" and ag: "agrees a m" and st: "lru_step x a = Some (r, a')"
  shows "agrees a' (known_step m (x, r))"
proof -
  obtain cl xss where a: "a = (cl, xss)" by (cases a)
  define i where "i = bucket (length xss) (cop_key x)"
  obtain xs' where x: "lru_chain_step cl x (xss ! i) = Some (r, xs')" and a': "a' = (cl, xss[i := xs'])"
    using st by (auto simp: lru_step_def a i_def Let_def split: prod.splits)
  have il: "i < length xss" using inv by (simp add: a i_def lru_inv_def)
  have d: "distinct (map fst (xss ! i))" using inv il by (simp add: a lru_inv_def chain_inv_def)
  have mem: "m k = Some v" if "(k, v, ex) \<in> set (xss ! i)" for k v ex
    using ag that il by (fastforce simp: a agrees_def)
  have look: "(k, v, ex) \<in> set (xss ! i) \<longleftrightarrow> lru_find k (xss ! i) = Some (v, ex)" for k v ex
    using d by (simp add: lru_find_def map_of_eq_Some_iff)
  have butl: "(k, v, ex) \<in> set (butlast (xss ! i)) \<Longrightarrow> lru_find k (xss ! i) = Some (v, ex)" for k v ex
    using look by (blast dest: in_set_butlastD)
  show ?thesis unfolding a'
  proof (rule agrees_other [OF inv [unfolded a] ag [unfolded a] i_def])
    show "known_step m (x, r) k = m k" if "k \<noteq> cop_key x" for k
      using that by (cases x) (auto split: option.splits)
    show "\<forall>(k, v, ex) \<in> set xs'. (k = cop_key x \<and> known_step m (x, r) (cop_key x) = Some v) \<or>
       (k \<noteq> cop_key x \<and> (k, v, ex) \<in> set (xss ! i))"
      using x mem
      by (cases x) (auto simp: lru_del_def lru_replace_def look dest!: butl split: if_splits option.splits)
  qed
qed

lemma run_agrees:
  assumes "cache_rep s a" "run_ok cache_step fresh_alloc ops s" "run_ops cache_step ops s = Some (rs, s')"
    and "agrees a m"
  shows "\<exists>a'. cache_rep s' a' \<and> agrees a' (foldl known_step m (zip ops rs))"
  using assms
proof (induction ops arbitrary: s a m rs)
  case Nil
  then show ?case by (intro exI [of _ a]) auto
next
  case (Cons x xs)
  then obtain r s1 rs1 where x: "cache_step x s = Some (r, s1)" "run_ops cache_step xs s1 = Some (rs1, s')"
    "rs = r # rs1" by (auto split: prod.splits)
  have env: "fresh_alloc x s" "run_ok cache_step fresh_alloc xs s1" using Cons.prems(2) x by simp_all
  obtain r' a1 where a1: "lru_step x a = Some (r', a1)"
    using cache_step_undef [OF Cons.prems(1), of x] x(1) by fastforce
  have "r' = r" "cache_rep s1 a1" using cache_step_sim [OF Cons.prems(1) env(1) a1] x(1) by auto
  moreover have "agrees a1 (known_step m (x, r))"
    using lru_step_agrees [OF cache_rep_lru_inv [OF Cons.prems(1)] Cons.prems(4) a1] \<open>r' = r\<close> by simp
  ultimately show ?case using Cons.IH [of s1 a1 rs1] env(2) x by simp
qed

section \<open>Counting entries\<close>

lemma table_rep_card:
  assumes "table_rep h t ass" "\<forall>i < length ass. length (ass ! i) \<le> k"
  shows "card (dom h) \<le> length ass * k"
proof -
  have "card (\<Union>i < length ass. set (ass ! i)) \<le> (\<Sum>i < length ass. card (set (ass ! i)))"
    by (rule card_UN_le) simp
  also have "\<dots> \<le> (\<Sum>i < length ass. k)"
    using assms(2) by (intro sum_mono) (meson card_length le_trans lessThan_iff)
  finally show ?thesis using assms(1) by (simp add: table_rep_def)
qed

lemma cache_rep_card: "cache_rep (cd, h) (cl, xss) \<Longrightarrow> card (dom h) \<le> length xss * (cl + 1)"
  by (auto simp: cache_rep_def chain_inv_def intro!: table_rep_card [THEN le_trans] mult_le_mono)

section \<open>Counters\<close>

lemma snprintf_into_fits:
  "length s < length buf \<Longrightarrow> snprintf_into buf s = s @ NUL # drop (Suc (length s)) buf"
  by (simp add: snprintf_into_def Let_def)

lemma incr_value_stored:
  assumes "incr_value ok v inc = Some (rv, Some (v', i))"
  shows "strtoll (takeWhile (\<lambda>c. c \<noteq> NUL) v') = i" "v' \<noteq> []" "last v' = NUL" "24 \<le> length v'"
    "i = strtoll (takeWhile (\<lambda>c. c \<noteq> NUL) v) + inc"
proof -
  define w where "w = (if length v < 24 then replicate 24 NUL else v)"
  from assms have v: "v \<noteq> []" "last v = NUL" and i: "LLONG_MIN \<le> i" "i \<le> LLONG_MAX"
    and v': "v' = snprintf_into w (pad_left 23 (show_int i))"
    and ii: "i = strtoll (takeWhile (\<lambda>c. c \<noteq> NUL) v) + inc"
    by (auto simp: incr_value_def Let_def w_def split: if_splits)
  have w: "24 \<le> length w" "last w = NUL" using v by (auto simp: w_def)
  have len: "length (pad_left 23 (show_int i)) = 23"
    using show_int_length64 [OF i] by (simp add: length_pad_left)
  have v'': "v' = pad_left 23 (show_int i) @ NUL # drop 24 w"
    using w len by (simp add: v' snprintf_into_fits)
  have "NUL \<notin> set (pad_left 23 (show_int i))" using show_int_nul by (auto simp: pad_left_def)
  then have "takeWhile (\<lambda>c. c \<noteq> NUL) v' = pad_left 23 (show_int i)"
    unfolding v'' by (intro takeWhile_stop) auto
  then show "strtoll (takeWhile (\<lambda>c. c \<noteq> NUL) v') = i"
    using strtoll_show_int [of "[]" i] i by (simp add: pad_left_def)
  show "v' \<noteq> []" "24 \<le> length v'" using len w by (auto simp: v'')
  show "last v' = NUL"
    using w by (cases "length w = 24") (auto simp: v'' last_drop)
  show "i = strtoll (takeWhile (\<lambda>c. c \<noteq> NUL) v) + inc" by (rule ii)
qed

fun partial_sums :: "int \<Rightarrow> int list \<Rightarrow> int list" where
  "partial_sums x [] = []"
| "partial_sums x (i # is) = (x + i) # partial_sums (x + i) is"

lemma lru_find_replace: "lru_find key xs = Some (v, ex) \<Longrightarrow> lru_find key (lru_replace key v' xs) = Some (v', ex)"
  by (induction xs) (auto simp: lru_find_def lru_replace_def split: if_splits)

lemma lru_incr_run:
  assumes "0 < length xss" "lru_find key (xss ! bucket (length xss) key) = Some (v, ex)" "v \<noteq> []" "last v = NUL" "m_val m"
    and "\<forall>x \<in> set (partial_sums (strtoll (takeWhile (\<lambda>c. c \<noteq> NUL) v)) incs). LLONG_MIN \<le> x \<and> x \<le> LLONG_MAX"
  shows "\<exists>a'. run_ops lru_step (map (CIncr m key) incs) (cl, xss) =
     Some (map (\<lambda>x. RNum 1 (Some x)) (partial_sums (strtoll (takeWhile (\<lambda>c. c \<noteq> NUL) v)) incs), a')"
  using assms
proof (induction incs arbitrary: xss v)
  case Nil
  then show ?case by simp
next
  case (Cons inc incs)
  let ?i = "bucket (length xss) key"
  let ?x = "strtoll (takeWhile (\<lambda>c. c \<noteq> NUL) v) + inc"
  have rng: "LLONG_MIN \<le> ?x" "?x \<le> LLONG_MAX" using Cons.prems(6) by simp_all
  obtain v' where v': "incr_value (m_val m) v inc = Some (1, Some (v', ?x))"
    using Cons.prems(3-5) rng by (cases "length v < 24") (auto simp: incr_value_def Let_def)
  note st = incr_value_stored [OF v']
  let ?xss = "xss[?i := lru_replace key v' (xss ! ?i)]"
  have step: "lru_step (CIncr m key inc) (cl, xss) = Some (RNum 1 (Some ?x), (cl, ?xss))"
    using Cons.prems(2) v' by (simp add: lru_step_def Let_def)
  have "lru_find key (?xss ! bucket (length ?xss) key) = Some (v', ex)"
    using Cons.prems(1,2) by (simp add: lru_find_replace)
  from Cons.IH [OF _ this st(2,3) Cons.prems(5)] Cons.prems(1,6) st(1) step show ?case by auto
qed

lemma lru_run_shape:
  "run_ops lru_step ops (cl, xss) = Some (rs, a) \<Longrightarrow> \<exists>xss'. a = (cl, xss') \<and> length xss' = length xss"
proof (induction ops arbitrary: xss rs)
  case Nil
  then show ?case by auto
next
  case (Cons x xs)
  then obtain r a1 rs1 where x: "lru_step x (cl, xss) = Some (r, a1)" "run_ops lru_step xs a1 = Some (rs1, a)"
    by (auto split: prod.splits)
  then obtain xss1 where "a1 = (cl, xss1)" "length xss1 = length xss"
    by (auto simp: lru_step_def Let_def split: prod.splits)
  with Cons.IH x(2) show ?case by metis
qed

lemma run_ok_incrs: "run_ok cache_step fresh_alloc (map (CIncr m key) incs) s"
  by (induction incs arbitrary: s) (auto split: option.splits)

section \<open>Properties\<close>

text \<open>
  C24. Every sequence of \<open>cache_get\<close>, \<open>cache_set\<close>, \<open>cache_del\<close>, \<open>cache_cas\<close> and \<open>cache_incr\<close> on
  the linked chains returns what the per-chain least-recently-set lists return and leaves the
  chains holding those lists, whenever \<open>malloc\<close> hands out unused blocks; no pointer of the
  cache is dangling and no entry is leaked.
\<close>

theorem cache_refines_lru:
  assumes "cache_rep s a" "run_ok cache_step fresh_alloc ops s" "run_ops lru_step ops a = Some (rs, a')"
  shows "\<exists>s'. run_ops cache_step ops s = Some (rs, s') \<and> cache_rep s' a'"
  using assms by (rule lru.run_sim)

definition demo_cache :: cache where
  "demo_cache = \<lparr>c_numobjs = 4, c_flags = 0, c_hashlen = 1, c_chainlen = 4,
                 c_table = [\<lparr>cc_len = 0, cc_first = None, cc_last = None\<rparr>]\<rparr>"

definition demo_malloc :: "addr \<Rightarrow> mallocs" where
  "demo_malloc a = \<lparr>m_entry = Some a, m_key = True, m_val = True\<rparr>"

lemma demo_create: "cache_create True True 4 0 = Some demo_cache"
  by (simp add: cache_create_def demo_cache_def)

lemma demo_rep: "cache_rep (demo_cache, Map.empty) (4, [[]])"
  using cache_create_rep [OF _ demo_create] by simp

lemma bucket_1 [simp]: "bucket (Suc 0) key = 0"
  by (simp add: bucket_def)

lemma run_ok_set_get:
  "m_entry m = Some a \<Longrightarrow> h a = None \<Longrightarrow>
     run_ok cache_step fresh_alloc [CSet m now k v t, CGet now' k'] (cd, h)"
  by (auto split: option.splits)

theorem cache_refines_lru_witness:
  "\<exists>s'. run_ops cache_step [CSet (demo_malloc 7) 100 ''k'' ''v'' 5, CGet 105 ''k''] (demo_cache, Map.empty)
        = Some ([RCode 1, RVal 1 (Some ''v'')], s') \<and> cache_rep s' (4, [[(''k'', ''v'', 105)]])"
  using cache_refines_lru [OF demo_rep run_ok_set_get, of "demo_malloc 7" 7 100 "''k''" "''v''" 5 105 "''k''"]
  by (simp add: demo_malloc_def lru_step_def lru_find_def)

text \<open>
  C25. A lookup never returns a stale or foreign value: in any run from a fresh cache, what
  \<open>cache_get\<close> returns is the value last written to that key and not deleted since.
\<close>

theorem cache_coherent:
  assumes "cache_create True True n f = Some cd" "4 \<le> n"
    and "run_ok cache_step fresh_alloc (ops @ [CGet now key]) (cd, Map.empty)"
    and "run_ops cache_step (ops @ [CGet now key]) (cd, Map.empty) = Some (rs @ [RVal 1 (Some v)], s)"
    and "length rs = length ops"
  shows "known ops rs key = Some v"
proof -
  have rep: "cache_rep (cd, Map.empty) (4, replicate (n div 4) [])"
    using assms(1,2) by (intro cache_create_rep)
  obtain s1 where s1: "run_ops cache_step ops (cd, Map.empty) = Some (rs, s1)"
    "cache_step (CGet now key) s1 = Some (RVal 1 (Some v), s)"
    using assms(4) by (auto simp: run_ops_append split: prod.splits)
  have "run_ok cache_step fresh_alloc ops (cd, Map.empty)"
    using assms(3) by (rule run_ok_prefix)
  with rep s1(1) obtain a where a: "cache_rep s1 a" "agrees a (known ops rs)"
    using run_agrees [of _ _ ops rs s1 Map.empty] by (fastforce simp: agrees_def known_def)
  obtain cl xss where xss: "a = (cl, xss)" by (cases a)
  let ?i = "bucket (length xss) key"
  have i: "?i < length xss" using cache_rep_lru_inv [OF a(1)] by (simp add: xss lru_inv_def)
  have "lru_step (CGet now key) a \<noteq> None" by (simp add: lru_step_def xss Let_def split: prod.split)
  then obtain r a' where r: "lru_step (CGet now key) a = Some (r, a')" by auto
  have "r = RVal 1 (Some v)" using cache_step_sim [OF a(1) _ r] s1(2) by fastforce
  then have "\<exists>ex. lru_find key (xss ! ?i) = Some (v, ex)"
    using r by (auto simp: lru_step_def xss Let_def split: option.splits if_splits)
  then show ?thesis using a(2) i by (fastforce simp: lru_find_def xss agrees_def dest: map_of_SomeD)
qed

theorem cache_coherent_witness:
  "known [CSet (demo_malloc 7) 0 ''k'' ''v'' 0] [RCode 1] ''k'' = Some ''v''"
proof -
  have ok: "run_ok cache_step fresh_alloc ([CSet (demo_malloc 7) 0 ''k'' ''v'' 0] @ [CGet 9 ''k'']) (demo_cache, Map.empty)"
    using run_ok_set_get [of "demo_malloc 7" 7] by (simp add: demo_malloc_def)
  obtain s where "run_ops cache_step ([CSet (demo_malloc 7) 0 ''k'' ''v'' 0] @ [CGet 9 ''k'']) (demo_cache, Map.empty)
      = Some ([RCode 1] @ [RVal 1 (Some ''v'')], s)"
    using lru.run_sim [OF demo_rep ok]
    by (simp add: demo_malloc_def lru_step_def lru_find_def) blast
  from cache_coherent [OF demo_create _ ok this] show ?thesis by simp
qed



text \<open>
  A successful \<open>cache_set\<close> is seen by the next \<open>cache_get\<close>, unless the entry's expiry time
  has passed. The expiry of a new key is \<open>g_ctime + timeout\<close> (none for timeout 0); setting a key
  that is already cached keeps its old expiry, whatever the new timeout.
\<close>

theorem cache_get_after_set:
  assumes "cache_rep s (cl, xss)" "m_entry m = Some a" "snd s a = None" "m_key m" "m_val m"
    and "ex = (case lru_find key (xss ! bucket (length xss) key) of
           None \<Rightarrow> if timeout = 0 then 0 else now + timeout | Some (_, old) \<Rightarrow> old)"
  shows "\<exists>s'. run_ops cache_step [CSet m now key v timeout, CGet now' key] s =
     Some ([RCode 1, if ex > 0 \<and> ex < now' then RVal 0 None else RVal 1 (Some v)], s')"
proof -
  let ?i = "bucket (length xss) key"
  have i: "?i < length xss" using cache_rep_lru_inv [OF assms(1)] by (simp add: lru_inv_def)
  have ok: "run_ok cache_step fresh_alloc [CSet m now key v timeout, CGet now' key] s"
    using assms(2,3) run_ok_set_get by (cases s) fastforce
  obtain zs where "run_ops lru_step [CSet m now key v timeout] (cl, xss) = Some ([RCode 1], (cl, xss[?i := (key, v, ex) # zs]))"
    using assms(2,4-6) by (cases "lru_find key (xss ! ?i)") (auto simp: lru_step_def Let_def)
  then have "\<exists>a'. run_ops lru_step [CSet m now key v timeout, CGet now' key] (cl, xss) =
      Some ([RCode 1, if ex > 0 \<and> ex < now' then RVal 0 None else RVal 1 (Some v)], a')"
    using i by (auto simp: lru_step_def lru_find_def split: prod.splits)
  with lru.run_sim [OF assms(1) ok] show ?thesis by blast
qed

theorem cache_get_after_set_witness:
  "\<exists>s'. run_ops cache_step [CSet (demo_malloc 7) 100 ''k'' ''v'' 5, CGet 106 ''k''] (demo_cache, Map.empty)
        = Some ([RCode 1, RVal 0 None], s')"
  using cache_get_after_set [OF demo_rep, where m = "demo_malloc 7" and a = 7 and ex = 105 and key = "''k''"
      and timeout = 5 and now = 100 and v = "''v''" and now' = 106]
  by (simp add: demo_malloc_def lru_find_def)

text \<open>
  Counters: on a cached value that is a NUL-terminated decimal, a sequence of \<open>cache_incr\<close>
  calls returns exactly the running sums, as long as none leaves the 64-bit range; in particular
  the text \<open>cache_incr\<close> stores is read back as the number it returned.
\<close>

theorem cache_incr_sums:
  assumes "cache_rep s (cl, xss)" "lru_find key (xss ! bucket (length xss) key) = Some (v, ex)"
    and "v \<noteq> []" "last v = NUL" "m_val m"
    and "\<forall>x \<in> set (partial_sums (strtoll (takeWhile (\<lambda>c. c \<noteq> NUL) v)) incs). LLONG_MIN \<le> x \<and> x \<le> LLONG_MAX"
  shows "\<exists>s'. run_ops cache_step (map (CIncr m key) incs) s =
     Some (map (\<lambda>x. RNum 1 (Some x)) (partial_sums (strtoll (takeWhile (\<lambda>c. c \<noteq> NUL) v)) incs), s')"
proof -
  have "0 < length xss" using cache_rep_lru_inv [OF assms(1)] by (simp add: lru_inv_def)
  from lru_incr_run [OF this assms(2-6)] lru.run_sim [OF assms(1) run_ok_incrs] show ?thesis by blast
qed

definition demo_heap1 :: cheap where
  "demo_heap1 = [7 \<mapsto> \<lparr>ce_key = ''n'', ce_val = ''41'' @ [NUL], ce_expire = 0, ce_prev = None, ce_next = None\<rparr>]"

definition demo_cache1 :: cache where
  "demo_cache1 = demo_cache\<lparr>c_table := [\<lparr>cc_len = 1, cc_first = Some 7, cc_last = Some 7\<rparr>]\<rparr>"

lemma demo_rep1: "cache_rep (demo_cache1, demo_heap1) (4, [[(''n'', ''41'' @ [NUL], 0)]])"
  by (auto simp: cache_rep_def demo_cache1_def demo_cache_def demo_heap1_def table_rep_def chain_rep_def
        chain_inv_def entry_data_def intro!: exI [of _ "[[7]]"])

lemma demo_read: "strtoll (takeWhile (\<lambda>c. c \<noteq> NUL) (''41'' @ [NUL])) = 41"
  by code_simp

theorem cache_incr_sums_witness:
  "\<exists>s'. run_ops cache_step (map (CIncr (demo_malloc 8) ''n'') [1, 100, -2]) (demo_cache1, demo_heap1)
        = Some ([RNum 1 (Some 42), RNum 1 (Some 142), RNum 1 (Some 140)], s')"
  using cache_incr_sums [OF demo_rep1, of "''n''" "''41'' @ [NUL]" 0 "demo_malloc 8" "[1, 100, -2]"]
  unfolding demo_read by (simp add: lru_find_def demo_malloc_def)

text \<open>
  \<open>cache_free\<close> terminates and frees every entry of the cache exactly once: no entry of the
  cache's heap is left.
\<close>

theorem cache_free_all:
  assumes "cache_rep (cd, h) a"
  shows "cache_free (cd, h) = Some (1, Map.empty)"
proof -
  obtain cl xss where a: "a = (cl, xss)" by (cases a)
  from assms obtain ass where t: "table_rep h (c_table cd) ass" and hl: "c_hashlen cd = length ass"
    unfolding cache_rep_def a by fastforce
  then have len: "c_hashlen cd = length (c_table cd)" by (simp add: table_rep_def)
  have "list_all2 (chain_rep h) (c_table cd) ass" "sorted_wrt (\<lambda>a b. set a \<inter> set b = {}) ass"
    using t by (auto simp: table_rep_def list_all2_conv_all_nth sorted_wrt_iff_nth_less)
  moreover have "dom h = (\<Union>a \<in> set ass. set a)"
    using t by (auto simp: table_rep_def set_conv_nth)
  ultimately have "table_free (c_table cd) h = Some Map.empty"
    by (subst table_free_rep) (auto simp: restrict_map_def fun_eq_iff)
  with len show ?thesis by (simp add: cache_free_def)
qed

theorem cache_free_all_witness: "cache_free (demo_cache1, demo_heap1) = Some (1, Map.empty)"
  using cache_free_all [OF demo_rep1] .

end
