(* ===== verification/Plugin_Base.thy ===== *)
theory Plugin_Base
  imports Server_System Server_Cache Neo_Hash Neo_Err
begin

text \<open>
  What every plugin is made of: the cache commands (server/syscmd.c), the table of users and the
  messages to users (plugin/private/base_internal.c), and the plugin \<open>base\<close> itself
  (plugin/moc_base.c).

  A command works on a \<open>job\<close>: the plugin's state, the queue entry's data and the rest of the server.
  Users are structures on a heap of their own; the table and the \<open>appdata\<close> of a connection point to
  them, and a pointer to a freed user or to the freed cache is an address whose use is \<open>None\<close>. The
  library functions \<open>mcs_err_valid\<close> and \<open>mcs_set_int_value_with_type\<close> are not part of the program:
  they are the record \<open>mcs\<close> of parameters.
\<close>

section \<open>Data\<close>

record plugin_stats =
  st_total :: u64
  st_unrec :: u64
  st_badparam :: u64
  st_stats :: u64
  st_suc :: u64
  st_fai :: u64

record base_user =
  bu_uid :: string
  bu_fd :: int
  bu_sock :: addr

record base_info =
  bi_usernum :: int
  bi_userh :: "(string, addr) ne_hash"

record plugin =
  p_cache :: "cstate option"
  p_cache_freed :: bool
  p_stats :: plugin_stats
  p_info :: base_info
  p_users :: "addr \<Rightarrow> base_user option"
  p_appdata :: "addr \<Rightarrow> addr option"
  p_next :: addr
  p_ctime :: int

record job =
  jb_plugin :: plugin
  jb_q :: qdata
  jb_world :: world

record mcs =
  mcs_err_valid :: "neoerr \<Rightarrow> err_frame option"
  mcs_set_int_value_with_type :: "hdf \<Rightarrow> string \<Rightarrow> int \<Rightarrow> hdf"
  mcs_errors :: "string list option"

abbreviation (input) REQ_CMD_CACHE_GET :: u32 where "REQ_CMD_CACHE_GET \<equiv> 100"
abbreviation (input) REQ_CMD_CACHE_SET :: u32 where "REQ_CMD_CACHE_SET \<equiv> 101"
abbreviation (input) REQ_CMD_CACHE_DEL :: u32 where "REQ_CMD_CACHE_DEL \<equiv> 102"
abbreviation (input) REQ_CMD_CACHE_EMPTY :: u32 where "REQ_CMD_CACHE_EMPTY \<equiv> 103"
abbreviation (input) REQ_CMD_STATS :: u32 where "REQ_CMD_STATS \<equiv> 1000"
abbreviation (input) REQ_CMD_BASE_JOIN :: u32 where "REQ_CMD_BASE_JOIN \<equiv> 1001"
abbreviation (input) REQ_CMD_BASE_QUIT :: u32 where "REQ_CMD_BASE_QUIT \<equiv> 1002"

text \<open>\<open>nerr_raise\<close> and \<open>nerr_pass\<close> with the place they are written at.\<close>

definition raise_at :: "string \<Rightarrow> string \<Rightarrow> int \<Rightarrow> int \<Rightarrow> string \<Rightarrow> neoerr" where
  "raise_at func file line code msg = nerr_raisef True func file line code msg"

definition pass_at :: "string \<Rightarrow> string \<Rightarrow> int \<Rightarrow> neoerr \<Rightarrow> neoerr" where
  "pass_at func file line err = nerr_passf True func file line err"

definition set_snd :: "string \<Rightarrow> string \<Rightarrow> job \<Rightarrow> job option" where
  "set_snd name val j = do {
     (r, hdf) \<leftarrow> hdf_set_value (qd_hdfsnd (jb_q j)) [] name (Some val);
     Some (j\<lparr>jb_q := (jb_q j)\<lparr>qd_hdfsnd := hdf\<rparr>\<rparr>) }"

definition set_rcv :: "string \<Rightarrow> string \<Rightarrow> job \<Rightarrow> job option" where
  "set_rcv name val j = do {
     (r, hdf) \<leftarrow> hdf_set_value (qd_hdfrcv (jb_q j)) [] name (Some val);
     Some (j\<lparr>jb_q := (jb_q j)\<lparr>qd_hdfrcv := hdf\<rparr>\<rparr>) }"

definition in_world :: "(world \<Rightarrow> world) \<Rightarrow> job \<Rightarrow> job" where
  "in_world f j = j\<lparr>jb_world := f (jb_world j)\<rparr>"

section \<open>Cache commands\<close>

text \<open>The \<open>done\<close> part of the cache commands that answer with a status.\<close>

definition cache_done :: "bool \<Rightarrow> neoerr \<Rightarrow> job \<Rightarrow> neoerr \<times> job" where
  "cache_done reply err j =
     (err, if reply then in_world (tcp_reply_mini (qd_req (jb_q j)) 1) j else j)"

definition the_cache :: "job \<Rightarrow> cstate option option" where
  "the_cache j = (if p_cache_freed (jb_plugin j) then None else Some (p_cache (jb_plugin j)))"

definition put_cache :: "cstate option \<Rightarrow> job \<Rightarrow> job" where
  "put_cache c j = j\<lparr>jb_plugin := (jb_plugin j)\<lparr>p_cache := c\<rparr>\<rparr>"

definition sys_cmd_cache_get :: "bool \<Rightarrow> job \<Rightarrow> (neoerr \<times> job) option" where
  "sys_cmd_cache_get reply j = do {
     cd \<leftarrow> the_cache j;
     (case cd of
        None \<Rightarrow> Some (cache_done reply (raise_at ''sys_cmd_cache_get'' ''syscmd.c'' 56 REP_ERR ''param null'') j)
      | Some cd \<Rightarrow> do {
          key \<leftarrow> hdf_get_value (qd_hdfrcv (jb_q j)) [] (Some ''cachekey'') None;
          (case key of
             None \<Rightarrow> Some (cache_done reply (raise_at ''sys_cmd_cache_get'' ''syscmd.c'' 62 REP_ERR_BADPARAM ''need cachekey'') j)
           | Some key \<Rightarrow> do {
               ((r, val), cd') \<leftarrow> cache_get (p_ctime (jb_plugin j)) key cd;
               let j1 = put_cache (Some cd') j;
               if r = 0 then
                 Some (cache_done reply (raise_at ''sys_cmd_cache_get'' ''syscmd.c'' 67 REP_ERR_CACHE_MISS (''miss '' @ key)) j1)
               else if reply then Some (STATUS_OK, in_world (tcp_reply_long (qd_req (jb_q j)) 1 val) j1)
               else (case val of
                  None \<Rightarrow> Some (STATUS_OK, j1)
                | Some v \<Rightarrow>
                    if v = [] then Some (STATUS_OK, j1)
                    else do { s \<leftarrow> rdcstr v 0; j2 \<leftarrow> set_snd ''cacheval'' s j1; Some (STATUS_OK, j2) }) }) }) }"

text \<open>The three allocations of \<open>cache_set\<close>, from the state's outcomes.\<close>

definition cache_mallocs :: "job \<Rightarrow> mallocs \<times> job" where
  "cache_mallocs j =
     (let (ok1, w1) = malloc_ok (jb_world j);
          (ok2, w2) = (if ok1 then malloc_ok w1 else (False, w1));
          (ok3, w3) = (if ok2 then malloc_ok w2 else (False, w2)) in
      (\<lparr>m_entry = (if ok1 then Some (p_next (jb_plugin j)) else None), m_key = ok2, m_val = ok3\<rparr>,
       j\<lparr>jb_world := w3, jb_plugin := (jb_plugin j)\<lparr>p_next := p_next (jb_plugin j) + 1\<rparr>\<rparr>))"

definition sys_cmd_cache_set :: "bool \<Rightarrow> job \<Rightarrow> (neoerr \<times> job) option" where
  "sys_cmd_cache_set reply j = do {
     cd \<leftarrow> the_cache j;
     (case cd of
        None \<Rightarrow> Some (cache_done reply (raise_at ''sys_cmd_cache_set'' ''syscmd.c'' 94 REP_ERR ''param null'') j)
      | Some cd \<Rightarrow> do {
          key \<leftarrow> hdf_get_value (qd_hdfrcv (jb_q j)) [] (Some ''cachekey'') None;
          (case key of
             None \<Rightarrow> Some (cache_done reply (raise_at ''sys_cmd_cache_set'' ''syscmd.c'' 100 REP_ERR_BADPARAM ''need cachekey'') j)
           | Some key \<Rightarrow> do {
               node \<leftarrow> hdf_get_obj (qd_hdfrcv (jb_q j)) [] (Some ''cacheval'');
               (case node of
                  None \<Rightarrow> Some (cache_done reply (raise_at ''sys_cmd_cache_set'' ''syscmd.c'' 106 REP_ERR_BADPARAM ''need cacheval'') j)
                | Some p \<Rightarrow> do {
                    v \<leftarrow> hdf_obj_value (qd_hdfrcv (jb_q j)) (Some p);
                    val \<leftarrow> v;
                    let (m, j1) = cache_mallocs j;
                    (r, cd') \<leftarrow> cache_set m (p_ctime (jb_plugin j)) key (val @ [NUL]) 0 cd;
                    Some (cache_done reply STATUS_OK (put_cache (Some cd') j1)) }) }) }) }"

definition sys_cmd_cache_del :: "bool \<Rightarrow> job \<Rightarrow> (neoerr \<times> job) option" where
  "sys_cmd_cache_del reply j = do {
     cd \<leftarrow> the_cache j;
     (case cd of
        None \<Rightarrow> Some (cache_done reply (raise_at ''sys_cmd_cache_del'' ''syscmd.c'' 130 REP_ERR ''param null'') j)
      | Some cd \<Rightarrow> do {
          key \<leftarrow> hdf_get_value (qd_hdfrcv (jb_q j)) [] (Some ''cachekey'') None;
          (case key of
             None \<Rightarrow> Some (cache_done reply (raise_at ''sys_cmd_cache_del'' ''syscmd.c'' 136 REP_ERR_BADPARAM ''need cachekey'') j)
           | Some key \<Rightarrow> do {
               (r, cd') \<leftarrow> cache_del key cd;
               Some (cache_done reply STATUS_OK (put_cache (Some cd') j)) }) }) }"

definition sys_cmd_cache_empty :: "bool \<Rightarrow> job \<Rightarrow> (neoerr \<times> job) option" where
  "sys_cmd_cache_empty reply j = do {
     cd \<leftarrow> the_cache j;
     (case cd of
        None \<Rightarrow> Some (cache_done reply (raise_at ''sys_cmd_cache_empty'' ''syscmd.c'' 155 REP_ERR ''param null'') j)
      | Some cd \<Rightarrow> do {
          (r, h) \<leftarrow> cache_free cd;
          let (ok1, w1) = malloc_ok (jb_world j);
          let (ok2, w2) = (if ok1 then malloc_ok w1 else (False, w1));
          Some (cache_done reply STATUS_OK (put_cache (map_option (\<lambda>c. (c, h)) (cache_create ok1 ok2 (c_numobjs (fst cd)) 0)) (j\<lparr>jb_world := w2\<rparr>))) }) }"

section \<open>Users\<close>

definition base_info_init :: "bool \<Rightarrow> bool \<Rightarrow> base_info option" where
  "base_info_init info_ok hash_ok =
     (if \<not> info_ok then None
      else case ne_hash_init hash_ok hash_ok ne_hash_str_hash (Some ne_hash_str_comp) of
        Inl e \<Rightarrow> None
      | Inr h \<Rightarrow> Some \<lparr>bi_usernum = 0, bi_userh = h\<rparr>)"

definition base_user_find :: "plugin \<Rightarrow> string \<Rightarrow> addr option option" where
  "base_user_find p uid = ne_hash_lookup uid (bi_userh (p_info p))"

definition base_user_new :: "string \<Rightarrow> job \<Rightarrow> job option" where
  "base_user_new uid j = do {
     let p = jb_plugin j;
     let req = qd_req (jb_q j);
     r \<leftarrow> base_user_find p uid;
     if r \<noteq> None then Some j
     else do {
       s \<leftarrow> w_socks (jb_world j) (rq_sock req);
       let u = p_next p;
       (e, h) \<leftarrow> ne_hash_insert True True uid u (bi_userh (p_info p));
       Some (j\<lparr>jb_plugin := p\<lparr>p_users := (p_users p)(u \<mapsto> \<lparr>bu_uid = uid, bu_fd = rq_fd req, bu_sock = rq_sock req\<rparr>),
                              p_appdata := (p_appdata p)(rq_sock req \<mapsto> u), p_next := u + 1,
                              p_info := \<lparr>bi_usernum = bi_usernum (p_info p) + 1, bi_userh = h\<rparr>\<rparr>,
               jb_world := (jb_world j)\<lparr>w_socks := (w_socks (jb_world j))(rq_sock req \<mapsto> s\<lparr>sk_on_close := True\<rparr>)\<rparr>\<rparr>) } }"

definition base_user_destroy :: "addr \<Rightarrow> plugin \<Rightarrow> plugin option" where
  "base_user_destroy u p = do {
     user \<leftarrow> p_users p u;
     (r, h) \<leftarrow> ne_hash_remove (bu_uid user) (bi_userh (p_info p));
     Some (p\<lparr>p_users := (p_users p)(u := None),
             p_info := \<lparr>bi_usernum = (if bi_usernum (p_info p) > 0 then bi_usernum (p_info p) - 1 else bi_usernum (p_info p)),
                        bi_userh = h\<rparr>\<rparr>) }"

text \<open>
  \<open>tcp_socket_remove_ref\<close> called by a plugin: when it frees the connection, the callback the
  connection has destroys the user its \<open>appdata\<close> points to.
\<close>

definition plugin_remove_ref :: "addr \<Rightarrow> job \<Rightarrow> job option" where
  "plugin_remove_ref a j = do {
     s \<leftarrow> w_socks (jb_world j) a;
     w \<leftarrow> tcp_socket_remove_ref a (jb_world j);
     if w_socks w a = None \<and> sk_on_close s then do {
       u \<leftarrow> p_appdata (jb_plugin j) a;
       p \<leftarrow> base_user_destroy u (jb_plugin j);
       Some (j\<lparr>jb_world := w, jb_plugin := p\<lparr>p_appdata := (p_appdata p)(a := None)\<rparr>\<rparr>) }
     else Some (j\<lparr>jb_world := w\<rparr>) }"

text \<open>\<open>with_q\<close> tells whether the caller passes its queue entry.\<close>

definition base_user_quit :: "string \<Rightarrow> bool \<Rightarrow> job \<Rightarrow> (bool \<times> job) option" where
  "base_user_quit uid with_q j = do {
     r \<leftarrow> base_user_find (jb_plugin j) uid;
     (case r of
        None \<Rightarrow> Some (False, j)
      | Some u \<Rightarrow> do {
          user \<leftarrow> p_users (jb_plugin j) u;
          if with_q \<and> rq_sock (qd_req (jb_q j)) = bu_sock user \<and> rq_fd (qd_req (jb_q j)) = bu_fd user then Some (False, j)
          else do { j1 \<leftarrow> plugin_remove_ref (bu_sock user) j; Some (True, j1) } }) }"

text \<open>The loop of \<open>base_info_destroy\<close> removes users while it walks the table.\<close>

partial_function (option) destroy_users :: "string option \<Rightarrow> plugin \<Rightarrow> plugin option" where
  [code]: "destroy_users key p = do {
     r \<leftarrow> ne_hash_next key (bi_userh (p_info p));
     (case snd r of
        None \<Rightarrow> Some p
      | Some u \<Rightarrow> do { p1 \<leftarrow> base_user_destroy u p; destroy_users (fst r) p1 }) }"

definition base_info_destroy :: "plugin \<Rightarrow> plugin option" where
  "base_info_destroy p = destroy_users None p"

section \<open>Messages to users\<close>

text \<open>
  \<open>base_msg_new\<close> on the node at \<open>path\<close> of a tree: the message, or the error, with the changed tree.
  The message has id 0 and the reply code 10000, by which the client tells it from a reply.
\<close>

definition push_bytes :: "bytes \<Rightarrow> bytes" where
  "push_bytes val = be32 (of_nat (16 + length val)) @ be32 0 @ be32 10000 @ be32 (of_nat (length val)) @ val"

definition base_msg_new :: "string \<Rightarrow> hdf \<Rightarrow> path \<Rightarrow> world \<Rightarrow> ((neoerr + bytes) \<times> hdf \<times> world) option" where
  "base_msg_new cmd root path w = do {
     (r, root1) \<leftarrow> hdf_set_value root path ''_Reserve'' (Some ''moc'');
     (r, root2) \<leftarrow> hdf_set_attr root1 path (Some ''_Reserve'') ''cmd'' (Some cmd);
     (case r of
        Inl e \<Rightarrow> Some (Inl (pass_at ''base_msg_new'' ''base_internal.c'' 163 (raise_at ''hdf_set_attr'' ''neo_hdf.c'' 0 e [])), root2, w)
      | Inr _ \<Rightarrow> do {
          node \<leftarrow> node_at root2 path;
          (vsize, buf) \<leftarrow> pack_hdf (w_rnd w) node (replicate MAX_PACKET_LEN NUL) MAX_PACKET_LEN;
          if vsize = 0 then Some (Inl (raise_at ''base_msg_new'' ''base_internal.c'' 168 NERR_ASSERT ''packet error''), root2, w)
          else
            let (ok, w1) = malloc_ok w in
            if \<not> ok then Some (Inl (raise_at ''base_msg_new'' ''base_internal.c'' 175 NERR_NOMEM ''alloc msg buffer''), root2, w1)
            else Some (Inr (push_bytes (take vsize buf)), root2, w1) }) }"

text \<open>
  The loop of \<open>base_msg_send\<close> at position \<open>c\<close>. The result of \<open>send\<close> is stored in an unsigned
  \<open>size_t\<close>, so an error is not recognised: \<open>-1\<close> is added to the position, modulo \<open>2 ^ 64\<close>.
\<close>

function msg_send_loop :: "int \<Rightarrow> bytes \<Rightarrow> nat \<Rightarrow> world \<Rightarrow> world" where
  "msg_send_loop fd buf c w =
     (if c \<ge> length buf then w
      else
        let rv = fst (do_send fd (drop c buf) w); w1 = snd (do_send fd (drop c buf) w) in
        if rv = int (length buf) \<or> rv = 0 then w1
        else if rv < 0 then msg_send_loop fd buf ((c + 2 ^ 64 - 1) mod 2 ^ 64) w1
        else msg_send_loop fd buf (c + nat rv) w1)"
  by auto
termination
proof (relation "measures [\<lambda>(fd, buf, c, w). length (w_sends w), \<lambda>(fd, buf, c, w). length buf - c]", goal_cases)
  case 1
  then show ?case by simp
next
  case (2 fd buf c w rv w1)
  then show ?case using do_send_answers(2) [of fd "drop c buf" w] by simp
next
  case (3 fd buf c w rv w1)
  then have "length buf - (c + nat rv) < length buf - c" by auto
  then show ?case using 3(3) do_send_answers(1) [of fd "drop c buf" w] by (auto simp: less_le)
qed

declare msg_send_loop.simps [simp del]

definition fd_illegal :: string where
  "fd_illegal = ''fd '' @ map char_of [0xe9, 0x9d, 0x9e, 0xe6, 0xb3, 0x95 :: nat]"

definition base_msg_send :: "bytes \<Rightarrow> int \<Rightarrow> world \<Rightarrow> neoerr \<times> world" where
  "base_msg_send buf fd w =
     (if fd \<le> 0 then (raise_at ''base_msg_send'' ''base_internal.c'' 201 NERR_ASSERT fd_illegal, w)
      else (STATUS_OK, msg_send_loop fd buf 0 w))"

definition base_msg_touser :: "string \<Rightarrow> hdf \<Rightarrow> int \<Rightarrow> world \<Rightarrow> (neoerr \<times> hdf \<times> world) option" where
  "base_msg_touser cmd datanode fd w = do {
     (r, hdf, w1) \<leftarrow> base_msg_new cmd datanode [] w;
     (case r of
        Inl err \<Rightarrow> Some (pass_at ''base_msg_touser'' ''base_internal.c'' 242 err, hdf, w1)
      | Inr buf \<Rightarrow>
          let (err, w2) = base_msg_send buf fd w1 in
          Some (if err \<noteq> STATUS_OK then pass_at ''base_msg_touser'' ''base_internal.c'' 245 err else STATUS_OK, hdf, w2)) }"

section \<open>The plugin base\<close>

definition get_param_str :: "string \<Rightarrow> job \<Rightarrow> string option option" where
  "get_param_str key j = do {
     v \<leftarrow> hdf_get_value (qd_hdfrcv (jb_q j)) [] (Some key) None;
     Some (case v of None \<Rightarrow> None | Some s \<Rightarrow> if s = [] then None else Some s) }"

definition is_sync :: "job \<Rightarrow> bool" where
  "is_sync j \<longleftrightarrow> rq_flags (qd_req (jb_q j)) AND FLAGS_SYNC \<noteq> 0"

definition touser_snd :: "string \<Rightarrow> job \<Rightarrow> (neoerr \<times> job) option" where
  "touser_snd cmd j = do {
     (err, hdf, w) \<leftarrow> base_msg_touser cmd (qd_hdfsnd (jb_q j)) (rq_fd (qd_req (jb_q j))) (jb_world j);
     Some (err, j\<lparr>jb_q := (jb_q j)\<lparr>qd_hdfsnd := hdf\<rparr>, jb_world := w\<rparr>) }"

definition base_cmd_join :: "job \<Rightarrow> (neoerr \<times> job) option" where
  "base_cmd_join j = do {
     uid \<leftarrow> get_param_str ''userid'' j;
     (case uid of
        None \<Rightarrow> Some (raise_at ''base_cmd_join'' ''moc_base.c'' 12 REP_ERR_BADPARAM ''need userid'', j)
      | Some uid \<Rightarrow> do {
          (r, j1) \<leftarrow> base_user_quit uid True j;
          j2 \<leftarrow> base_user_new uid j1;
          j3 \<leftarrow> set_snd ''success'' ''1'' j2;
          if is_sync j3 then Some (STATUS_OK, j3)
          else do {
            (err, j4) \<leftarrow> touser_snd ''login'' j3;
            Some (pass_at ''base_cmd_join'' ''moc_base.c'' 21 err, j4) } }) }"

definition base_cmd_quit :: "job \<Rightarrow> (neoerr \<times> job) option" where
  "base_cmd_quit j = do {
     uid \<leftarrow> get_param_str ''userid'' j;
     (case uid of
        None \<Rightarrow> Some (raise_at ''base_cmd_quit'' ''moc_base.c'' 32 REP_ERR_BADPARAM ''need userid'', j)
      | Some uid \<Rightarrow> do {
          (r, j1) \<leftarrow> base_user_quit uid False j;
          j2 \<leftarrow> set_snd ''success'' ''1'' j1;
          if is_sync j2 then Some (STATUS_OK, j2)
          else do {
            (err, j3) \<leftarrow> touser_snd ''logout'' j2;
            Some (pass_at ''base_cmd_quit'' ''moc_base.c'' 40 err, j3) } }) }"

definition bump :: "(plugin_stats \<Rightarrow> plugin_stats) \<Rightarrow> job \<Rightarrow> job" where
  "bump f j = j\<lparr>jb_plugin := (jb_plugin j)\<lparr>p_stats := f (p_stats (jb_plugin j))\<rparr>\<rparr>"

text \<open>\<open>REQ_CMD_STATS\<close>, the same in every plugin.\<close>

definition cmd_stats :: "job \<Rightarrow> (neoerr \<times> job) option" where
  "cmd_stats j = do {
     let j1 = bump (\<lambda>s. s\<lparr>st_stats := st_stats s + 1\<rparr>) j;
     let st = p_stats (jb_plugin j1);
     hdf \<leftarrow> set_ints [(''msg_total'', st_total st), (''msg_unrec'', st_unrec st), (''msg_badparam'', st_badparam st),
       (''msg_stats'', st_stats st), (''proc_suc'', st_suc st), (''proc_fai'', st_fai st)] (qd_hdfsnd (jb_q j1));
     Some (STATUS_OK, j1\<lparr>jb_q := (jb_q j1)\<lparr>qd_hdfsnd := hdf\<rparr>\<rparr>) }"

definition cmd_unknown :: "string \<Rightarrow> string \<Rightarrow> int \<Rightarrow> job \<Rightarrow> (neoerr \<times> job) option" where
  "cmd_unknown func file line j =
     Some (raise_at func file line REP_ERR_UNKREQ (''unknown command '' @ show_nat (unat (qd_operation (jb_q j)))),
           bump (\<lambda>s. s\<lparr>st_unrec := st_unrec s + 1\<rparr>) j)"

text \<open>\<open>CASE_SYS_CMD\<close>: the cache commands, for plugins that have no answer of their own.\<close>

definition case_sys_cmd :: "job \<Rightarrow> (job \<Rightarrow> (neoerr \<times> job) option) \<Rightarrow> (neoerr \<times> job) option" where
  "case_sys_cmd j other =
     (let op = qd_operation (jb_q j) in
      if op = REQ_CMD_CACHE_GET then sys_cmd_cache_get False j
      else if op = REQ_CMD_CACHE_SET then sys_cmd_cache_set False j
      else if op = REQ_CMD_CACHE_DEL then sys_cmd_cache_del False j
      else if op = REQ_CMD_CACHE_EMPTY then sys_cmd_cache_empty False j
      else other j)"

text \<open>\<open>TRACE_ERR\<close>: the traceback, code and message of the error go into the reply data.\<close>

definition trace_err :: "mcs \<Rightarrow> neoerr \<Rightarrow> job \<Rightarrow> job option" where
  "trace_err m err j = do {
     j1 \<leftarrow> set_snd ''Output.errtrace'' (nerr_error_traceback (mcs_errors m) err []) j;
     neede \<leftarrow> mcs_err_valid m err;
     let j2 = j1\<lparr>jb_q := (jb_q j1)\<lparr>qd_hdfsnd := mcs_set_int_value_with_type m (qd_hdfsnd (jb_q j1)) ''Output.errcode'' (e_error neede)\<rparr>\<rparr>;
     set_snd ''Output.errmsg'' (e_desc neede) j2 }"

text \<open>
  The end of every \<open>process_driver\<close>: the code of the error, counters, the error message to the user
  (only \<open>base\<close> sends one for an asynchronous request), and the reply to a synchronous request.
\<close>

definition finish_request :: "mcs \<Rightarrow> bool \<Rightarrow> neoerr \<Rightarrow> job \<Rightarrow> job option" where
  "finish_request m tell_error err j = do {
     let ret = (case mcs_err_valid m err of None \<Rightarrow> REP_OK | Some f \<Rightarrow> e_error f);
     j1 \<leftarrow> (if ret \<ge> REP_OK then Some (bump (\<lambda>s. s\<lparr>st_suc := st_suc s + 1\<rparr>) j)
        else do {
          let j1 = bump (\<lambda>s. s\<lparr>st_fai := st_fai s + 1\<rparr>) j;
          let j2 = (if ret = REP_ERR_BADPARAM then bump (\<lambda>s. s\<lparr>st_badparam := st_badparam s + 1\<rparr>) j1 else j1);
          j3 \<leftarrow> trace_err m err j2;
          if tell_error \<and> \<not> is_sync j3 then do { (e, j4) \<leftarrow> touser_snd ''error'' j3; Some j4 } else Some j3 });
     if is_sync j1 then do {
       (r, w) \<leftarrow> reply_trigger (jb_q j1) ret (jb_world j1);
       Some (j1\<lparr>jb_world := w\<rparr>) }
     else Some j1 }"

definition base_process_driver :: "mcs \<Rightarrow> job \<Rightarrow> job option" where
  "base_process_driver m j = do {
     let j0 = bump (\<lambda>s. s\<lparr>st_total := st_total s + 1\<rparr>) j;
     (err, j1) \<leftarrow> case_sys_cmd j0 (\<lambda>j.
        if qd_operation (jb_q j) = REQ_CMD_BASE_JOIN then base_cmd_join j
        else if qd_operation (jb_q j) = REQ_CMD_BASE_QUIT then base_cmd_quit j
        else if qd_operation (jb_q j) = REQ_CMD_STATS then cmd_stats j
        else cmd_unknown ''base_process_driver'' ''moc_base.c'' 72 j);
     finish_request m True err j1 }"

text \<open>A driver run on the queue entry at an address, as the worker calls it.\<close>

definition run_driver :: "(job \<Rightarrow> job option) \<Rightarrow> plugin process_driver" where
  "run_driver drv a p w = do {
     n \<leftarrow> w_entries w a;
     j \<leftarrow> drv \<lparr>jb_plugin = p, jb_q = qe_data n, jb_world = w\<rparr>;
     n' \<leftarrow> w_entries (jb_world j) a;
     Some (jb_plugin j, (jb_world j)\<lparr>w_entries := (w_entries (jb_world j))(a \<mapsto> n'\<lparr>qe_data := jb_q j\<rparr>)\<rparr>) }"

definition base_stop_driver :: "plugin \<Rightarrow> plugin option" where
  "base_stop_driver p = do {
     cd \<leftarrow> p_cache p;
     (r, h) \<leftarrow> cache_free cd;
     base_info_destroy (p\<lparr>p_cache_freed := True\<rparr>) }"

text \<open>
  \<open>init_driver\<close> of the plugins, which differs in the name only: the number of cached objects comes from
  the configuration and is converted from \<open>int\<close> to \<open>size_t\<close>. The flags tell which allocations succeed.
\<close>

definition plugin_init :: "string \<Rightarrow> bool \<Rightarrow> bool \<Rightarrow> bool \<Rightarrow> int \<Rightarrow> hdf \<Rightarrow> (bytes \<times> plugin) option option" where
  "plugin_init name entry_ok info_ok cache_ok ctime cfg =
     (if \<not> entry_ok then Some None
      else case base_info_init info_ok info_ok of
        None \<Rightarrow> Some None
      | Some bi \<Rightarrow> do {
          numobjs \<leftarrow> hdf_get_int_value cfg [] (Some (''Plugin.'' @ name @ ''.numobjs'')) 1024;
          Some (case cache_create cache_ok cache_ok (nat (numobjs mod 2 ^ 64)) 0 of
             None \<Rightarrow> None
           | Some cd \<Rightarrow> Some (name,
               \<lparr>p_cache = Some (cd, \<lambda>_. None), p_cache_freed = False,
                p_stats = \<lparr>st_total = 0, st_unrec = 0, st_badparam = 0, st_stats = 0, st_suc = 0, st_fai = 0\<rparr>,
                p_info = bi, p_users = (\<lambda>_. None), p_appdata = (\<lambda>_. None), p_next = 0, p_ctime = ctime\<rparr>)) })"

definition base_init_driver :: "bool \<Rightarrow> bool \<Rightarrow> bool \<Rightarrow> int \<Rightarrow> hdf \<Rightarrow> (bytes \<times> plugin) option option" where
  "base_init_driver = plugin_init ''base''"

section \<open>The plugin skeleton\<close>

text \<open>
  The template for new plugins (plugin/moc_skeleton.c) answers the same commands; it does not free the
  users when it stops.
\<close>

definition skeleton_process_driver :: "mcs \<Rightarrow> job \<Rightarrow> job option" where
  "skeleton_process_driver m j = do {
     let j0 = bump (\<lambda>s. s\<lparr>st_total := st_total s + 1\<rparr>) j;
     (err, j1) \<leftarrow> case_sys_cmd j0 (\<lambda>j.
        if qd_operation (jb_q j) = REQ_CMD_BASE_JOIN then base_cmd_join j
        else if qd_operation (jb_q j) = REQ_CMD_BASE_QUIT then base_cmd_quit j
        else if qd_operation (jb_q j) = REQ_CMD_STATS then cmd_stats j
        else cmd_unknown ''skeleton_process_driver'' ''moc_skeleton.c'' 34 j);
     finish_request m True err j1 }"

definition skeleton_stop_driver :: "plugin \<Rightarrow> plugin option" where
  "skeleton_stop_driver p = do {
     cd \<leftarrow> p_cache p;
     (r, h) \<leftarrow> cache_free cd;
     Some (p\<lparr>p_cache_freed := True\<rparr>) }"

definition skeleton_init_driver :: "bool \<Rightarrow> bool \<Rightarrow> bool \<Rightarrow> int \<Rightarrow> hdf \<Rightarrow> (bytes \<times> plugin) option option" where
  "skeleton_init_driver = plugin_init ''skeleton''"

section \<open>What the commands leave alone\<close>

text \<open>
  Unless it makes a user quit, a command keeps queues, entries and reference counts, and the request
  of its entry.
\<close>

definition kept :: "job \<Rightarrow> job \<Rightarrow> bool" where
  "kept j j' \<longleftrightarrow>
     (w_mem (jb_world j) = [] \<longrightarrow> driver_frame (jb_world j) (jb_world j') \<and> w_entries (jb_world j') = w_entries (jb_world j)) \<and>
     qd_req (jb_q j') = qd_req (jb_q j) \<and> qd_operation (jb_q j') = qd_operation (jb_q j)"

lemma kept_refl [simp]: "kept j j"
  by (simp add: kept_def)

lemma kept_trans [trans]:
  assumes "kept j j1" "kept j1 j2"
  shows "kept j j2"
proof -
  have "w_mem (jb_world j1) = []" if "w_mem (jb_world j) = []"
    using assms(1) that by (auto simp: kept_def driver_frame_def)
  then show ?thesis using assms driver_frame_trans by (auto simp: kept_def)
qed

lemma quiet_driver_frame: "quiet w w' \<Longrightarrow> driver_frame w w' \<and> w_entries w' = w_entries w"
  using same_shape_driver_frame [OF quiet_same_shape] by (simp add: quiet_fields)

lemma kept_world: "quiet (jb_world j) w \<Longrightarrow> kept j (j\<lparr>jb_world := w\<rparr>)"
  by (simp add: kept_def quiet_driver_frame)

lemma kept_simps [simp]:
  "kept j (bump f j)" "kept j (put_cache c j)" "kept j (j\<lparr>jb_plugin := p\<rparr>)"
  "kept j (in_world (tcp_reply_mini req code) j)" "kept j (in_world (tcp_reply_long req code val) j)"
  by (simp_all add: kept_def bump_def put_cache_def in_world_def quiet_driver_frame)

lemma kept_hdfsnd [simp]: "kept j (j\<lparr>jb_q := (jb_q j)\<lparr>qd_hdfsnd := h\<rparr>\<rparr>)" "kept j (j\<lparr>jb_q := (jb_q j)\<lparr>qd_hdfrcv := h\<rparr>\<rparr>)"
  by (simp_all add: kept_def)

lemma kept_set: "set_snd n v j = Some j' \<Longrightarrow> kept j j'" "set_rcv n v j = Some j' \<Longrightarrow> kept j j'"
  by (auto simp: set_snd_def set_rcv_def)

lemma kept_cache_done: "cache_done reply err j = (e, j') \<Longrightarrow> kept j j'"
  by (auto simp: cache_done_def)

lemma kept_mallocs: "cache_mallocs j = (m, j') \<Longrightarrow> kept j j'"
  by (auto simp: cache_mallocs_def kept_def Let_def split: prod.splits)

lemma kept_put: "kept (put_cache c j) j' \<Longrightarrow> kept j j'"
  by (rule kept_trans [OF kept_simps(2)])

lemma kept_reply_put [simp]: "kept j (in_world (tcp_reply_long req code val) (put_cache c j))"
  by (rule kept_put [where c = c]) simp

lemma kept_cache_get: "sys_cmd_cache_get reply j = Some (e, j') \<Longrightarrow> kept j j'"
  by (auto simp: sys_cmd_cache_get_def Let_def split: option.splits if_splits dest!: kept_cache_done kept_set kept_put)
     (metis kept_put kept_set(1) kept_simps(2))

lemma kept_cache_set: "sys_cmd_cache_set reply j = Some (e, j') \<Longrightarrow> kept j j'"
  by (cases "cache_mallocs j")
     (auto simp: sys_cmd_cache_set_def Let_def split: option.splits dest!: kept_cache_done kept_mallocs kept_put, blast intro: kept_trans)

lemma kept_cache_del: "sys_cmd_cache_del reply j = Some (e, j') \<Longrightarrow> kept j j'"
  by (auto simp: sys_cmd_cache_del_def split: option.splits dest!: kept_cache_done kept_put)

lemma kept_cache_empty: "sys_cmd_cache_empty reply j = Some (e, j') \<Longrightarrow> kept j j'"
proof -
  obtain ok1 w1 where w1: "malloc_ok (jb_world j) = (ok1, w1)" by (cases "malloc_ok (jb_world j)")
  obtain ok2 w2 where w2: "(if ok1 then malloc_ok w1 else (False, w1)) = (ok2, w2)"
    by (cases "if ok1 then malloc_ok w1 else (False, w1)")
  have "kept j (j\<lparr>jb_world := w2\<rparr>)" using w1 w2 by (auto simp: kept_def split: if_splits)
  then show "sys_cmd_cache_empty reply j = Some (e, j') \<Longrightarrow> kept j j'"
    by (auto simp: sys_cmd_cache_empty_def Let_def w1 w2 split: option.splits dest!: kept_cache_done kept_put intro: kept_trans)
qed

lemma quiet_msg_send_loop: "quiet w (msg_send_loop fd buf c w)"
proof (induction fd buf c w rule: msg_send_loop.induct)
  case (1 fd buf c w)
  note q = quiet_do_send [of w fd "drop c buf"]
  show ?case using 1 quiet_trans [OF q] q by (subst msg_send_loop.simps) (auto simp: Let_def)
qed

lemma quiet_base_msg_send: "quiet w (snd (base_msg_send buf fd w))"
  by (simp add: base_msg_send_def quiet_msg_send_loop)

lemma base_msg_new_world: "base_msg_new cmd root path w = Some (r, h, w') \<Longrightarrow> w_mem w = [] \<Longrightarrow> w' = w"
proof -
  assume new: "base_msg_new cmd root path w = Some (r, h, w')" and mem: "w_mem w = []"
  obtain a root1 where 1: "hdf_set_value root path ''_Reserve'' (Some ''moc'') = Some (a, root1)"
    using new by (auto simp: base_msg_new_def)
  obtain b root2 where 2: "hdf_set_attr root1 path (Some ''_Reserve'') ''cmd'' (Some cmd) = Some (b, root2)"
    using new by (auto simp: base_msg_new_def 1)
  show ?thesis using new mem by (cases b) (auto simp: base_msg_new_def 1 2 Let_def split: if_splits)
qed

lemma kept_touser:
  assumes "touser_snd cmd j = Some (e, j')"
  shows "kept j j'"
proof -
  obtain hdf w where t: "base_msg_touser cmd (qd_hdfsnd (jb_q j)) (rq_fd (qd_req (jb_q j))) (jb_world j) = Some (e, hdf, w)"
      and j': "j' = j\<lparr>jb_q := (jb_q j)\<lparr>qd_hdfsnd := hdf\<rparr>, jb_world := w\<rparr>"
    using assms by (auto simp: touser_snd_def)
  obtain r h w1 where new: "base_msg_new cmd (qd_hdfsnd (jb_q j)) [] (jb_world j) = Some (r, h, w1)"
    using t unfolding base_msg_touser_def by fastforce
  have w: "w = w1 \<or> (\<exists>buf. w = snd (base_msg_send buf (rq_fd (qd_req (jb_q j))) w1))"
  proof (cases r)
    case (Inl err)
    then show ?thesis using t by (simp add: base_msg_touser_def new)
  next
    case (Inr buf)
    obtain e2 w2 where "base_msg_send buf (rq_fd (qd_req (jb_q j))) w1 = (e2, w2)" by (cases "base_msg_send buf (rq_fd (qd_req (jb_q j))) w1")
    moreover from this have "w = w2" using t Inr by (simp add: base_msg_touser_def new)
    ultimately show ?thesis by (metis snd_conv)
  qed
  have "driver_frame (jb_world j) w \<and> w_entries w = w_entries (jb_world j)" if "w_mem (jb_world j) = []"
    using w base_msg_new_world [OF new that] quiet_driver_frame [OF quiet_base_msg_send] by auto
  then show ?thesis by (simp add: kept_def j')
qed

lemma kept_user_new: "base_user_new uid j = Some j' \<Longrightarrow> kept j j'"
  by (auto simp: base_user_new_def Let_def kept_def driver_frame_def split: if_splits)

text \<open>Whether the request makes a user other than its own connection's quit.\<close>

definition quits_user :: "bool \<Rightarrow> plugin \<Rightarrow> qdata \<Rightarrow> bool" where
  "quits_user with_q p q =
     (case hdf_get_value (qd_hdfrcv q) [] (Some ''userid'') None of
        Some (Some uid) \<Rightarrow>
          uid \<noteq> [] \<and>
          (case base_user_find p uid of
             Some (Some u) \<Rightarrow>
               (case p_users p u of
                  None \<Rightarrow> False
                | Some user \<Rightarrow> \<not> (with_q \<and> rq_sock (qd_req q) = bu_sock user \<and> rq_fd (qd_req q) = bu_fd user))
           | _ \<Rightarrow> False)
      | _ \<Rightarrow> False)"

definition neutral :: "plugin \<Rightarrow> qdata \<Rightarrow> bool" where
  "neutral p q \<longleftrightarrow> (qd_operation q = REQ_CMD_BASE_JOIN \<longrightarrow> \<not> quits_user True p q) \<and>
     (qd_operation q = REQ_CMD_BASE_QUIT \<longrightarrow> \<not> quits_user False p q)"

lemma quits_user_stats: "quits_user b (p\<lparr>p_stats := st\<rparr>) q = quits_user b p q"
proof -
  have "base_user_find (p\<lparr>p_stats := st\<rparr>) = base_user_find p" by (simp add: base_user_find_def fun_eq_iff)
  then show ?thesis by (simp add: quits_user_def cong del: option.case_cong_weak)
qed

lemma no_quit:
  assumes "base_user_quit uid with_q j' = Some (r, j'')" "get_param_str ''userid'' j = Some (Some uid)"
    and "jb_plugin j' = jb_plugin j" "qd_req (jb_q j') = qd_req (jb_q j)"
    and "\<not> quits_user with_q (jb_plugin j) (jb_q j)"
  shows "j'' = j'"
  using assms by (auto simp: base_user_quit_def get_param_str_def quits_user_def split: option.splits if_splits)

lemma kept_join:
  assumes "base_cmd_join j = Some (e, j')" "\<not> quits_user True (jb_plugin j) (jb_q j)"
  shows "kept j j'"
proof -
  obtain u where u: "get_param_str ''userid'' j = Some u" using assms(1) by (auto simp: base_cmd_join_def)
  show ?thesis
  proof (cases u)
    case None
    then show ?thesis using assms(1) u by (auto simp: base_cmd_join_def)
  next
    case (Some uid)
    then obtain r j1 j2 j3 where q: "base_user_quit uid True j = Some (r, j1)" and n: "base_user_new uid j1 = Some j2"
        and s: "set_snd ''success'' ''1'' j2 = Some j3" and l: "j' = j3 \<or> (\<exists>err. touser_snd ''login'' j3 = Some (err, j'))"
      using assms(1) u by (auto simp: base_cmd_join_def split: if_splits)
    have "j1 = j" using no_quit [OF q _ refl refl assms(2)] u Some by simp
    then have "kept j j3" using kept_trans [OF kept_user_new [OF n] kept_set(1) [OF s]] by simp
    then show ?thesis using l kept_touser kept_trans by blast
  qed
qed

lemma kept_quit:
  assumes "base_cmd_quit j = Some (e, j')" "\<not> quits_user False (jb_plugin j) (jb_q j)"
  shows "kept j j'"
proof -
  obtain u where u: "get_param_str ''userid'' j = Some u" using assms(1) by (auto simp: base_cmd_quit_def)
  show ?thesis
  proof (cases u)
    case None
    then show ?thesis using assms(1) u by (auto simp: base_cmd_quit_def)
  next
    case (Some uid)
    then obtain r j1 j2 where q: "base_user_quit uid False j = Some (r, j1)"
        and s: "set_snd ''success'' ''1'' j1 = Some j2" and l: "j' = j2 \<or> (\<exists>err. touser_snd ''logout'' j2 = Some (err, j'))"
      using assms(1) u by (auto simp: base_cmd_quit_def split: if_splits)
    have "j1 = j" using no_quit [OF q _ refl refl assms(2)] u Some by simp
    then have "kept j j2" using kept_set(1) [OF s] by simp
    then show ?thesis using l kept_touser kept_trans by blast
  qed
qed

lemma kept_stats: "cmd_stats j = Some (e, j') \<Longrightarrow> kept j j'"
  by (auto simp: cmd_stats_def Let_def intro: kept_trans [OF kept_simps(1) kept_hdfsnd(1)])

lemma kept_unknown: "cmd_unknown func file line j = Some (e, j') \<Longrightarrow> kept j j'"
  by (auto simp: cmd_unknown_def)

lemma kept_sys:
  assumes "case_sys_cmd j other = Some (e, j')" "\<And>e j'. other j = Some (e, j') \<Longrightarrow> kept j j'"
  shows "kept j j'"
  using assms kept_cache_get kept_cache_set kept_cache_del kept_cache_empty
  unfolding case_sys_cmd_def Let_def by (auto split: if_splits)

lemma kept_trace: "trace_err m err j = Some j' \<Longrightarrow> kept j j'"
  by (auto simp: trace_err_def Let_def dest!: kept_set(1) intro: kept_trans [OF _ kept_trans [OF kept_hdfsnd(1)]])

lemma kept_finish: "finish_request m tell err j = Some j' \<Longrightarrow> kept j j'"
proof -
  assume run: "finish_request m tell err j = Some j'"
  define ret where "ret = (case mcs_err_valid m err of None \<Rightarrow> REP_OK | Some f \<Rightarrow> e_error f)"
  obtain j1 where j1: "kept j j1"
      and fin: "j' = j1 \<or> (\<exists>r w. reply_trigger (jb_q j1) ret (jb_world j1) = Some (r, w) \<and> j' = j1\<lparr>jb_world := w\<rparr>)"
  proof (cases "ret \<ge> REP_OK")
    case True
    then show thesis
      using run that [of "bump (\<lambda>s. s\<lparr>st_suc := st_suc s + 1\<rparr>) j"]
      by (auto simp: finish_request_def ret_def [symmetric] Let_def split: if_splits)
  next
    case False
    define j2 where "j2 = (let j1 = bump (\<lambda>s. s\<lparr>st_fai := st_fai s + 1\<rparr>) j in
      if ret = REP_ERR_BADPARAM then bump (\<lambda>s. s\<lparr>st_badparam := st_badparam s + 1\<rparr>) j1 else j1)"
    have "kept j j2" using kept_trans [OF kept_simps(1) kept_simps(1)] by (simp add: j2_def Let_def)
    obtain j3 where j3: "trace_err m err j2 = Some j3"
      using run False by (auto simp: finish_request_def ret_def [symmetric] j2_def Let_def)
    have "kept j j3" using kept_trans [OF \<open>kept j j2\<close> kept_trace [OF j3]] .
    then show thesis
      using run False j3 that kept_trans [OF _ kept_touser]
      unfolding finish_request_def ret_def [symmetric] Let_def
      by (auto simp: j2_def Let_def split: if_splits) blast+
  qed
  have "kept j1 (j1\<lparr>jb_world := w\<rparr>)" if "reply_trigger (jb_q j1) ret (jb_world j1) = Some (r, w)" for r w
    using quiet_driver_frame [OF quiet_reply_trigger [OF that]] by (simp add: kept_def)
  then show ?thesis using j1 fin kept_trans by blast
qed

lemma run_driver_frame:
  assumes drv: "\<And>j j'. drv j = Some j' \<Longrightarrow> neutral (jb_plugin j) (jb_q j) \<Longrightarrow> kept j j'"
    and run: "run_driver drv a p w = Some (p', w')" "w_entries w a = Some n" "neutral p (qe_data n)" "w_mem w = []"
  shows "driver_frame w w'"
proof -
  let ?j = "\<lparr>jb_plugin = p, jb_q = qe_data n, jb_world = w\<rparr>"
  obtain j' where j': "drv ?j = Some j'" using run(1,2) by (auto simp: run_driver_def)
  have k: "kept ?j j'" by (rule drv [OF j']) (simp add: run(3))
  then have "w' = (jb_world j')\<lparr>w_entries := (w_entries w)(a \<mapsto> n\<lparr>qe_data := jb_q j'\<rparr>)\<rparr>"
    using run(1,2,4) by (auto simp: run_driver_def j' kept_def)
  with k run(2,4) show ?thesis by (auto simp: kept_def driver_frame_def same_entries_def)
qed

lemma driver_kept:
  assumes c: "case_sys_cmd (bump f j) other = Some (err, j1)" and f: "finish_request m tell err j1 = Some j'"
    and "\<And>e j'. other (bump f j) = Some (e, j') \<Longrightarrow> kept (bump f j) j'"
  shows "kept j j'"
proof -
  have "kept (bump f j) j1" by (rule kept_sys [OF c]) (rule assms(3))
  then show ?thesis using kept_trans [OF kept_simps(1)] kept_trans [OF _ kept_finish [OF f]] by blast
qed

lemma quits_user_bump:
  assumes "\<And>s. f s = s\<lparr>st_total := st_total s + 1\<rparr>"
  shows "quits_user b (jb_plugin (bump f j)) (jb_q (bump f j)) = quits_user b (jb_plugin j) (jb_q j)" "qd_operation (jb_q (bump f j)) = qd_operation (jb_q j)"
  by (simp_all add: bump_def quits_user_stats)

lemmas kept_base_cmd = kept_join kept_quit kept_stats kept_unknown

lemma base_driver_kept:
  assumes "base_process_driver m j = Some j'" "neutral (jb_plugin j) (jb_q j)"
  shows "kept j j'"
  using assms unfolding base_process_driver_def Let_def
  by (auto simp: neutral_def quits_user_bump split: if_splits elim!: driver_kept dest!: kept_base_cmd)

lemma skeleton_driver_kept:
  assumes "skeleton_process_driver m j = Some j'" "neutral (jb_plugin j) (jb_q j)"
  shows "kept j j'"
  using assms unfolding skeleton_process_driver_def Let_def
  by (auto simp: neutral_def quits_user_bump split: if_splits elim!: driver_kept dest!: kept_base_cmd)

interpretation base: driver "run_driver (base_process_driver m)" neutral for m
  by unfold_locales (rule run_driver_frame [OF base_driver_kept])

interpretation skeleton: driver "run_driver (skeleton_process_driver m)" neutral for m
  by unfold_locales (rule run_driver_frame [OF skeleton_driver_kept])

end
