(* ===== verification/Plugin_Users.thy ===== *)
theory Plugin_Users
  imports Plugin_Base
begin

text \<open>
  The users of a plugin: the table and the heap of users agree, joining and leaving keep that, and
  stopping the plugin frees every user. What a message to a user puts on the wire, and what a user
  who quits does to the references of the connection.
\<close>

section \<open>The table of users\<close>

abbreviation userh :: "plugin \<Rightarrow> (string, addr) ne_hash" where
  "userh p \<equiv> bi_userh (p_info p)"

definition users_ok :: "plugin \<Rightarrow> bool" where
  "users_ok p \<longleftrightarrow> hash_inv (userh p) \<and>
     (\<forall>uid u. hash_map (userh p) uid = Some u \<longleftrightarrow> (\<exists>user. p_users p u = Some user \<and> bu_uid user = uid)) \<and>
     bi_usernum (p_info p) = int (card (dom (hash_map (userh p)))) \<and>
     (\<forall>u \<ge> p_next p. p_users p u = None)"

lemma hash_map_finite:
  assumes "hash_inv h"
  shows "finite (dom (hash_map h))"
proof (rule finite_subset)
  show "dom (hash_map h) \<subseteq> n_key ` set (concat (h_nodes h))"
  proof
    fix k
    assume "k \<in> dom (hash_map h)"
    then obtain v where "hash_map h k = Some v" by auto
    then obtain n where "n \<in> set (concat (h_nodes h))" "n_key n = k" unfolding hash_map_iff [OF assms] by blast
    then show "k \<in> n_key ` set (concat (h_nodes h))" by (metis imageI)
  qed
qed simp

lemma users_ok_find: "users_ok p \<Longrightarrow> base_user_find p uid = Some (hash_map (userh p) uid)"
  by (simp add: users_ok_def base_user_find_def ne_hash_lookup_map)

lemma user_new_ok:
  assumes "users_ok (jb_plugin j)" "h_size (userh (jb_plugin j)) \<le> 2 ^ 30" "w_socks (jb_world j) (rq_sock (qd_req (jb_q j))) \<noteq> None"
  shows "\<exists>j'. base_user_new uid j = Some j' \<and> users_ok (jb_plugin j') \<and> hash_map (userh (jb_plugin j')) uid \<noteq> None \<and>
     (\<forall>x. x \<noteq> uid \<longrightarrow> hash_map (userh (jb_plugin j')) x = hash_map (userh (jb_plugin j)) x)"
proof (cases "hash_map (userh (jb_plugin j)) uid")
  case (Some u)
  then show ?thesis using assms by (simp add: base_user_new_def users_ok_find)
next
  case None
  let ?p = "jb_plugin j"
  obtain s where s: "w_socks (jb_world j) (rq_sock (qd_req (jb_q j))) = Some s" using assms(3) by auto
  have ok: "hash_inv (userh ?p)" "\<And>u. u \<ge> p_next ?p \<Longrightarrow> p_users ?p u = None"
    and iff: "\<And>uid u. hash_map (userh ?p) uid = Some u \<longleftrightarrow> (\<exists>user. p_users ?p u = Some user \<and> bu_uid user = uid)"
    and num: "bi_usernum (p_info ?p) = int (card (dom (hash_map (userh ?p))))"
    using assms(1) unfolding users_ok_def by blast+
  from ne_hash_insert_map [OF ok(1) assms(2), of uid "p_next ?p"] obtain h'
    where h': "ne_hash_insert True True uid (p_next ?p) (userh ?p) = Some (Inr (), h')" "hash_inv h'" "hash_map h' = (hash_map (userh ?p))(uid \<mapsto> p_next ?p)"
    by blast
  have "hash_map h' x = Some u \<longleftrightarrow> (\<exists>user. ((p_users ?p)(p_next ?p \<mapsto> \<lparr>bu_uid = uid, bu_fd = f, bu_sock = k\<rparr>)) u = Some user \<and> bu_uid user = x)" for x u f k
    using iff [of x u] None ok(2) [of "p_next ?p"] by (auto simp: h'(3))
  moreover have "card (dom (hash_map h')) = Suc (card (dom (hash_map (userh ?p))))"
    using None hash_map_finite [OF ok(1)] by (simp add: h'(3) domIff)
  ultimately have "users_ok (?p\<lparr>p_users := (p_users ?p)(p_next ?p \<mapsto> \<lparr>bu_uid = uid, bu_fd = f, bu_sock = k\<rparr>),
      p_appdata := ad, p_next := p_next ?p + 1, p_info := \<lparr>bi_usernum = bi_usernum (p_info ?p) + 1, bi_userh = h'\<rparr>\<rparr>)" for f k ad
    using h'(2) num ok(2) by (simp add: users_ok_def)
  then show ?thesis
    using assms(1) None s by (simp add: base_user_new_def users_ok_find Let_def h'(1,3) cong del: option.case_cong_weak)
qed

lemma user_destroy_ok:
  assumes "users_ok p" "p_users p u = Some user"
  shows "\<exists>p'. base_user_destroy u p = Some p' \<and> users_ok p' \<and> p_users p' = (p_users p)(u := None) \<and>
     (\<exists>r. ne_hash_remove (bu_uid user) (userh p) = Some (r, userh p')) \<and> hash_map (userh p') = (hash_map (userh p))(bu_uid user := None) \<and>
     h_size (userh p') = h_size (userh p)"
proof -
  have ok: "hash_inv (userh p)" "\<And>u. u \<ge> p_next p \<Longrightarrow> p_users p u = None"
    and iff: "\<And>uid u. hash_map (userh p) uid = Some u \<longleftrightarrow> (\<exists>user. p_users p u = Some user \<and> bu_uid user = uid)"
    and num: "bi_usernum (p_info p) = int (card (dom (hash_map (userh p))))"
    using assms(1) unfolding users_ok_def by blast+
  from ne_hash_remove_map [OF ok(1), of "bu_uid user"] obtain h'
    where h': "ne_hash_remove (bu_uid user) (userh p) = Some (hash_map (userh p) (bu_uid user), h')" "hash_inv h'"
      "hash_map h' = (hash_map (userh p))(bu_uid user := None)" "h_size h' = h_size (userh p)"
    by blast
  have at: "hash_map (userh p) (bu_uid user) = Some u" using iff assms(2) by blast
  then have "card (dom (hash_map h')) = card (dom (hash_map (userh p))) - 1" "0 < card (dom (hash_map (userh p)))"
    using hash_map_finite [OF ok(1)] by (auto simp: h'(3) card_gt_0_iff card_Diff_singleton [OF domI])
  moreover have "hash_map h' x = Some v \<longleftrightarrow> (\<exists>user. ((p_users p)(u := None)) v = Some user \<and> bu_uid user = x)" for x v
    using iff [of x v] iff [of "bu_uid user" v] assms(2) at by (auto simp: h'(3))
  ultimately show ?thesis
    using h' num ok(2) assms(2) by (simp add: base_user_destroy_def users_ok_def)
qed

section \<open>Freeing all users\<close>

lemma ne_hash_remove_first:
  assumes inv: "hash_inv h" and first: "concat (h_nodes h) = n # ns" and b: "b = bucket_of h (h_hash h (n_key n))"
  shows "\<exists>c. ne_hash_remove (n_key n) h = Some (Some (n_value n), h\<lparr>h_nodes := c, h_num := h_num h - 1\<rparr>) \<and>
     concat c = ns \<and> concat (take b c) = [] \<and> length c = length (h_nodes h)"
proof -
  have bl: "b < length (h_nodes h)" using bucket_of_less [OF inv] b by simp
  have "n \<in> set (concat (h_nodes h))" by (simp add: first)
  then have ne: "hash_map h (n_key n) = Some (n_value n)" using hash_map_iff [OF inv] by blast
  from inv b show ?thesis
  proof (cases rule: lookup_node_cases)
    case absent
    then show ?thesis using ne by simp
  next
    case (found l n' r)
    have c: "concat (h_nodes h) = (concat (take b (h_nodes h)) @ l) @ n' # (r @ concat (drop (Suc b) (h_nodes h)))"
      using concat_at [OF bl found(1)] .
    have "n # ns = [] @ n # ns" by simp
    then have "concat (take b (h_nodes h)) @ l = []"
      using distinct_split_unique [OF distinct_concat_keys [OF inv]] first c found(2) by metis
    then have l: "l = []" "concat (take b (h_nodes h)) = []" "n' = n" "ns = r @ concat (drop (Suc b) (h_nodes h))" using c first by (simp_all del: concat_eq_Nil_conv)
    let ?c = "(h_nodes h)[b := r]"
    have "?c = take b (h_nodes h) @ r # drop (Suc b) (h_nodes h)" using bl by (rule upd_conv_take_nth_drop)
    then have "concat ?c = ns" by (simp add: l(2,4) del: concat_eq_Nil_conv)
    moreover have "concat (take b ?c) = []" using l(2) by simp
    ultimately show ?thesis using found l by (intro exI [of _ ?c]) (simp add: ne_hash_remove_def Let_def)
  qed
qed

text \<open>
  The loop goes on from the key it has just removed: it looks at that key's bucket again and at the
  ones after it, and the buckets before are empty.
\<close>

definition destroy_from :: "string option \<Rightarrow> plugin \<Rightarrow> bool" where
  "destroy_from key p \<longleftrightarrow>
     (case key of
        None \<Rightarrow> True
      | Some k \<Rightarrow> hash_map (userh p) k = None \<and> concat (take (bucket_of (userh p) (h_hash (userh p) k)) (h_nodes (userh p))) = [])"

lemma destroy_next:
  assumes "hash_inv (userh p)" "destroy_from key p" "h = userh p"
  shows "ne_hash_next key h = Some (case concat (h_nodes h) of [] \<Rightarrow> (key, None) | n # ns \<Rightarrow> (Some (n_key n), Some (n_value n)))"
proof (cases key)
  case None
  then show ?thesis by (auto simp: ne_hash_next_def first_node_concat simp del: concat_eq_Nil_conv split: list.splits)
next
  case (Some k)
  let ?b = "bucket_of h (h_hash h k)"
  have "concat (h_nodes h) = concat (take ?b (h_nodes h)) @ concat (drop ?b (h_nodes h))"
    by (metis append_take_drop_id concat_append)
  then have c: "concat (drop ?b (h_nodes h)) = concat (h_nodes h)" using assms(2,3) Some by (simp add: destroy_from_def)
  have "hash_inv h" using assms(1,3) by simp
  from this refl show ?thesis
  proof (cases rule: lookup_node_cases [where key = k])
    case absent
    then show ?thesis
      using Some c by (auto simp: ne_hash_next_def first_node_concat Let_def simp del: concat_eq_Nil_conv split: list.splits)
  next
    case (found l n r)
    then show ?thesis using assms(2,3) Some by (simp add: destroy_from_def)
  qed
qed

lemma destroy_users_all:
  assumes "users_ok p" "destroy_from key p"
  shows "\<exists>p'. destroy_users key p = Some p' \<and> users_ok p' \<and> hash_map (userh p') = (\<lambda>_. None)"
  using assms
proof (induction "concat (h_nodes (userh p))" arbitrary: p key)
  case Nil
  have inv: "hash_inv (userh p)" using Nil.prems(1) by (simp add: users_ok_def)
  have "ne_hash_next key (userh p) = Some (key, None)"
    using destroy_next [OF inv Nil.prems(2) refl] unfolding Nil.hyps [symmetric] by simp
  then have "destroy_users key p = Some p" by (subst destroy_users.simps) simp
  moreover have "hash_map (userh p) k = None" for k
    using hash_map_iff [OF inv, of k] unfolding Nil.hyps [symmetric] by (cases "hash_map (userh p) k") auto
  ultimately show ?case using Nil.prems(1) by auto
next
  case (Cons n ns)
  note first = Cons.hyps(2) [symmetric]
  have inv: "hash_inv (userh p)" using Cons.prems(1) by (simp add: users_ok_def)
  have nxt: "ne_hash_next key (userh p) = Some (Some (n_key n), Some (n_value n))"
    using destroy_next [OF inv Cons.prems(2) refl] unfolding first by simp
  have "n \<in> set (concat (h_nodes (userh p)))" by (simp add: first)
  then have "hash_map (userh p) (n_key n) = Some (n_value n)" using hash_map_iff [OF inv] by blast
  then obtain user where user: "p_users p (n_value n) = Some user" "bu_uid user = n_key n" using Cons.prems(1) unfolding users_ok_def by blast
  from user_destroy_ok [OF Cons.prems(1) user(1)] obtain p' r where p': "base_user_destroy (n_value n) p = Some p'" "users_ok p'"
      "ne_hash_remove (n_key n) (userh p) = Some (r, userh p')" "hash_map (userh p') = (hash_map (userh p))(n_key n := None)"
    unfolding user(2) by blast
  obtain c where c: "userh p' = (userh p)\<lparr>h_nodes := c, h_num := h_num (userh p) - 1\<rparr>" "concat c = ns"
      "concat (take (bucket_of (userh p) (h_hash (userh p) (n_key n))) c) = []"
    using ne_hash_remove_first [OF inv first refl] p'(3) by auto
  have "destroy_from (Some (n_key n)) p'" using c p'(4) by (simp add: destroy_from_def bucket_of_def del: concat_eq_Nil_conv)
  moreover have "ns = concat (h_nodes (userh p'))" using c by simp
  ultimately obtain p'' where "destroy_users (Some (n_key n)) p' = Some p''" "users_ok p''" "hash_map (userh p'') = (\<lambda>_. None)"
    using Cons.hyps(1) p'(2) by blast
  then show ?case using nxt user(1) p'(1) by (subst destroy_users.simps) simp
qed

section \<open>Properties\<close>

text \<open>
  C12. The table of users. Whenever the table and the users agree, joining under any name and freeing
  any user succeed and keep the agreement: afterwards the new name is found, or the freed one is
  not, every other name is found as before, and the number of users is the size of the table.
\<close>

theorem user_table_kept:
  assumes "users_ok (jb_plugin j)" "h_size (userh (jb_plugin j)) \<le> 2 ^ 30" "w_socks (jb_world j) (rq_sock (qd_req (jb_q j))) \<noteq> None"
  shows "(\<exists>j' u. base_user_new uid j = Some j' \<and> users_ok (jb_plugin j') \<and> base_user_find (jb_plugin j') uid = Some (Some u) \<and>
       (\<forall>x. x \<noteq> uid \<longrightarrow> base_user_find (jb_plugin j') x = base_user_find (jb_plugin j) x)) \<and>
     (\<forall>u user. p_users (jb_plugin j) u = Some user \<longrightarrow>
       (\<exists>p'. base_user_destroy u (jb_plugin j) = Some p' \<and> users_ok p' \<and> base_user_find p' (bu_uid user) = Some None \<and>
         (\<forall>x. x \<noteq> bu_uid user \<longrightarrow> base_user_find p' x = base_user_find (jb_plugin j) x)))"
proof (intro conjI allI impI)
  obtain j' where j': "base_user_new uid j = Some j'" "users_ok (jb_plugin j')" "hash_map (userh (jb_plugin j')) uid \<noteq> None"
      "\<forall>x. x \<noteq> uid \<longrightarrow> hash_map (userh (jb_plugin j')) x = hash_map (userh (jb_plugin j)) x"
    using user_new_ok [OF assms] by blast
  then show "\<exists>j' u. base_user_new uid j = Some j' \<and> users_ok (jb_plugin j') \<and> base_user_find (jb_plugin j') uid = Some (Some u) \<and>
       (\<forall>x. x \<noteq> uid \<longrightarrow> base_user_find (jb_plugin j') x = base_user_find (jb_plugin j) x)"
    using assms(1) by (auto simp: users_ok_find)
  fix u user
  assume "p_users (jb_plugin j) u = Some user"
  from user_destroy_ok [OF assms(1) this] obtain p' where "base_user_destroy u (jb_plugin j) = Some p'" "users_ok p'"
      "hash_map (userh p') = (hash_map (userh (jb_plugin j)))(bu_uid user := None)" by blast
  then show "\<exists>p'. base_user_destroy u (jb_plugin j) = Some p' \<and> users_ok p' \<and> base_user_find p' (bu_uid user) = Some None \<and>
         (\<forall>x. x \<noteq> bu_uid user \<longrightarrow> base_user_find p' x = base_user_find (jb_plugin j) x)"
    using assms(1) by (simp add: users_ok_find)
qed

text \<open>A plugin without users, and a request on a connection.\<close>

definition demo_plugin :: plugin where
  "demo_plugin = \<lparr>p_cache = None, p_cache_freed = False,
     p_stats = \<lparr>st_total = 0, st_unrec = 0, st_badparam = 0, st_stats = 0, st_suc = 0, st_fai = 0\<rparr>,
     p_info = \<lparr>bi_usernum = 0, bi_userh = demo_hash\<rparr>, p_users = (\<lambda>_. None), p_appdata = (\<lambda>_. None), p_next = 0, p_ctime = 0\<rparr>"

definition demo_junk :: req_info where
  "demo_junk = \<lparr>rq_fd = 0, rq_id = [], rq_cmd = 0, rq_flags = 0, rq_sock = 0\<rparr>"

definition demo_job :: job where
  "demo_job = \<lparr>jb_plugin = demo_plugin,
     jb_q = \<lparr>qd_operation = 1001, qd_ename = ''base'', qd_hdfrcv = hdf_init, qd_hdfsnd = hdf_init, qd_req = demo_junk\<lparr>rq_fd := 7, rq_sock := 2\<rparr>\<rparr>,
     jb_world = last_request\<rparr>"

lemma demo_plugin_ok: "users_ok demo_plugin"
proof -
  have "userh demo_plugin = demo_hash" "bi_usernum (p_info demo_plugin) = 0" "p_users demo_plugin = (\<lambda>_. None)"
    by (simp_all add: demo_plugin_def)
  then show ?thesis using demo_hash_rep by (simp add: users_ok_def hash_rep_def)
qed

lemma demo_job_ok:
  "users_ok (jb_plugin demo_job)" "h_size (userh (jb_plugin demo_job)) \<le> 2 ^ 30"
  "w_socks (jb_world demo_job) (rq_sock (qd_req (jb_q demo_job))) \<noteq> None"
proof -
  show "users_ok (jb_plugin demo_job)" using demo_plugin_ok by (simp add: demo_job_def)
  have "h_size demo_hash = 256" by (simp add: demo_hash_def)
  then show "h_size (userh (jb_plugin demo_job)) \<le> 2 ^ 30" by (simp add: demo_job_def demo_plugin_def)
  show "w_socks (jb_world demo_job) (rq_sock (qd_req (jb_q demo_job))) \<noteq> None"
    by (simp add: demo_job_def last_request_def Let_def)
qed

theorem user_table_kept_witness:
  "\<exists>j' u. base_user_new ''ann'' demo_job = Some j' \<and> base_user_find (jb_plugin j') ''ann'' = Some (Some u)"
  using conjunct1 [OF user_table_kept [OF demo_job_ok, of "''ann''"]] by (elim exE conjE) (intro exI conjI)

text \<open>
  C13. Stopping a plugin frees every user. \<open>base_info_destroy\<close> removes users from the table while it
  walks it; the walk nevertheless ends, with every user freed, none freed twice, and the count at 0.
\<close>

theorem stop_frees_users:
  assumes "users_ok p"
  shows "\<exists>p'. base_info_destroy p = Some p' \<and> (\<forall>u. p_users p' u = None) \<and> bi_usernum (p_info p') = 0"
proof -
  obtain p' where p': "destroy_users None p = Some p'" "users_ok p'" "hash_map (userh p') = (\<lambda>_. None)"
    using destroy_users_all [OF assms, of None] by (auto simp: destroy_from_def)
  then have "p_users p' u = None" for u by (cases "p_users p' u") (auto simp: users_ok_def)
  with p' show ?thesis by (simp add: base_info_destroy_def users_ok_def)
qed

theorem stop_frees_users_witness:
  "\<exists>j' p'. base_user_new ''ann'' demo_job = Some j' \<and> base_info_destroy (jb_plugin j') = Some p' \<and> bi_usernum (p_info p') = 0"
proof -
  obtain j' where "base_user_new ''ann'' demo_job = Some j'" "users_ok (jb_plugin j')" using user_new_ok [OF demo_job_ok] by blast
  with stop_frees_users [of "jb_plugin j'"] show ?thesis by blast
qed

section \<open>Messages on the wire\<close>

fun sent_to :: "int \<Rightarrow> effect list \<Rightarrow> bytes" where
  "sent_to fd [] = []"
| "sent_to fd (Sent f bs # es) = (if f = fd then bs else []) @ sent_to fd es"
| "sent_to fd (e # es) = sent_to fd es"

lemma sent_to_append [simp]: "sent_to fd (es @ es') = sent_to fd es @ sent_to fd es'"
  by (induction fd es rule: sent_to.induct) auto

lemma do_send_all:
  "w_sends w = [] \<Longrightarrow> bs \<noteq> [] \<Longrightarrow> fst (do_send fd bs w) = int (length bs) \<and> w_log (snd (do_send fd bs w)) = w_log w @ [Sent fd bs]"
  by (simp add: do_send_def send_call_def logged_def)

lemma do_send_some:
  assumes "\<forall>a \<in> set (w_sends w). 0 < a" "bs \<noteq> []"
  shows "\<exists>k. 0 < k \<and> k \<le> length bs \<and> fst (do_send fd bs w) = int k \<and>
     w_log (snd (do_send fd bs w)) = w_log w @ [Sent fd (take k bs)] \<and> (\<forall>a \<in> set (w_sends (snd (do_send fd bs w))). 0 < a)"
proof (cases "w_sends w")
  case Nil
  then show ?thesis using assms(2) by (intro exI [of _ "length bs"]) (simp add: do_send_def send_call_def logged_def)
next
  case (Cons a as)
  then have a: "0 < a" "\<forall>x \<in> set as. 0 < x" using assms(1) by auto
  then have "take (nat a) bs \<noteq> []" using assms(2) by simp
  then show ?thesis
    using a Cons assms(2) by (intro exI [of _ "min (nat a) (length bs)"]) (auto simp: do_send_def send_call_def logged_def Let_def min_def)
qed

lemma msg_send_loop_sends:
  assumes "\<forall>a \<in> set (w_sends w). 0 < a" "c \<le> length buf"
  shows "sent_to fd (w_log (msg_send_loop fd buf c w)) = sent_to fd (w_log w) @ drop c buf"
  using assms
proof (induction fd buf c w rule: msg_send_loop.induct)
  case (1 fd buf c w)
  show ?case
  proof (cases "c = length buf")
    case True
    then show ?thesis by (subst msg_send_loop.simps) simp
  next
    case False
    then have c: "c < length buf" using "1.prems"(2) by simp
    then have "drop c buf \<noteq> []" by simp
    from do_send_some [OF "1.prems"(1) this, of fd] obtain k where k: "0 < k" "k \<le> length buf - c" "fst (do_send fd (drop c buf) w) = int k"
        "w_log (snd (do_send fd (drop c buf) w)) = w_log w @ [Sent fd (take k (drop c buf))]"
        "\<forall>a \<in> set (w_sends (snd (do_send fd (drop c buf) w))). 0 < a"
      by auto
    show ?thesis
    proof (cases "k = length buf")
      case True
      then have "c = 0" using k(2) c by simp
      with True k c show ?thesis by (subst msg_send_loop.simps) (simp add: Let_def)
    next
      case False
      have "sent_to fd (w_log (msg_send_loop fd buf (c + k) (snd (do_send fd (drop c buf) w)))) =
          sent_to fd (w_log (snd (do_send fd (drop c buf) w))) @ drop (c + k) buf"
        using "1.IH"(2) [OF _ refl refl] k c False by simp
      moreover have "take k (drop c buf) @ drop (c + k) buf = drop c buf" by (metis append_take_drop_id drop_drop add.commute)
      ultimately show ?thesis using k c False by (subst msg_send_loop.simps) (simp add: Let_def)
    qed
  qed
qed

text \<open>
  A message to a user arrives complete and in order when the socket takes any number of bytes at
  a time, but at least one, and reports no error.
\<close>

theorem push_delivers:
  assumes "0 < fd" "\<forall>a \<in> set (w_sends w). 0 < a"
  shows "\<exists>w'. base_msg_send buf fd w = (STATUS_OK, w') \<and> sent_to fd (w_log w') = sent_to fd (w_log w) @ buf"
  using assms msg_send_loop_sends [of w 0 buf fd] by (simp add: base_msg_send_def)

theorem push_delivers_witness:
  "\<exists>w'. base_msg_send ''hello'' 7 (last_request\<lparr>w_sends := [2, 1]\<rparr>) = (STATUS_OK, w') \<and>
     sent_to 7 (w_log w') = sent_to 7 (w_log (last_request\<lparr>w_sends := [2, 1]\<rparr>)) @ ''hello''"
  by (rule push_delivers) simp_all

text \<open>
  C15. A message to a user is corrupted when the socket is full. The result of \<open>send\<close> is kept in an
  unsigned variable, so the error is taken for a number of bytes: the position goes back by one, the
  last byte that had been sent is sent again, and the call still reports success.
\<close>

theorem push_repeats_byte:
  assumes "0 < fd" "0 < k" "k < length buf" "length buf < 2 ^ 64" "w_sends w = [int k, -1]"
  shows "\<exists>w'. base_msg_send buf fd w = (STATUS_OK, w') \<and> w_log w' = w_log w @ [Sent fd (take k buf), Sent fd (drop (k - 1) buf)]"
proof -
  let ?w1 = "snd (do_send fd (drop 0 buf) w)"
  let ?w2 = "snd (do_send fd (drop k buf) ?w1)"
  let ?w3 = "snd (do_send fd (drop (k - 1) buf) ?w2)"
  have ne: "take k buf \<noteq> []" "drop (k - 1) buf \<noteq> []" using assms(2,3) by auto
  have 1: "fst (do_send fd (drop 0 buf) w) = int k" "w_log ?w1 = w_log w @ [Sent fd (take k buf)]" "w_sends ?w1 = [-1]"
    using assms ne(1) by (auto simp: do_send_def send_call_def logged_def Let_def)
  have 2: "fst (do_send fd (drop k buf) ?w1) = -1" "w_log ?w2 = w_log ?w1" "w_sends ?w2 = []"
    using 1(3) by (auto simp: do_send_def [of fd "drop k buf"] send_call_def Let_def)
  have 3: "fst (do_send fd (drop (k - 1) buf) ?w2) = int (length buf - (k - 1))" "w_log ?w3 = w_log ?w2 @ [Sent fd (drop (k - 1) buf)]"
    using do_send_all [OF 2(3) ne(2), of fd] by simp_all
  obtain m where m: "k = Suc m" using assms(2) by (cases k) auto
  have again: "(k + 2 ^ 64 - 1) mod 2 ^ 64 = k - 1" using assms(3,4) by (simp add: m mod_if)
  have "msg_send_loop fd buf 0 w = msg_send_loop fd buf k ?w1" using 1 assms by (subst msg_send_loop.simps) (auto simp: Let_def)
  also have "\<dots> = msg_send_loop fd buf (k - 1) ?w2" using 2 assms again by (subst msg_send_loop.simps) (auto simp: Let_def)
  also have "\<dots> = ?w3"
  proof (cases "k = 1")
    case True
    then show ?thesis using 3 assms by (subst msg_send_loop.simps) (auto simp: Let_def)
  next
    case False
    have "k + nat (1 + int (length buf) - int k) - Suc 0 = length buf" using assms(2,3) by simp
    then have "msg_send_loop fd buf (k - 1) ?w2 = msg_send_loop fd buf (length buf) ?w3"
      using 3 assms False by (subst msg_send_loop.simps) (auto simp: Let_def)
    then show ?thesis by (subst (asm) (2) msg_send_loop.simps) simp
  qed
  finally show ?thesis using assms(1) 1 2 3 by (simp add: base_msg_send_def)
qed

theorem push_repeats_byte_witness:
  "\<exists>w'. base_msg_send ''hello'' 7 (last_request\<lparr>w_sends := [3, -1]\<rparr>) = (STATUS_OK, w') \<and>
     w_log w' = w_log last_request @ [Sent 7 ''hel'', Sent 7 ''llo'']"
  using push_repeats_byte [of 7 3 "''hello''" "last_request\<lparr>w_sends := [3, -1]\<rparr>"] by simp

text \<open>
  C14. A user who quits takes a reference to the connection that is not its own. When \<open>base_user_quit\<close>
  makes a user quit, from any state with the right reference counts, either the connection's count
  is too low afterwards, so that a queue entry will outlive its connection, or a connection that is
  still open has been freed.
\<close>

theorem quit_breaks_references:
  assumes "ref_inv (jb_world j)" "base_user_quit uid with_q j = Some (True, j')"
  shows "\<not> ref_inv (jb_world j') \<or> (\<exists>a s. w_socks (jb_world j) a = Some s \<and> sk_evt s \<and> w_socks (jb_world j') a = None)"
proof -
  obtain u user where u: "p_users (jb_plugin j) u = Some user" "plugin_remove_ref (bu_sock user) j = Some j'"
    using assms(2) by (auto simp: base_user_quit_def split: option.splits if_splits)
  let ?a = "bu_sock user"
  obtain s where s: "w_socks (jb_world j) ?a = Some s" using u(2) by (auto simp: plugin_remove_ref_def)
  note c = ref_inv_sock [OF assms(1) s]
  obtain w where w: "tcp_socket_remove_ref ?a (jb_world j) = Some w" "w_socks w = (w_socks (jb_world j))(?a := dropped s)"
      "w_entries w = w_entries (jb_world j)"
    using remove_ref_drops [OF s c(2)] by blast
  have j': "jb_world j' = w" using u(2) s w(1) by (auto simp: plugin_remove_ref_def split: if_splits)
  have h: "holders w ?a = holders (jb_world j) ?a" using w(3) by (simp add: holders_def)
  show ?thesis
  proof (cases "sk_refcount s = 1")
    case True
    then have gone: "w_socks w ?a = None" using w(2) by (simp add: dropped_def)
    show ?thesis
    proof (cases "sk_evt s")
      case True
      then show ?thesis using gone s j' by blast
    next
      case False
      then have "holders (jb_world j) ?a \<noteq> {}" using c True by (auto simp: card_eq_0_iff)
      then obtain e n where "w_entries w e = Some n" "rq_sock (qd_req (qe_data n)) = ?a" using w(3) by (auto simp: holders_def)
      then have "\<not> ref_inv w" using gone unfolding ref_inv_def by metis
      then show ?thesis using j' by simp
    qed
  next
    case False
    then have "w_socks w ?a = Some (s\<lparr>sk_refcount := sk_refcount s - 1\<rparr>)" using w(2) by (simp add: dropped_def)
    then have "\<not> ref_inv w" using ref_inv_sock(1) [of w ?a] c h by fastforce
    then show ?thesis using j' by simp
  qed
qed

lemma demo_quit:
  "do { j \<leftarrow> base_user_new ''ann'' demo_job; (r, j') \<leftarrow> base_user_quit ''ann'' False j;
        s \<leftarrow> w_socks (jb_world j') 2; Some r } = Some True"
proof -
  obtain j where j: "base_user_new ''ann'' demo_job = Some j" "users_ok (jb_plugin j)" "hash_map (userh (jb_plugin j)) ''ann'' \<noteq> None"
    using user_new_ok [OF demo_job_ok] by blast
  have find: "base_user_find (jb_plugin demo_job) ''ann'' = Some None"
    using demo_hash_rep demo_job_ok(1) by (simp add: users_ok_find demo_job_def demo_plugin_def hash_rep_def)
  obtain h s where s: "p_users (jb_plugin j) = [0 \<mapsto> \<lparr>bu_uid = ''ann'', bu_fd = 7, bu_sock = 2\<rparr>]"
      "w_socks (jb_world j) 2 = Some s" "sk_refcount s = 2"
    using j(1) find by (auto simp: base_user_new_def demo_job_def last_request_def demo_plugin_def Let_def bind_eq_Some_conv)
  obtain u where u: "base_user_find (jb_plugin j) ''ann'' = Some (Some u)" using j(2,3) by (auto simp: users_ok_find)
  then have "u = 0" using j(2) s(1) by (auto simp: users_ok_find users_ok_def split: if_splits)
  moreover obtain w where "tcp_socket_remove_ref 2 (jb_world j) = Some w" "w_socks w 2 = dropped s"
    using remove_ref_drops [OF s(2)] s(3) by auto
  ultimately show ?thesis
    using j(1) u s by (simp add: base_user_quit_def plugin_remove_ref_def dropped_def)
qed

theorem quit_breaks_references_witness:
  "\<exists>j j'. base_user_new ''ann'' demo_job = Some j \<and> base_user_quit ''ann'' False j = Some (True, j') \<and> \<not> ref_inv (jb_world j')"
proof -
  obtain j j' s where j: "base_user_new ''ann'' demo_job = Some j" "base_user_quit ''ann'' False j = Some (True, j')"
      and s: "w_socks (jb_world j') 2 = Some s"
    using demo_quit by (auto simp: bind_eq_Some_conv)
  have w: "jb_world demo_job = last_request" by (simp add: demo_job_def)
  have mem: "w_mem last_request = []" using last_request_inv(2) by (simp add: world_inv_def)
  have f: "driver_frame last_request (jb_world j)" using kept_user_new [OF j(1)] w mem by (simp add: kept_def)
  then have "ref_inv (jb_world j)" using driver_frame_inv(1) last_request_inv(2) by (auto simp: world_inv_def)
  note q = quit_breaks_references [OF this j(2)]
  have "a = 2" if "w_socks (jb_world j) a = Some s'" for a s'
    using driver_frame_sock [OF f that] by (auto simp: last_request_def Let_def split: if_splits)
  with q s have "\<not> ref_inv (jb_world j')" by auto
  with j show ?thesis by blast
qed

end
