(* ===== verification/Plugin_Chat.thy ===== *)
theory Plugin_Chat
  imports Plugin_Users
begin

text \<open>
  The plugin \<open>chat\<close> (plugin/moc_chat.c): users join and quit, and what one user broadcasts is
  pushed to every other user of the table.
\<close>

abbreviation (input) REQ_CMD_CHAT_BCST :: u32 where "REQ_CMD_CHAT_BCST \<equiv> 1011"
abbreviation (input) REQ_CMD_CHAT_PM :: u32 where "REQ_CMD_CHAT_PM \<equiv> 1012"

section \<open>Commands\<close>

text \<open>The loop over the user table that sends a message to everyone but \<open>uid\<close>.\<close>

partial_function (option) tell_others :: "plugin \<Rightarrow> string \<Rightarrow> bytes \<Rightarrow> string option \<Rightarrow> world \<Rightarrow> world option" where
  [code]: "tell_others p uid msgbuf key w = do {
     r \<leftarrow> ne_hash_next key (bi_userh (p_info p));
     (case snd r of
        None \<Rightarrow> Some w
      | Some u \<Rightarrow> do {
          user \<leftarrow> p_users p u;
          tell_others p uid msgbuf (fst r) (if bu_uid user \<noteq> uid then snd (base_msg_send msgbuf (bu_fd user) w) else w) }) }"

text \<open>The node \<open>Output\<close> of the request becomes the message, which is then sent to the others.\<close>

definition announce :: "string \<Rightarrow> int \<Rightarrow> string \<Rightarrow> string \<Rightarrow> job \<Rightarrow> (neoerr \<times> job) option" where
  "announce func line cmd uid j = do {
     node \<leftarrow> hdf_get_obj (qd_hdfrcv (jb_q j)) [] (Some ''Output'');
     path \<leftarrow> node;
     (r, hdf, w1) \<leftarrow> base_msg_new cmd (qd_hdfrcv (jb_q j)) path (jb_world j);
     let j1 = j\<lparr>jb_q := (jb_q j)\<lparr>qd_hdfrcv := hdf\<rparr>, jb_world := w1\<rparr>;
     (case r of
        Inl err \<Rightarrow> Some (pass_at func ''moc_chat.c'' line err, j1)
      | Inr msgbuf \<Rightarrow> do {
          w2 \<leftarrow> tell_others (jb_plugin j1) uid msgbuf None w1;
          Some (STATUS_OK, j1\<lparr>jb_world := w2\<rparr>) }) }"

definition chat_cmd_join :: "job \<Rightarrow> (neoerr \<times> job) option" where
  "chat_cmd_join j = do {
     uid \<leftarrow> get_param_str ''userid'' j;
     (case uid of
        None \<Rightarrow> Some (raise_at ''cmd_join'' ''moc_chat.c'' 17 REP_ERR_BADPARAM ''need userid'', j)
      | Some uid \<Rightarrow> do {
          (r, j1) \<leftarrow> base_user_quit uid True j;
          j2 \<leftarrow> base_user_new uid j1;
          j3 \<leftarrow> set_rcv ''Output.userid'' uid j2;
          announce ''cmd_join'' 26 ''join'' uid j3 }) }"

definition chat_cmd_quit :: "job \<Rightarrow> (neoerr \<times> job) option" where
  "chat_cmd_quit j = do {
     uid \<leftarrow> get_param_str ''userid'' j;
     (case uid of
        None \<Rightarrow> Some (raise_at ''cmd_quit'' ''moc_chat.c'' 52 REP_ERR_BADPARAM ''need userid'', j)
      | Some uid \<Rightarrow> do {
          j1 \<leftarrow> set_rcv ''Output.userid'' uid j;
          (err, j2) \<leftarrow> announce ''cmd_quit'' 58 ''quit'' uid j1;
          if err \<noteq> STATUS_OK then Some (err, j2)
          else do { (r, j3) \<leftarrow> base_user_quit uid False j2; Some (STATUS_OK, j3) } }) }"

definition log_in_first :: string where
  "log_in_first = map char_of [0xe8, 0xaf, 0xb7, 0xe5, 0x85, 0x88, 0xe7, 0x99, 0xbb, 0xe9, 0x99, 0x86 :: nat]"

text \<open>\<open>BASE_GET_UID\<close>: the user of the connection, if one has joined on it.\<close>

definition base_get_uid :: "job \<Rightarrow> string option option" where
  "base_get_uid j =
     (if w_socks (jb_world j) (rq_sock (qd_req (jb_q j))) = None then None
      else case p_appdata (jb_plugin j) (rq_sock (qd_req (jb_q j))) of
        None \<Rightarrow> Some None
      | Some u \<Rightarrow> do { user \<leftarrow> p_users (jb_plugin j) u; Some (Some (bu_uid user)) })"

definition chat_cmd_bcst :: "job \<Rightarrow> (neoerr \<times> job) option" where
  "chat_cmd_bcst j = do {
     uid \<leftarrow> base_get_uid j;
     (case uid of
        None \<Rightarrow> Some (raise_at ''cmd_bcst'' ''moc_chat.c'' 86 REP_ERR_BADPARAM log_in_first, j)
      | Some uid \<Rightarrow> do {
          msg \<leftarrow> get_param_str ''msg'' j;
          (case msg of
             None \<Rightarrow> Some (raise_at ''cmd_bcst'' ''moc_chat.c'' 87 REP_ERR_BADPARAM ''need msg'', j)
           | Some msg \<Rightarrow> do {
               j1 \<leftarrow> set_rcv ''Output.userid'' uid j;
               j2 \<leftarrow> set_rcv ''Output.msg'' msg j1;
               announce ''cmd_bcst'' 96 ''bcst'' uid j2 }) }) }"

definition chat_cmd_pm :: "job \<Rightarrow> (neoerr \<times> job) option" where
  "chat_cmd_pm j = do {
     uid \<leftarrow> get_param_str ''userid'' j;
     Some (case uid of
        None \<Rightarrow> (raise_at ''cmd_pm'' ''moc_chat.c'' 117 REP_ERR_BADPARAM ''need userid'', j)
      | Some uid \<Rightarrow> (STATUS_OK, j)) }"

definition chat_process_driver :: "mcs \<Rightarrow> job \<Rightarrow> job option" where
  "chat_process_driver m j = do {
     let j0 = bump (\<lambda>s. s\<lparr>st_total := st_total s + 1\<rparr>) j;
     (err, j1) \<leftarrow> case_sys_cmd j0 (\<lambda>j.
        if qd_operation (jb_q j) = REQ_CMD_BASE_JOIN then chat_cmd_join j
        else if qd_operation (jb_q j) = REQ_CMD_BASE_QUIT then chat_cmd_quit j
        else if qd_operation (jb_q j) = REQ_CMD_CHAT_BCST then chat_cmd_bcst j
        else if qd_operation (jb_q j) = REQ_CMD_CHAT_PM then chat_cmd_pm j
        else if qd_operation (jb_q j) = REQ_CMD_STATS then cmd_stats j
        else cmd_unknown ''chat_process_driver'' ''moc_chat.c'' 159 j);
     finish_request m False err j1 }"

definition chat_stop_driver :: "plugin \<Rightarrow> plugin option" where
  "chat_stop_driver p = do {
     cd \<leftarrow> p_cache p;
     (r, h) \<leftarrow> cache_free cd;
     Some (p\<lparr>p_cache_freed := True\<rparr>) }"

definition chat_init_driver :: "bool \<Rightarrow> bool \<Rightarrow> bool \<Rightarrow> int \<Rightarrow> hdf \<Rightarrow> (bytes \<times> plugin) option option" where
  "chat_init_driver = plugin_init ''chat''"

section \<open>What the commands leave alone\<close>

lemma quiet_tell_others:
  assumes "tell_others p uid buf key w = Some w'"
  shows "quiet w w'"
proof (rule tell_others.raw_induct [OF _ assms, of "\<lambda>p uid buf key w w'. quiet w w'"], goal_cases)
  case (1 tell p uid buf key w w')
  then show ?case
    using quiet_trans [OF quiet_base_msg_send]
    by (auto split: option.splits if_splits) blast
qed

lemma kept_announce:
  assumes "announce func line cmd uid j = Some (e, j')"
  shows "kept j j' \<and> jb_plugin j' = jb_plugin j"
proof -
  obtain path where path: "hdf_get_obj (qd_hdfrcv (jb_q j)) [] (Some ''Output'') = Some (Some path)"
    using assms by (auto simp: announce_def)
  obtain r h w1 where new: "base_msg_new cmd (qd_hdfrcv (jb_q j)) path (jb_world j) = Some (r, h, w1)"
    using assms by (auto simp: announce_def path)
  obtain w where j': "j' = j\<lparr>jb_q := (jb_q j)\<lparr>qd_hdfrcv := h\<rparr>, jb_world := w\<rparr>" and w: "w = w1 \<or> quiet w1 w"
    using assms quiet_tell_others by (cases r) (auto simp: announce_def path new Let_def)
  have "driver_frame (jb_world j) w \<and> w_entries w = w_entries (jb_world j)" if "w_mem (jb_world j) = []"
    using w base_msg_new_world [OF new that] quiet_driver_frame by auto
  then show ?thesis by (simp add: kept_def j')
qed

lemma kept_chat_join:
  assumes "chat_cmd_join j = Some (e, j')" "\<not> quits_user True (jb_plugin j) (jb_q j)"
  shows "kept j j'"
proof -
  obtain u where u: "get_param_str ''userid'' j = Some u" using assms(1) by (auto simp: chat_cmd_join_def)
  show ?thesis
  proof (cases u)
    case None
    then show ?thesis using assms(1) u by (auto simp: chat_cmd_join_def)
  next
    case (Some uid)
    then obtain r j1 j2 j3 where q: "base_user_quit uid True j = Some (r, j1)" and n: "base_user_new uid j1 = Some j2"
        and s: "set_rcv ''Output.userid'' uid j2 = Some j3" and l: "announce ''cmd_join'' 26 ''join'' uid j3 = Some (e, j')"
      using assms(1) u by (auto simp: chat_cmd_join_def)
    have "j1 = j" using no_quit [OF q _ refl refl assms(2)] u Some by simp
    then have "kept j j3" using kept_trans [OF kept_user_new [OF n] kept_set(2) [OF s]] by simp
    then show ?thesis using kept_announce [OF l] kept_trans by blast
  qed
qed

lemma kept_chat_quit:
  assumes "chat_cmd_quit j = Some (e, j')" "\<not> quits_user False (jb_plugin j) (jb_q j)"
  shows "kept j j'"
proof -
  obtain u where u: "get_param_str ''userid'' j = Some u" using assms(1) by (auto simp: chat_cmd_quit_def)
  show ?thesis
  proof (cases u)
    case None
    then show ?thesis using assms(1) u by (auto simp: chat_cmd_quit_def)
  next
    case (Some uid)
    then obtain err j1 j2 where s: "set_rcv ''Output.userid'' uid j = Some j1"
        and a: "announce ''cmd_quit'' 58 ''quit'' uid j1 = Some (err, j2)" and l: "j' = j2 \<or> (\<exists>r. base_user_quit uid False j2 = Some (r, j'))"
      using assms(1) u by (auto simp: chat_cmd_quit_def split: if_splits)
    have k: "kept j j2" using kept_trans [OF kept_set(2) [OF s]] kept_announce [OF a] by blast
    have "jb_plugin j2 = jb_plugin j" using kept_announce [OF a] s by (auto simp: set_rcv_def)
    then have "j' = j2" using l no_quit [of uid False j2 _ j' j] u Some assms(2) k by (auto simp: kept_def)
    with k show ?thesis by simp
  qed
qed

lemma kept_chat_bcst:
  assumes "chat_cmd_bcst j = Some (e, j')"
  shows "kept j j'"
  using assms kept_trans [OF kept_trans [OF kept_set(2) kept_set(2)]] kept_announce
  by (auto simp: chat_cmd_bcst_def split: option.splits)

lemma kept_chat_pm: "chat_cmd_pm j = Some (e, j') \<Longrightarrow> kept j j'"
  by (auto simp: chat_cmd_pm_def split: option.splits)

lemma chat_driver_kept:
  assumes "chat_process_driver m j = Some j'" "neutral (jb_plugin j) (jb_q j)"
  shows "kept j j'"
  using assms unfolding chat_process_driver_def Let_def
  by (auto simp: neutral_def quits_user_bump split: if_splits elim!: driver_kept
      dest!: kept_chat_join kept_chat_quit kept_chat_bcst kept_chat_pm kept_stats kept_unknown)

interpretation chat: driver "run_driver (chat_process_driver m)" neutral for m
  by unfold_locales (rule run_driver_frame [OF chat_driver_kept])

section \<open>Broadcasts\<close>

text \<open>The users of a table in the order of the walk, but for one.\<close>

definition others :: "plugin \<Rightarrow> string \<Rightarrow> (string, addr) ne_hashnode list \<Rightarrow> base_user list" where
  "others p uid ns = filter (\<lambda>user. bu_uid user \<noteq> uid) (map (\<lambda>n. the (p_users p (n_value n))) ns)"

definition fds_ok :: "plugin \<Rightarrow> bool" where
  "fds_ok p \<longleftrightarrow> (\<forall>u user. p_users p u = Some user \<longrightarrow> 0 < bu_fd user)"

lemma user_new_fds: "base_user_new uid j = Some j' \<Longrightarrow> fds_ok (jb_plugin j) \<Longrightarrow> 0 < rq_fd (qd_req (jb_q j)) \<Longrightarrow> fds_ok (jb_plugin j')"
  by (auto simp: base_user_new_def fds_ok_def Let_def split: if_splits)

lemma push_all_at_once:
  assumes "0 < fd" "w_sends w = []" "buf \<noteq> []"
  shows "w_log (snd (base_msg_send buf fd w)) = w_log w @ [Sent fd buf] \<and> w_sends (snd (base_msg_send buf fd w)) = []"
proof -
  have "w_sends (snd (do_send fd buf w)) = []" using assms(2) by (simp add: do_send_def send_call_def logged_def Let_def)
  moreover have "msg_send_loop fd buf 0 w = snd (do_send fd buf w)"
    using assms do_send_all [OF assms(2,3), of fd] by (subst msg_send_loop.simps) (auto simp: Let_def)
  ultimately show ?thesis using assms(1) do_send_all [OF assms(2,3), of fd] by (simp add: base_msg_send_def)
qed

lemma users_ok_node:
  assumes "users_ok p" "n \<in> set (concat (h_nodes (userh p)))"
  shows "\<exists>user. p_users p (n_value n) = Some user \<and> bu_uid user = n_key n"
proof -
  have "hash_inv (userh p)" using assms(1) by (simp add: users_ok_def)
  then have "hash_map (userh p) (n_key n) = Some (n_value n)" unfolding hash_map_iff [OF \<open>hash_inv (userh p)\<close>] using assms(2) by blast
  then show ?thesis using assms(1) unfolding users_ok_def by blast
qed

lemma tell_others_from:
  assumes ok: "users_ok p" "fds_ok p" and buf: "buf \<noteq> []" and "w_sends w = []"
    and "ne_hash_next key (userh p) = Some (case ns of [] \<Rightarrow> (key, None) | n # _ \<Rightarrow> (Some (n_key n), Some (n_value n)))"
    and "concat (h_nodes (userh p)) = xs @ ns"
  shows "\<exists>w'. tell_others p uid buf key w = Some w' \<and> w_sends w' = [] \<and> w_log w' = w_log w @ map (\<lambda>user. Sent (bu_fd user) buf) (others p uid ns)"
  using assms(4-)
proof (induction ns arbitrary: w key xs)
  case Nil
  then show ?case by (subst tell_others.simps) (simp add: others_def)
next
  case (Cons n ns)
  have inv: "hash_inv (userh p)" using ok(1) by (simp add: users_ok_def)
  obtain user where user: "p_users p (n_value n) = Some user" "bu_uid user = n_key n" using users_ok_node [OF ok(1)] Cons.prems(3) by fastforce
  let ?w = "if bu_uid user \<noteq> uid then snd (base_msg_send buf (bu_fd user) w) else w"
  have w: "w_sends ?w = []" "w_log ?w = w_log w @ (if bu_uid user \<noteq> uid then [Sent (bu_fd user) buf] else [])"
    using push_all_at_once [OF _ Cons.prems(1) buf, of "bu_fd user"] ok(2) user(1) Cons.prems(1) by (auto simp: fds_ok_def)
  have step: "tell_others p uid buf key w = tell_others p uid buf (Some (n_key n)) ?w"
    using Cons.prems(2) user(1) by (subst tell_others.simps) simp
  have nxt: "ne_hash_next (Some (n_key n)) (userh p) = Some (case ns of [] \<Rightarrow> (Some (n_key n), None) | m # _ \<Rightarrow> (Some (n_key m), Some (n_value m)))"
    using ne_hash_next_step [OF inv Cons.prems(3)] .
  have "concat (h_nodes (userh p)) = (xs @ [n]) @ ns" using Cons.prems(3) by simp
  from Cons.IH [OF w(1) nxt this] obtain w' where "tell_others p uid buf (Some (n_key n)) ?w = Some w'" "w_sends w' = []"
      "w_log w' = w_log ?w @ map (\<lambda>user. Sent (bu_fd user) buf) (others p uid ns)"
    by blast
  then show ?case using step w(2) user(1) by (auto simp: others_def)
qed

lemma others_users:
  assumes "users_ok p"
  shows "set (others p uid (concat (h_nodes (userh p)))) = {user. bu_uid user \<noteq> uid \<and> (\<exists>u. p_users p u = Some user)}"
    "distinct (map bu_uid (others p uid (concat (h_nodes (userh p)))))"
proof -
  let ?ns = "concat (h_nodes (userh p))"
  have inv: "hash_inv (userh p)" using assms by (simp add: users_ok_def)
  have node: "the (p_users p (n_value n)) \<in> ran (p_users p) \<and> bu_uid (the (p_users p (n_value n))) = n_key n" if "n \<in> set ?ns" for n
    using users_ok_node [OF assms that] by (auto simp: ran_def)
  have "user \<in> (\<lambda>n. the (p_users p (n_value n))) ` set ?ns" if u: "p_users p u = Some user" for u user
  proof -
    have "hash_map (userh p) (bu_uid user) = Some u" using assms u unfolding users_ok_def by blast
    then obtain n where "n \<in> set ?ns" "n_value n = u" unfolding hash_map_iff [OF inv] by blast
    then show ?thesis using u by (metis image_eqI option.sel)
  qed
  then show "set (others p uid ?ns) = {user. bu_uid user \<noteq> uid \<and> (\<exists>u. p_users p u = Some user)}"
    using node unfolding others_def ran_def set_filter set_map by blast
  have "map bu_uid (map (\<lambda>n. the (p_users p (n_value n))) ?ns) = map n_key ?ns"
    unfolding map_map by (rule map_cong [OF refl]) (use node in \<open>simp del: set_concat\<close>)
  then have "distinct (map bu_uid (map (\<lambda>n. the (p_users p (n_value n))) ?ns))" using distinct_concat_keys [OF inv] by metis
  then show "distinct (map bu_uid (others p uid ?ns))" unfolding others_def by (rule distinct_map_filter)
qed


text \<open>A message of one user while another has joined.\<close>

definition demo_out :: hdf where
  "demo_out = HDF None None False [] [HDF (Some ''Output'') None False [] [HDF (Some ''msg'') (Some ''hi'') False [] []]]"

lemma demo_out_packs:
  "do {
     (r, root1) \<leftarrow> hdf_set_value demo_out [0] ''_Reserve'' (Some ''moc'');
     (e, root2) \<leftarrow> hdf_set_attr root1 [0] (Some ''_Reserve'') ''cmd'' (Some ''bcst'');
     node \<leftarrow> node_at root2 [0];
     p \<leftarrow> hdf_write_string (w_rnd last_request) node;
     Some (isl e) } = Some False"
  "hdf_get_obj demo_out [] (Some ''Output'') = Some (Some [0])"
  by code_simp+

lemma demo_message:
  assumes "w_mem w = []" "w_rnd w = w_rnd last_request"
  shows "\<exists>buf hdf. base_msg_new ''bcst'' demo_out [0] w = Some (Inr buf, hdf, w) \<and> buf \<noteq> []"
proof -
  obtain r root1 e root2 node p where 0: "hdf_set_value demo_out [0] ''_Reserve'' (Some ''moc'') = Some (r, root1)"
      "hdf_set_attr root1 [0] (Some ''_Reserve'') ''cmd'' (Some ''bcst'') = Some (e, root2)" "node_at root2 [0] = Some node"
      "hdf_write_string (w_rnd last_request) node = Some p" "\<not> isl e"
    using demo_out_packs(1) by (auto simp: bind_eq_Some_conv simp del: node_at.simps)
  then obtain u where "e = Inr u" by (cases e) auto
  note 1 = 0(1,2) [unfolded this] 0(3,4)
  obtain n b where "pack_hdf (w_rnd last_request) node (replicate MAX_PACKET_LEN NUL) MAX_PACKET_LEN = Some (n, b)" "0 < n"
    using pack_hdf_writes [OF 1(4), of "replicate MAX_PACKET_LEN NUL"] by auto
  then show ?thesis using 1 assms by (simp add: base_msg_new_def Let_def push_bytes_def be32_def malloc_ok_def)
qed


end
