(* ===== verification/Moc_Server.thy ===== *)
theory Moc_Server
  imports Plugin_Chat
begin

text \<open>
  The whole server: any number of \<open>base\<close>, \<open>chat\<close> and \<open>skeleton\<close> plugins started by \<open>moc_start\<close>, connections,
  queues and workers in any interleaving, and the properties of every run.
\<close>

section \<open>A server with all kinds of plugins\<close>

datatype plugin_kind = Base_plugin | Chat_plugin | Skeleton_plugin

definition plugin_process :: "mcs \<Rightarrow> plugin_kind \<Rightarrow> job \<Rightarrow> job option" where
  "plugin_process m k =
     (case k of Base_plugin \<Rightarrow> base_process_driver m | Chat_plugin \<Rightarrow> chat_process_driver m | Skeleton_plugin \<Rightarrow> skeleton_process_driver m)"

definition run_plugin :: "mcs \<Rightarrow> (plugin_kind \<times> plugin) process_driver" where
  "run_plugin m a kp w = map_option (\<lambda>(p, w'). ((fst kp, p), w')) (run_driver (plugin_process m (fst kp)) a (snd kp) w)"

definition stop_plugin :: "plugin_kind \<times> plugin \<Rightarrow> (plugin_kind \<times> plugin) option" where
  "stop_plugin kp =
     map_option (\<lambda>p. (fst kp, p))
       ((case fst kp of Base_plugin \<Rightarrow> base_stop_driver | Chat_plugin \<Rightarrow> chat_stop_driver | Skeleton_plugin \<Rightarrow> skeleton_stop_driver) (snd kp))"

interpretation moc: driver "run_plugin m" "\<lambda>kp. neutral (snd kp)" for m
proof (unfold_locales, goal_cases)
  case (1 a kp w kp' w' n)
  then show ?case
    using base.process_frame [of m a "snd kp" w _ w' n] chat.process_frame [of m a "snd kp" w _ w' n]
      skeleton.process_frame [of m a "snd kp" w _ w' n]
    by (cases "fst kp") (auto simp: run_plugin_def plugin_process_def)
qed

section \<open>Starting\<close>

text \<open>A state before any connection: the plugins' queues are empty.\<close>

definition idle :: "world \<Rightarrow> bool" where
  "idle w \<longleftrightarrow> w_socks w = (\<lambda>_. None) \<and> w_entries w = (\<lambda>_. None) \<and> w_mem w = [] \<and> fresh w \<and>
     (\<forall>ev e. w_events w ev = Some e \<longrightarrow> ee_queue e = queue_create) \<and> table_ok w"

lemma idle_inv: "idle w \<Longrightarrow> world_inv {} w"
proof -
  assume i: "idle w"
  then have "ref_inv w" by (auto simp: idle_def ref_inv_def)
  moreover have "queues_hold (\<lambda>_. []) {} w" using i queue_rep_create by (auto simp: idle_def queues_hold_def)
  ultimately show ?thesis using i by (auto simp: world_inv_def idle_def)
qed

lemma start_driver_idle:
  assumes "idle w" "moc_start_driver process stop init w = Some (r, w')"
    and "\<forall>c \<in> set (w_table w). length c \<le> k" "k \<le> chainlen"
  shows "idle w' \<and> (\<forall>c \<in> set (w_table w'). length c \<le> k + 1)"
proof (cases init)
  case None
  then show ?thesis using assms by (auto simp: moc_start_driver_def)
next
  case (Some x)
  obtain name s where x: "x = (name, s)" by (cases x)
  let ?ev = "w_next w"
  let ?w1 = "w\<lparr>w_events := (w_events w)(?ev \<mapsto> \<lparr>ee_name = name, ee_queue = queue_create, ee_stop = False\<rparr>), w_next := ?ev + 1\<rparr>"
  let ?h = "evt_bucket ?w1 name"
  have ne: "w_table w \<noteq> []" using assms(1) by (simp add: idle_def table_ok_def)
  then have h: "?h < length (w_table w)" by (simp add: evt_bucket_def)
  then have mem: "w_table w ! ?h \<in> set (w_table w)" by simp
  then have "length (w_table w ! ?h) \<le> k" using assms(3) by blast
  then have w': "w' = ?w1\<lparr>w_table := (w_table w)[?h := ?ev # w_table w ! ?h]\<rparr>"
    using assms(2,4) ne by (simp add: moc_start_driver_def Some x Let_def)
  have new: "set ((w_table w)[?h := ?ev # w_table w ! ?h]) \<subseteq> insert (?ev # w_table w ! ?h) (set (w_table w))"
    by (rule set_update_subset_insert)
  have "table_ok w'"
    using new mem assms(1) ne by (auto simp: w' table_ok_def idle_def)
  moreover have "\<forall>c \<in> set (w_table w'). length c \<le> k + 1"
  proof
    fix c
    assume "c \<in> set (w_table w')"
    then have "c = ?ev # w_table w ! ?h \<or> c \<in> set (w_table w)" using new by (auto simp: w')
    then show "length c \<le> k + 1" using assms(3) \<open>length (w_table w ! ?h) \<le> k\<close> by auto
  qed
  ultimately show ?thesis using assms(1) by (auto simp: w' idle_def fresh_def)
qed

lemma start_all_idle:
  assumes "idle w" "moc_start_all process stop load ns w = Some (rs, w')"
    and "\<forall>c \<in> set (w_table w). length c \<le> k" "k + length ns \<le> chainlen"
  shows "idle w'"
  using assms
proof (induction ns arbitrary: w k rs)
  case Nil
  then show ?case by simp
next
  case (Cons n ns)
  then obtain r w1 rs1 where 1: "moc_start_driver process stop (load n) w = Some (r, w1)" "moc_start_all process stop load ns w1 = Some (rs1, w')"
    by auto
  have "idle w1 \<and> (\<forall>c \<in> set (w_table w1). length c \<le> k + 1)" using start_driver_idle [OF Cons.prems(1) 1(1) Cons.prems(3)] Cons.prems(4) by simp
  then show ?case using Cons.IH [OF _ 1(2), of "k + 1"] Cons.prems(4) by simp
qed

definition blank :: "world \<Rightarrow> bool" where
  "blank w \<longleftrightarrow> w_socks w = (\<lambda>_. None) \<and> w_entries w = (\<lambda>_. None) \<and> w_events w = (\<lambda>_. None) \<and> w_mem w = []"

definition plugin_count :: "string \<Rightarrow> world \<Rightarrow> nat" where
  "plugin_count pre w =
     (case hdf_get_obj (w_cfg w) [] (Some (pre @ ''.plugins.0'')) of
        None \<Rightarrow> 0
      | Some res \<Rightarrow> (case plugin_names (w_cfg w) res of None \<Rightarrow> 0 | Some ns \<Rightarrow> length ns))"

lemma moc_start_idle:
  assumes "blank w0" "moc_start pre process stop load w0 = Some (rs, w)" "plugin_count pre w0 \<le> chainlen"
  shows "idle w"
proof -
  obtain res ns where ns: "hdf_get_obj (w_cfg w0) [] (Some (pre @ ''.plugins.0'')) = Some res" "plugin_names (w_cfg w0) res = Some ns"
      and run: "moc_start_all process stop load ns (w0\<lparr>w_table := replicate hashlen []\<rparr>) = Some (rs, w)"
    using assms(2) by (auto simp: moc_start_def)
  have "idle (w0\<lparr>w_table := replicate hashlen []\<rparr>)" using assms(1) by (auto simp: blank_def idle_def fresh_def table_ok_def)
  from start_all_idle [OF this run, of 0] show ?thesis using assms(3) ns by (simp add: plugin_count_def)
qed

text \<open>The server right after \<open>moc_start\<close>.\<close>

definition server_start :: "world \<Rightarrow> (addr \<Rightarrow> 's) \<Rightarrow> 's server" where
  "server_start w st = \<lparr>sv_world = w, sv_frames = (\<lambda>_. None), sv_busy = (\<lambda>_. None), sv_state = st\<rparr>"

lemma server_start_inv: "idle w \<Longrightarrow> server_inv (server_start w st)"
  using idle_inv [of w]
  by (auto simp: server_inv_def server_start_def in_work_def idle_def open_socks_def)

lemma reachable_inv:
  assumes "blank w0" "moc_start pre (run_plugin m) stop_plugin load w0 = Some (rs, w)" "plugin_count pre w0 \<le> chainlen"
    and "server_runs (run_plugin m) (\<lambda>kp. neutral (snd kp)) (server_start w st) S"
  shows "server_inv S"
  using moc.runs_inv [OF assms(4)] server_start_inv [OF moc_start_idle [OF assms(1-3)]] by blast

section \<open>Properties\<close>


text \<open>A server with one \<open>chat\<close> plugin, and a client that connects.\<close>

definition demo_load :: "string option \<Rightarrow> (bytes \<times> plugin_kind \<times> plugin) option" where
  "demo_load n = (if n = Some ''chat'' then Some (''chat'', Chat_plugin, demo_plugin) else None)"

definition demo_mcs :: mcs where
  "demo_mcs = \<lparr>mcs_err_valid = (\<lambda>e. case e of NErr f _ \<Rightarrow> Some f | _ \<Rightarrow> None), mcs_set_int_value_with_type = (\<lambda>h n i. h), mcs_errors = None\<rparr>"

definition demo_blank :: world where
  "demo_blank = empty_world\<lparr>w_cfg := HDF None None False []
     [HDF (Some ''Server'') None False [] [HDF (Some ''plugins'') None False [] [HDF (Some ''0'') (Some ''chat'') False [] []]]]\<rparr>"

definition demo_started :: world where
  "demo_started = (case moc_start ''Server'' (run_plugin demo_mcs) stop_plugin demo_load demo_blank of
     None \<Rightarrow> demo_blank | Some (rs, w) \<Rightarrow> w)"

lemma demo_started_ok:
  "case moc_start ''Server'' (run_plugin demo_mcs) stop_plugin demo_load demo_blank of None \<Rightarrow> False | Some (rs, w) \<Rightarrow> True"
  "plugin_count ''Server'' demo_blank \<le> chainlen"
  by code_simp+

lemma demo_moc_start: "\<exists>rs. moc_start ''Server'' (run_plugin demo_mcs) stop_plugin demo_load demo_blank = Some (rs, demo_started)"
  using demo_started_ok(1) by (auto simp: demo_started_def split: option.splits)

lemma demo_blank_ok: "blank demo_blank"
  by (simp add: blank_def demo_blank_def empty_world_def)

definition demo_connected :: "(plugin_kind \<times> plugin) server" where
  "demo_connected = (case tcp_newconnection 7 True demo_junk demo_started of
     Some (Some (a, fr), w) \<Rightarrow> (server_start demo_started (\<lambda>_. (Chat_plugin, demo_plugin)))\<lparr>sv_world := w, sv_frames := [a \<mapsto> fr]\<rparr>
   | _ \<Rightarrow> server_start demo_started (\<lambda>_. (Chat_plugin, demo_plugin)))"

lemma demo_accepts: "case tcp_newconnection 7 True demo_junk demo_started of Some (Some (a, fr), w) \<Rightarrow> a = 1 | _ \<Rightarrow> False"
  by code_simp

lemma demo_runs:
  "server_runs (run_plugin demo_mcs) (\<lambda>kp. neutral (snd kp)) (server_start demo_started (\<lambda>_. (Chat_plugin, demo_plugin))) demo_connected"
proof -
  let ?S = "server_start demo_started (\<lambda>_. (Chat_plugin, demo_plugin))"
  obtain fr w where new: "tcp_newconnection 7 True demo_junk (sv_world ?S) = Some (Some (1, fr), w)"
    using demo_accepts by (auto simp: server_start_def split: option.splits)
  from server_step.accept [OF new, of "run_plugin demo_mcs" "\<lambda>kp. neutral (snd kp)"] show ?thesis
    using new by (simp add: server_runs_def demo_connected_def server_start_def r_into_rtranclp)
qed

lemma demo_connected_sock: "w_socks (sv_world demo_connected) 1 \<noteq> None"
  by code_simp






end
