(* ===== verification/Client_Server.thy ===== *)
theory Client_Server
  imports Client_Wire Moc_Server
begin

text \<open>
  Client and server together: what the client sends is what the server parses and queues, what the
  server replies is what the client's caller gets.
\<close>

section \<open>A client and a server\<close>

definition demo_srv :: moc_srv where
  "demo_srv = \<lparr>sr_fd = 5, sr_addr = 0, sr_port = 5000, sr_nblock = False, sr_tv = (0, 0), sr_buf = None, sr_len = 0, sr_pktsize = 0, sr_excess = 0\<rparr>"

definition demo_evt :: moc_t where
  "demo_evt = \<lparr>mv_ename = ''base'', mv_cmd = 0, mv_flags = 0, mv_errcode = 0, mv_psize = 0, mv_servers = [demo_srv],
     mv_rcvbuf = replicate MAX_PACKET_LEN NUL, mv_payload = replicate MAX_PACKET_LEN NUL, mv_hdfsnd = demo_packet, mv_hdfrcv = hdf_init\<rparr>"

definition demo_arg :: "rx list \<Rightarrow> moc_arg" where
  "demo_arg rs = \<lparr>ma_evth = demo_hash, ma_evts = Map.empty,
     ma_cbkh = demo_hash,
     ma_queue = \<lparr>q_size = 0, q_top = None, q_bottom = None\<rparr>, ma_heap = Map.empty, ma_next = 0, ma_reqid = 0,
     ma_net = \<lparr>nt_in = rs, nt_sends = [3, 2], nt_conns = [], nt_out = [], nt_closed = [], nt_errno = 0, nt_rnd = id\<rparr>, ma_mem = []\<rparr>"

lemma demo_can_send: "can_send demo_evt (demo_arg rs)"
  using demo_packet_sendable by (simp add: can_send_def demo_evt_def demo_arg_def demo_srv_def)

definition demo_known :: world where
  "demo_known = last_request\<lparr>w_table := [[0]]\<rparr>"

lemma demo_known_ok:
  "world_inv {} demo_known" "queues_hold (\<lambda>ev. if ev = 0 then [1] else []) {} demo_known"
  "find_entry_in_table demo_known ''base'' = Some (Some 0)"
proof -
  show h: "queues_hold (\<lambda>ev. if ev = 0 then [1] else []) {} demo_known"
    using last_request_inv(1) by (simp add: queues_hold_def demo_known_def)
  have "ref_inv last_request" using last_request_inv(2) by (simp add: world_inv_def)
  moreover have "w_next demo_known = w_next last_request" "w_entries demo_known = w_entries last_request"
    "w_socks demo_known = w_socks last_request" "w_events demo_known = w_events last_request" by (simp_all add: demo_known_def)
  ultimately have "ref_inv demo_known" unfolding ref_inv_def fresh_def holders_def by (simp only:)
  moreover have "table_ok demo_known" by (simp add: table_ok_def demo_known_def last_request_def Let_def)
  moreover have "w_mem demo_known = []" using last_request_inv(2) by (simp add: world_inv_def demo_known_def)
  ultimately show "world_inv {} demo_known" using h by (auto simp: world_inv_def)
  show "find_entry_in_table demo_known ''base'' = Some (Some 0)"
    by (simp add: find_entry_in_table_def evt_bucket_def demo_known_def last_request_def Let_def)
qed

section \<open>A request is queued\<close>

lemma request_queued:
  assumes inv: "world_inv X w" "queues_hold Q X w" and s: "w_socks w a = Some s" "rq_sock (sk_req s) = a"
    and t: "sendable hdf" "length ename \<le> 475" "reqid < 2 ^ 28"
    and ev: "find_entry_in_table w ename = Some (Some ev)" "w_events w ev = Some e" "q_size (ee_queue e) \<le> MAX_QUEUE_ENTRY"
  shows "\<exists>w' n. parse_message a (request_bytes reqid cmd flags ename hdf) w = Some (True, w') \<and>
     queues_hold (Q(ev := if flags AND 2 \<noteq> 0 then w_next w # Q ev else Q ev @ [w_next w])) X w' \<and>
     w_entries w' (w_next w) = Some n \<and>
     qe_data n = \<lparr>qd_operation = ucast cmd, qd_ename = ename, qd_hdfrcv = hdf, qd_hdfsnd = hdf_init,
       qd_req = (sk_req s)\<lparr>rq_id := be32 reqid, rq_cmd := cmd, rq_flags := flags\<rparr>\<rparr>"
proof -
  define req where "req = (sk_req s)\<lparr>rq_id := be32 reqid, rq_cmd := cmd, rq_flags := flags\<rparr>"
  let ?w = "w\<lparr>w_socks := (w_socks w)(a \<mapsto> s\<lparr>sk_req := req\<rparr>)\<rparr>"
  let ?sync = "flags AND 2 \<noteq> 0"
  have rs: "rq_sock req = a" using s(2) by (simp add: req_def)
  have mem: "w_mem w = []" and fr: "fresh w" using inv(1) ref_inv_fresh by (auto simp: world_inv_def)
  have fr': "fresh ?w" using fr s(1) by (auto simp: fresh_def)
  have h': "queues_hold Q X ?w" using inv(2) by (simp add: queues_hold_def)
  have make: "make_queue_long_entry req ename hdf ?w = Some (Some (w_next w), entered_world req ename hdf (s\<lparr>sk_req := req\<rparr>) ?w)"
    using make_entry_plenty [of ?w req "s\<lparr>sk_req := req\<rparr>" ename hdf] mem rs by simp
  have "w_next w \<notin> X" using held_alloc [OF inv(2), of "w_next w"] fr by (force simp: fresh_def)
  moreover have nx: "w_next ?w = w_next w" by simp
  moreover note enqueue_holds [OF entered_queues [OF h' fr', of req ename hdf "s\<lparr>sk_req := req\<rparr>"], of "new_entry req ename hdf" ev e ?sync, unfolded nx] ev(2)
  ultimately obtain w' where w': "enqueue ?sync ev (w_next w) (entered_world req ename hdf (s\<lparr>sk_req := req\<rparr>) ?w) = Some w'"
      "queues_hold (Q(ev := if ?sync then w_next w # Q ev else Q ev @ [w_next w])) X w'"
      "only_prev (insert (w_next w) (set (Q ev))) (w_entries (entered_world req ename hdf (s\<lparr>sk_req := req\<rparr>) ?w)) (w_entries w')"
    by (auto simp: new_entry_def)
  have find: "find_entry_in_table ?w ename = Some (Some ev)" using ev(1) by (auto simp: find_entry_in_table_def evt_bucket_def split: if_splits)
  have "put_in_queue req ?sync ename hdf ?w = Some (True, w')"
    using ev make w'(1) find unfolding put_in_queue_def put_in_queue_long_def by simp
  then have "parse_message a (request_bytes reqid cmd flags ename hdf) w = Some (True, w')"
    using parse_request [OF t s(1) req_def] by simp
  moreover obtain n where "w_entries w' (w_next w) = Some n" using held_alloc [OF w'(2), of "w_next w" ev] by (cases ?sync) auto
  moreover from only_prev_data [OF w'(3) this] have "qe_data n = qe_data (new_entry req ename hdf)" by (auto simp: new_entry_def)
  ultimately show ?thesis using w'(2) by (auto simp: new_entry_def req_def)
qed

text \<open>What \<open>mevt_send\<close> puts on the wire, and what is left in the event.\<close>

lemma sends_request:
  assumes "can_send evt arg"
  shows "\<exists>evt2 as outs. mevt_send None cmd flags evt arg =
       Some (True, 0, evt2, arg\<lparr>ma_reqid := next_reqid (ma_reqid arg), ma_net := (ma_net arg)\<lparr>nt_sends := as, nt_out := nt_out (ma_net arg) @ outs\<rparr>\<rparr>) \<and>
     concat (map snd outs) = frame (request_bytes (next_reqid (ma_reqid arg)) cmd flags (mv_ename evt) (mv_hdfsnd evt)) \<and>
     mv_servers evt2 = mv_servers evt \<and> mv_rcvbuf evt2 = mv_rcvbuf evt \<and> mv_ename evt2 = mv_ename evt \<and> mv_errcode evt2 = mv_errcode evt \<and>
     mv_hdfsnd evt2 = hdf_init \<and> mv_hdfrcv evt2 = hdf_init"
proof -
  let ?id = "next_reqid (ma_reqid arg)"
  let ?evt = "evt\<lparr>mv_cmd := cmd, mv_flags := flags\<rparr>"
  let ?arg = "arg\<lparr>ma_reqid := ?id\<rparr>"
  let ?m = "request_bytes ?id cmd flags (mv_ename evt) (mv_hdfsnd evt)"
  have c: "can_send ?evt ?arg" using assms by (simp add: can_send_def)
  have ne: "mv_servers ?evt \<noteq> []" using assms by (simp add: can_send_def)
  from send_request [OF c refl refl, of "nt_rnd (ma_net ?arg)" ?id cmd flags] obtain b m1 as outs where
      snd: "put_request (nt_rnd (ma_net ?arg)) ?id cmd flags (mv_ename evt) (mv_hdfsnd evt) (mv_payload evt) = Some (4 + length ?m, b)"
      "tcp_srv_send (mv_ename evt) (mv_servers evt ! 0) b (4 + length ?m) ?arg =
        Some (True, mv_servers evt ! 0, m1, ?arg\<lparr>ma_net := (ma_net arg)\<lparr>nt_sends := as, nt_out := nt_out (ma_net arg) @ outs\<rparr>\<rparr>)"
      "concat (map snd outs) = be32 (of_nat (4 + length ?m)) @ ?m"
    by auto
  let ?evt2 = "?evt\<lparr>mv_payload := m1, mv_psize := 4 + length ?m, mv_servers := (mv_servers evt)[0 := mv_servers evt ! 0], mv_hdfsnd := hdf_init, mv_hdfrcv := hdf_init\<rparr>"
  have "mevt_send None cmd flags evt arg =
      Some (True, 0, ?evt2, ?arg\<lparr>ma_net := (ma_net arg)\<lparr>nt_sends := as, nt_out := nt_out (ma_net arg) @ outs\<rparr>\<rparr>)"
    using snd(1,2) pick_first [OF ne] unfolding mevt_send_def Let_def by simp
  moreover have "concat (map snd outs) = frame ?m" using snd(3) by (simp add: frame_def)
  ultimately show ?thesis by (intro exI [of _ ?evt2] exI [of _ as] exI [of _ outs]) simp
qed

lemma frameable_request: "can_send evt arg \<Longrightarrow> frameable (request_bytes reqid cmd flags (mv_ename evt) (mv_hdfsnd evt))"
  using length_packet_of [of "mv_hdfsnd evt"] by (simp add: frameable_def length_request_bytes can_send_def)

text \<open>An asynchronous request is entered at the end of the plugin's queue.\<close>

lemma trigger_queued:
  assumes "can_send evt arg" "flags AND 2 = 0" "next_reqid (ma_reqid arg) < 2 ^ 28"
    and "world_inv X w" "queues_hold Q X w" "w_socks w a = Some s" "rq_sock (sk_req s) = a"
    and "find_entry_in_table w (mv_ename evt) = Some (Some ev)" "w_events w ev = Some e" "q_size (ee_queue e) \<le> MAX_QUEUE_ENTRY"
  shows "\<exists>evt' arg' outs m w' n. mevt_trigger None cmd flags evt arg = Some (REP_OK, evt', arg') \<and>
     nt_out (ma_net arg') = nt_out (ma_net arg) @ outs \<and> concat (map snd outs) = frame m \<and> frameable m \<and>
     parse_message a m w = Some (True, w') \<and> queues_hold (Q(ev := Q ev @ [w_next w])) X w' \<and> w_entries w' (w_next w) = Some n \<and>
     qd_operation (qe_data n) = ucast cmd \<and> qd_hdfrcv (qe_data n) = mv_hdfsnd evt \<and> rq_flags (qd_req (qe_data n)) = flags \<and>
     rq_id (qd_req (qe_data n)) = be32 (next_reqid (ma_reqid arg)) \<and> rq_sock (qd_req (qe_data n)) = a"
proof -
  let ?id = "next_reqid (ma_reqid arg)"
  let ?m = "request_bytes ?id cmd flags (mv_ename evt) (mv_hdfsnd evt)"
  have t: "sendable (mv_hdfsnd evt)" "length (mv_ename evt) \<le> 475" using assms(1) by (simp_all add: can_send_def)
  from sends_request [OF assms(1), of cmd flags] obtain evt2 as outs where snd: "mevt_send None cmd flags evt arg =
       Some (True, 0, evt2, arg\<lparr>ma_reqid := ?id, ma_net := (ma_net arg)\<lparr>nt_sends := as, nt_out := nt_out (ma_net arg) @ outs\<rparr>\<rparr>)"
      "concat (map snd outs) = frame ?m" by blast
  then have trig: "mevt_trigger None cmd flags evt arg =
      Some (REP_OK, evt2, arg\<lparr>ma_reqid := ?id, ma_net := (ma_net arg)\<lparr>nt_sends := as, nt_out := nt_out (ma_net arg) @ outs\<rparr>\<rparr>)"
    using assms(2) by (simp add: mevt_trigger_def)
  obtain w' n where w': "parse_message a ?m w = Some (True, w')" "queues_hold (Q(ev := Q ev @ [w_next w])) X w'" "w_entries w' (w_next w) = Some n"
      "qe_data n = \<lparr>qd_operation = ucast cmd, qd_ename = mv_ename evt, qd_hdfrcv = mv_hdfsnd evt, qd_hdfsnd = hdf_init,
         qd_req = (sk_req s)\<lparr>rq_id := be32 ?id, rq_cmd := cmd, rq_flags := flags\<rparr>\<rparr>"
    using request_queued [OF assms(4-7) t assms(3,8-10), of cmd flags] assms(2) by auto
  then show ?thesis
    using trig snd(2) frameable_request [OF assms(1)] assms(7)
    by (intro exI [of _ evt2] exI [of _ "arg\<lparr>ma_reqid := ?id, ma_net := (ma_net arg)\<lparr>nt_sends := as, nt_out := nt_out (ma_net arg) @ outs\<rparr>\<rparr>"]
        exI [of _ outs] exI [of _ ?m] exI [of _ w'] exI [of _ n]) simp
qed

section \<open>A reply is understood\<close>

text \<open>The reply of the server to a request: a code alone, or a code with a data tree.\<close>

definition reply_bytes :: "req_info \<Rightarrow> int \<Rightarrow> hdf option \<Rightarrow> bytes" where
  "reply_bytes req code t = (case t of None \<Rightarrow> mini_bytes req code | Some t \<Rightarrow> long_bytes req code (packet_of t))"

lemma server_replies:
  assumes "sendable (qd_hdfsnd q)" "hchild (qd_hdfsnd q) \<noteq> []" "w_mem w = []"
  shows "reply_trigger q code w = Some (True, snd (rep_send (qd_req q) (reply_bytes (qd_req q) code (Some (qd_hdfsnd q))) w))"
proof -
  obtain rest where p: "pack_hdf (w_rnd w) (qd_hdfsnd q) (replicate MAX_PACKET_LEN NUL) MAX_PACKET_LEN =
      Some (length (packet_of (qd_hdfsnd q)), packet_of (qd_hdfsnd q) @ rest)"
    using pack_sendable [OF assms(1), of "replicate MAX_PACKET_LEN NUL" "w_rnd w"] by auto
  have "packet_of (qd_hdfsnd q) \<noteq> []" by (simp add: packet_of_def packed_def be32_def Let_def)
  moreover obtain c where "hdf_obj_child (qd_hdfsnd q) (Some []) = Some (Some c)"
    using assms(1,2) by (auto simp: hdf_obj_child_def first_child_def elim!: sendableE)
  ultimately show ?thesis
    using p assms(3) by (simp add: reply_trigger_def malloc_ok_def tcp_reply_long_def reply_bytes_def)
qed

lemma rep_send_loop_sends:
  assumes "\<forall>a \<in> set (w_sends w). 0 < a" "length rest \<le> n"
  shows "\<exists>w'. rep_send_loop req n rest w = (True, w') \<and> sent_to (rq_fd req) (w_log w') = sent_to (rq_fd req) (w_log w) @ rest"
  using assms
proof (induction req n rest w rule: rep_send_loop.induct)
  case (1 req n rest w)
  show ?case
  proof (cases "rest = []")
    case True
    then show ?thesis by (subst rep_send_loop.simps) simp
  next
    case False
    from do_send_some [OF "1.prems"(1) this, of "rq_fd req"] obtain k where k: "0 < k" "k \<le> length rest" "fst (do_send (rq_fd req) rest w) = int k"
        "w_log (snd (do_send (rq_fd req) rest w)) = w_log w @ [Sent (rq_fd req) (take k rest)]"
        "\<forall>a \<in> set (w_sends (snd (do_send (rq_fd req) rest w))). 0 < a"
      by blast
    let ?w = "snd (do_send (rq_fd req) rest w)"
    show ?thesis
    proof (cases "k = n")
      case True
      then have "k = length rest" using k(2) "1.prems"(2) by simp
      then show ?thesis using True k False by (subst rep_send_loop.simps) (simp add: Let_def)
    next
      case ne: False
      have "\<exists>w'. rep_send_loop req n (drop k rest) ?w = (True, w') \<and> sent_to (rq_fd req) (w_log w') = sent_to (rq_fd req) (w_log ?w) @ drop k rest"
        using "1.IH"(2) [OF False refl refl] k ne "1.prems"(2) by simp
      then show ?thesis using k ne False by (subst rep_send_loop.simps) (simp add: Let_def)
    qed
  qed
qed

text \<open>What the server sends when it replies with the data a plugin has left in \<open>hdfsnd\<close>.\<close>

definition answer :: "hdf \<Rightarrow> hdf option" where
  "answer t = (if hchild t = [] then None else Some t)"

lemma server_answers:
  assumes "sendable (qd_hdfsnd q)" "w_mem w = []" "\<forall>a \<in> set (w_sends w). 0 < a"
  shows "\<exists>w'. reply_trigger q code w = Some (True, w') \<and>
     sent_to (rq_fd (qd_req q)) (w_log w') = sent_to (rq_fd (qd_req q)) (w_log w) @ reply_bytes (qd_req q) code (answer (qd_hdfsnd q))"
proof -
  have "reply_trigger q code w = Some (True, snd (rep_send (qd_req q) (reply_bytes (qd_req q) code (answer (qd_hdfsnd q))) w))"
  proof (cases "hchild (qd_hdfsnd q) = []")
    case True
    then have "hdf_obj_child (qd_hdfsnd q) (Some []) = Some None"
      using assms(1) by (auto simp: hdf_obj_child_def first_child_def elim!: sendableE)
    then show ?thesis using True by (simp add: reply_trigger_def reply_bytes_def answer_def tcp_reply_mini_def)
  next
    case False
    then show ?thesis using server_replies [OF assms(1) False assms(2)] by (simp add: answer_def)
  qed
  then show ?thesis
    using rep_send_loop_sends [OF assms(3), of "reply_bytes (qd_req q) code (answer (qd_hdfsnd q))" _ "qd_req q"] by (fastforce simp: rep_send_def)
qed

lemma client_gets_reply:
  assumes "only_data (nt_in n)" "data_of (nt_in n) = reply_bytes req code t" "rq_id req = be32 reqid" "\<forall>x. t = Some x \<longrightarrow> sendable x" "length m = MAX_PACKET_LEN"
  shows "\<exists>rs rb vsize. tcp_get_rep reqid srv m MAX_PACKET_LEN n = Some (of_int code, vsize, srv, rb, n\<lparr>nt_in := rs\<rparr>) \<and>
     (case t of None \<Rightarrow> vsize = 0 | Some x \<Rightarrow> 8 < vsize \<and> (\<forall>len. \<exists>ts. unpack_hdf rb 16 len = Some (ts, x)))"
proof (cases t)
  case None
  let ?x = "be32 12 @ be32 reqid @ be32 (of_int code)"
  have "\<exists>rs. tcp_get_rep reqid srv m MAX_PACKET_LEN n = Some (of_int code, length ([] :: bytes), srv, ?x @ drop (length ?x) m, n\<lparr>nt_in := rs\<rparr>)"
    by (rule get_reply [where pl = "[]"]) (use assms None in \<open>simp_all add: reply_bytes_def mini_bytes_def\<close>)
  then show ?thesis using None by auto
next
  case (Some t)
  let ?p = "packet_of t"
  let ?pl = "be32 (of_nat (length ?p)) @ ?p"
  let ?x = "be32 (of_nat (16 + length ?p)) @ be32 reqid @ be32 (of_int code) @ ?pl"
  have t: "sendable t" using assms(4) Some by simp
  have p: "20 \<le> length ?p" "length ?p \<le> 65044" using length_packet_of [OF t] by (simp_all add: packet_of_def length_packed)
  have "\<exists>rs. tcp_get_rep reqid srv m MAX_PACKET_LEN n = Some (of_int code, length ?pl, srv, ?x @ drop (length ?x) m, n\<lparr>nt_in := rs\<rparr>)"
    by (rule get_reply) (use assms Some p in \<open>simp_all add: reply_bytes_def long_bytes_def\<close>)
  moreover have "unpack_hdf (?x @ drop (length ?x) m) 16 len = Some (of_nat (length ?p), t)" for len
    using unpack_sendable [OF t, of "be32 (of_nat (16 + length ?p)) @ be32 reqid @ be32 (of_int code) @ be32 (of_nat (length ?p))" "drop (length ?x) m" len] by simp
  moreover have "8 < length ?pl" using p(1) by simp
  ultimately show ?thesis unfolding Some option.case by blast
qed

text \<open>A synchronous call returns what the server has replied.\<close>

lemma trigger_answered:
  assumes "can_send evt arg" "flags AND 2 \<noteq> 0"
    and "rq_id (qd_req q) = be32 (next_reqid (ma_reqid arg))" "0 \<le> code" "code < 2 ^ 31"
    and "sendable (qd_hdfsnd q)" "w_mem w = []" "\<forall>a \<in> set (w_sends w). 0 < a" "reply_trigger q code w = Some (r, w')"
    and "only_data (nt_in (ma_net arg))"
    and "sent_to (rq_fd (qd_req q)) (w_log w') = sent_to (rq_fd (qd_req q)) (w_log w) @ data_of (nt_in (ma_net arg))"
  shows "\<exists>evt' arg' outs. mevt_trigger None cmd flags evt arg = Some (code, evt', arg') \<and>
     nt_out (ma_net arg') = nt_out (ma_net arg) @ outs \<and> ma_evth arg' = ma_evth arg \<and> ma_evts arg' = ma_evts arg \<and>
     concat (map snd outs) = frame (request_bytes (next_reqid (ma_reqid arg)) cmd flags (mv_ename evt) (mv_hdfsnd evt)) \<and>
     mv_errcode evt' = code \<and> mv_hdfrcv evt' = qd_hdfsnd q"
proof -
  let ?t = "answer (qd_hdfsnd q)"
  have data: "data_of (nt_in (ma_net arg)) = reply_bytes (qd_req q) code ?t"
    using server_answers [OF assms(6-8), of code] assms(9,11) by auto
  have st: "\<forall>x. ?t = Some x \<longrightarrow> sendable x" using assms(6) by (simp add: answer_def)
  have tree: "(case ?t of None \<Rightarrow> hdf_init | Some x \<Rightarrow> x) = qd_hdfsnd q"
    using assms(6) by (auto simp: answer_def hdf_init_def elim!: sendableE)
  let ?id = "next_reqid (ma_reqid arg)"
  have ne: "length (mv_rcvbuf evt) = MAX_PACKET_LEN" using assms(1) by (simp add: can_send_def)
  from sends_request [OF assms(1), of cmd flags] obtain evt2 as outs where snd: "mevt_send None cmd flags evt arg =
       Some (True, 0, evt2, arg\<lparr>ma_reqid := ?id, ma_net := (ma_net arg)\<lparr>nt_sends := as, nt_out := nt_out (ma_net arg) @ outs\<rparr>\<rparr>)"
      "concat (map snd outs) = frame (request_bytes ?id cmd flags (mv_ename evt) (mv_hdfsnd evt))"
      "mv_servers evt2 = mv_servers evt" "mv_rcvbuf evt2 = mv_rcvbuf evt" "mv_hdfrcv evt2 = hdf_init" by blast
  let ?n = "(ma_net arg)\<lparr>nt_sends := as, nt_out := nt_out (ma_net arg) @ outs\<rparr>"
  have "only_data (nt_in ?n)" "data_of (nt_in ?n) = reply_bytes (qd_req q) code ?t" using assms(10) data by simp_all
  from client_gets_reply [OF this assms(3) st ne, of "mv_servers evt ! 0"] obtain rs rb vsize where
      rep: "tcp_get_rep ?id (mv_servers evt ! 0) (mv_rcvbuf evt) MAX_PACKET_LEN ?n = Some (of_int code, vsize, mv_servers evt ! 0, rb, ?n\<lparr>nt_in := rs\<rparr>)"
      "case ?t of None \<Rightarrow> vsize = 0 | Some x \<Rightarrow> 8 < vsize \<and> (\<forall>len. \<exists>ts. unpack_hdf rb 16 len = Some (ts, x))"
    by blast
  have code: "uint (of_int code :: u32) = code" using assms(4,5) by (simp add: unsigned_of_int take_bit_int_eq_self)
  then have small: "(of_int code :: u32) \<noteq> -1" "to_int32 (uint (of_int code :: u32)) = code"
    using assms(4,5) by (auto simp: to_int32_def signed_take_bit_int_eq_self unsigned_minus_1_eq_mask mask_eq_exp_minus_1)
  obtain ts where up: "(if vsize > 8 then unpack_hdf rb 16 (vsize - 4) else Some (0, hdf_init)) = Some (ts, qd_hdfsnd q)"
    using rep(2) tree by (cases ?t) auto
  let ?arg' = "arg\<lparr>ma_reqid := ?id, ma_net := ?n\<lparr>nt_in := rs\<rparr>\<rparr>"
  have "\<exists>evt'. mevt_trigger None cmd flags evt arg = Some (code, evt', ?arg') \<and> mv_errcode evt' = code \<and> mv_hdfrcv evt' = qd_hdfsnd q"
    using snd(1,3-5) assms(2) rep(1) small up unfolding mevt_trigger_def Let_def by simp
  then obtain evt' where "mevt_trigger None cmd flags evt arg = Some (code, evt', ?arg')" "mv_errcode evt' = code" "mv_hdfrcv evt' = qd_hdfsnd q" by blast
  then show ?thesis using snd(2) by (intro exI [of _ evt'] exI [of _ ?arg'] exI [of _ outs]) simp
qed

end
