(* ===== verification/Client_Delivery.thy ===== *)
theory Client_Delivery
  imports Client_Push Client_Server
begin

text \<open>
  From the server's push to the application's callback: what \<open>base_msg_new\<close> builds, cut into pieces by
  the network, is put together by \<open>msparse_buf\<close>, understood by \<open>msparse_msg\<close>, queued in order, and
  handed to the callback the application has registered for it.
\<close>

section \<open>The message\<close>

definition push_tree :: "string \<Rightarrow> hdf list \<Rightarrow> hdf" where
  "push_tree cmd cs = HDF None None False [] (cs @ [HDF (Some ''_Reserve'') (Some ''moc'') False [(''cmd'', Some cmd)] []])"

definition push_msg :: "string \<Rightarrow> hdf list \<Rightarrow> bytes" where
  "push_msg cmd cs = be32 0 @ be32 10000 @ be32 (of_nat (length (packet_of (push_tree cmd cs)))) @ packet_of (push_tree cmd cs)"

definition pushable :: "string \<Rightarrow> hdf list \<Rightarrow> bool" where
  "pushable cmd cs \<longleftrightarrow> sendable (push_tree cmd cs)"

lemma frame_push: "frame (push_msg cmd cs) = push_bytes (packet_of (push_tree cmd cs))"
  by (simp add: frame_def push_msg_def push_bytes_def add.assoc)

lemma frameable_push: "pushable cmd cs \<Longrightarrow> frameable (push_msg cmd cs)"
  using length_packet_of [of "push_tree cmd cs"] by (simp add: frameable_def push_msg_def pushable_def)

lemma pushable_fresh: "pushable cmd cs \<Longrightarrow> find_child ''_Reserve'' cs = None"
  by (auto simp: pushable_def sendable_def push_tree_def find_child_None_iff image_iff)

lemma push_tree_attr:
  assumes "pushable cmd cs"
  shows "hdf_get_attr (push_tree cmd cs) [] (Some ''_Reserve'') = Some [(''cmd'', Some cmd)]"
proof -
  have "walk_components (push_tree cmd cs) [] [''_Reserve''] = Some (Some [length cs])"
    using pushable_fresh [OF assms]
    by (subst walk_components.simps) (simp add: push_tree_def find_child_append walk_components.simps)
  then show ?thesis by (simp add: hdf_get_attr_def walk_hdf_def push_tree_def)
qed

lemma push_tree_remove:
  "pushable cmd cs \<Longrightarrow> hdf_remove_tree (push_tree cmd cs) [] ''_Reserve'' = HDF None None False [] cs"
  using pushable_fresh [of cmd cs] by (simp add: hdf_remove_tree_def push_tree_def find_child_append)

text \<open>What the server builds.\<close>

lemma node_update_snoc: "node_at t p = Some n \<Longrightarrow> i < length (hchild n) \<Longrightarrow> node_at t (p @ [i]) = Some (hchild n ! i)"
  by (induction t p rule: node_at.induct) (auto split: if_splits)

lemma node_at_update_below:
  "node_at t (p @ [i]) = Some m \<Longrightarrow> node_at (update_at (p @ [i]) f t) p = map_option (\<lambda>n. set_hchild ((hchild n)[i := f (hchild n ! i)]) n) (node_at t p)"
proof (induction t p rule: node_at.induct)
  case (1 t)
  then show ?case by simp
next
  case (2 t j p)
  then show ?case by (cases t) (auto split: if_splits)
qed

lemma base_msg_new_builds:
  assumes "node_at root p = Some (HDF n v False as cs)" "pushable cmd cs" "w_mem w = []"
  shows "\<exists>root'. base_msg_new cmd root p w = Some (Inr (frame (push_msg cmd cs)), root', w)"
proof -
  let ?r1 = "update_at p (add_child (HDF (Some ''_Reserve'') (Some ''moc'') False [] [])) root"
  let ?q = "p @ [length cs]"
  have fr: "find_child ''_Reserve'' cs = None" using pushable_fresh [OF assms(2)] .
  have set: "hdf_set_value root p ''_Reserve'' (Some ''moc'') = Some (Inr ?q, ?r1)"
    using assms(1) fr by (simp add: hdf_set_value_def set_value_def set_components.simps [of root p] new_node_def plain_def Let_def)
  have n1: "node_at ?r1 p = Some (HDF n v False as (cs @ [HDF (Some ''_Reserve'') (Some ''moc'') False [] []]))"
    using node_at_update_at [OF assms(1)] by simp
  have nq: "node_at ?r1 ?q = Some (HDF (Some ''_Reserve'') (Some ''moc'') False [] [])"
    using node_update_snoc [OF n1, of "length cs"] by simp
  have "walk_components ?r1 p [''_Reserve''] = Some (Some ?q)"
    using n1 nq fr by (subst walk_components.simps) (simp add: find_child_append walk_components.simps [of ?r1 ?q])
  then have attr: "hdf_set_attr ?r1 p (Some ''_Reserve'') ''cmd'' (Some cmd) =
      Some (Inr (), update_at ?q (\<lambda>n. HDF (hname n) (hvalue n) (hlink n) [(''cmd'', Some cmd)] (hchild n)) ?r1)" (is "_ = Some (_, ?r2)")
    using nq by (simp add: hdf_set_attr_def walk_hdf_def)
  have n2: "node_at ?r2 p = Some (HDF n v False as (hchild (push_tree cmd cs)))"
    using node_at_update_below [OF nq] n1 by (simp add: push_tree_def)
  have "pack_hdf (w_rnd w) (HDF n v False as (hchild (push_tree cmd cs))) = pack_hdf (w_rnd w) (push_tree cmd cs)"
    by (simp add: fun_eq_iff pack_hdf_def hdf_write_string_def hdf_dump_str_def push_tree_def)
  moreover obtain rest where "pack_hdf (w_rnd w) (push_tree cmd cs) (replicate MAX_PACKET_LEN NUL) MAX_PACKET_LEN =
      Some (length (packet_of (push_tree cmd cs)), packet_of (push_tree cmd cs) @ rest)"
    using pack_sendable [OF assms(2) [unfolded pushable_def], of "replicate MAX_PACKET_LEN NUL" "w_rnd w"] by auto
  moreover have "packet_of (push_tree cmd cs) \<noteq> []" by (simp add: packet_of_def packed_def be32_def Let_def)
  ultimately show ?thesis
    using set attr n2 assms(3) by (simp add: base_msg_new_def malloc_ok_def frame_push Let_def)
qed

section \<open>The callback queue\<close>

definition callbacks :: "moc_arg \<Rightarrow> msdata list \<Rightarrow> bool" where
  "callbacks arg ds \<longleftrightarrow> ma_mem arg = [] \<and> (\<forall>e \<ge> ma_next arg. ma_heap arg e = None) \<and>
     (\<exists>as. queue_rep (ma_queue arg, ma_heap arg) as \<and> payloads (ma_heap arg) as = ds)"

lemma set_prev_payloads: "set_prev a p h = Some h' \<Longrightarrow> payloads h' as = payloads h as \<and> dom h' = dom h"
  by (auto simp: set_prev_def payloads_def dom_def split: option.splits if_splits)

lemma msqueue_put_payloads:
  assumes "msqueue_put (q0, h0) e = Some (q, h)"
  shows "payloads h as = payloads h0 as \<and> dom h = dom h0"
proof (cases "q_top q0")
  case None
  then show ?thesis using assms by (auto simp: msqueue_put_def)
next
  case (Some t)
  then show ?thesis using assms set_prev_payloads [of t "Some e" h0 h as] by (auto simp: msqueue_put_def Let_def bind_eq_Some_conv)
qed

lemma put_callback_ok:
  assumes "callbacks arg ds"
  shows "\<exists>q h. put_callback d arg = Some (arg\<lparr>ma_queue := q, ma_heap := h, ma_next := ma_next arg + 1\<rparr>) \<and>
     callbacks (arg\<lparr>ma_queue := q, ma_heap := h, ma_next := ma_next arg + 1\<rparr>) (ds @ [d])"
proof -
  obtain as where as: "queue_rep (ma_queue arg, ma_heap arg) as" "payloads (ma_heap arg) as = ds"
    and fr: "\<forall>e \<ge> ma_next arg. ma_heap arg e = None" and mem: "ma_mem arg = []" using assms by (auto simp: callbacks_def)
  let ?e = "ma_next arg"
  let ?h = "(ma_heap arg)(?e \<mapsto> \<lparr>qe_data = d, qe_prev = None\<rparr>)"
  have notin: "?e \<notin> set as" using as(1) fr qpath_alloc by (force simp: queue_rep_def)
  then have "queue_rep (ma_queue arg, ?h) as" "queue_fresh (ma_queue arg, ?h) as ?e"
    using as(1) by (simp_all add: queue_rep_def queue_fresh_def rep_simps)
  from mq.put_law [OF this] obtain q h where put: "msqueue_put (ma_queue arg, ?h) ?e = Some (q, h)" "queue_rep (q, h) (as @ [?e])" by auto
  note keep = msqueue_put_payloads [OF put(1)]
  have "payloads h (as @ [?e]) = payloads ?h as @ payloads ?h [?e]" using keep [of "as @ [?e]"] by (simp add: payloads_def)
  then have p: "payloads h (as @ [?e]) = ds @ [d]" "dom h = dom ?h"
    using as(2) payloads_upd [OF notin, of "ma_heap arg"] keep by (simp_all add: payloads_def [of _ "[?e]"])
  have "h e = None" if "e \<ge> ?e + 1" for e
    using p(2) fr that by (metis Suc_eq_plus1 Suc_leD domIff fun_upd_apply not_less_eq_eq order_refl)
  then have "callbacks (arg\<lparr>ma_queue := q, ma_heap := h, ma_next := ?e + 1\<rparr>) (ds @ [d])"
    using put(2) p(1) mem by (auto simp: callbacks_def)
  then show ?thesis using put(1) by (auto simp: put_callback_def)
qed

definition pushed :: "string \<Rightarrow> string \<Rightarrow> hdf list \<Rightarrow> msdata" where
  "pushed ename cmd cs = \<lparr>mq_ename = Some ename, mq_cmd = Some cmd, mq_hdfrcv = HDF None None False [] cs, mq_hdfsnd = hdf_init\<rparr>"

lemma msparse_push:
  assumes "pushable cmd cs" "callbacks arg ds" "ma_evts arg a = Some evt"
  shows "\<exists>q h. msparse_msg a (push_msg cmd cs) arg = Some (Inr (), arg\<lparr>ma_queue := q, ma_heap := h, ma_next := ma_next arg + 1\<rparr>) \<and>
     callbacks (arg\<lparr>ma_queue := q, ma_heap := h, ma_next := ma_next arg + 1\<rparr>) (ds @ [pushed (mv_ename evt) cmd cs])"
proof -
  let ?p = "packet_of (push_tree cmd cs)"
  have mem: "ma_mem arg = []" using assms(2) by (simp add: callbacks_def)
  have p: "20 \<le> length ?p" "length ?p \<le> 65044"
    using length_packet_of [of "push_tree cmd cs"] assms(1) by (simp_all add: packet_of_def length_packed pushable_def)
  have r: "unat (of_nat (length ?p) :: u32) = length ?p" using p(2) by (intro unat_of_small) simp
  then have ne: "(of_nat (length ?p) :: u32) \<noteq> 0" using p(1) by (metis le_zero_eq unsigned_0 zero_neq_numeral)
  have un: "unpack_hdf (push_msg cmd cs) 12 len = Some (of_nat (length ?p), push_tree cmd cs)" for len
    using unpack_sendable [of "push_tree cmd cs" "be32 0 @ be32 10000 @ be32 (of_nat (length ?p))" "[]" len] assms(1)
    by (simp add: pushable_def push_msg_def)
  have rd: "rd32 (push_msg cmd cs) 0 = Some 0" "rd32 (push_msg cmd cs) 4 = Some 10000"
    by (simp_all add: push_msg_def mem_simps)
  have l: "length (push_msg cmd cs) = 12 + length ?p" by (simp add: push_msg_def)
  from put_callback_ok [OF assms(2), of "pushed (mv_ename evt) cmd cs"] show ?thesis
    using rd un ne mem assms(3) push_tree_attr [OF assms(1)] push_tree_remove [OF assms(1)]
    unfolding msparse_msg_def l Let_def by (simp add: arg_malloc_def pushed_def)
qed

section \<open>The buffers\<close>

text \<open>A connection of the event \<open>a\<close> that holds the bytes \<open>p\<close> back.\<close>

definition conn_holds :: "addr \<Rightarrow> nat \<Rightarrow> int \<Rightarrow> string \<Rightarrow> bytes \<Rightarrow> moc_arg \<Rightarrow> bool" where
  "conn_holds a i fd ename p arg \<longleftrightarrow>
     (\<exists>evt s. ma_evts arg a = Some evt \<and> mv_ename evt = ename \<and> i < length (mv_servers evt) \<and> mv_servers evt ! i = s \<and>
        sr_fd s = fd \<and> sr_excess s = 0 \<and> sr_buf s = (if p = [] then None else Some p) \<and> (p \<noteq> [] \<longrightarrow> sr_len s = length p))"

definition same_app :: "moc_arg \<Rightarrow> moc_arg \<Rightarrow> bool" where
  "same_app arg arg' \<longleftrightarrow> ma_evth arg' = ma_evth arg \<and> ma_cbkh arg' = ma_cbkh arg \<and> ma_reqid arg' = ma_reqid arg \<and> ma_net arg' = ma_net arg"

lemma same_app_refl [simp]: "same_app arg arg"
  by (simp add: same_app_def)

lemma same_app_trans [trans]: "same_app x y \<Longrightarrow> same_app y z \<Longrightarrow> same_app x z"
  by (simp add: same_app_def)

lemma set_evt_simps [simp]:
  "ma_evts (set_evt a evt arg) = (ma_evts arg)(a \<mapsto> evt)" "callbacks (set_evt a evt arg) ds = callbacks arg ds" "same_app arg'' (set_evt a evt arg) = same_app arg'' arg"
  "same_app (set_evt a evt arg) arg'' = same_app arg arg''" "set_evt a e2 (set_evt a evt arg) = set_evt a e2 arg"
  by (simp_all add: set_evt_def callbacks_def same_app_def)

text \<open>A connection in the middle of a run of \<open>msparse_buf\<close>: its buffer, if it has one, holds what is left.\<close>

definition conn_at :: "addr \<Rightarrow> nat \<Rightarrow> int \<Rightarrow> string \<Rightarrow> bytes \<Rightarrow> moc_arg \<Rightarrow> bool" where
  "conn_at a i fd ename bs arg \<longleftrightarrow>
     (\<exists>evt s. ma_evts arg a = Some evt \<and> mv_ename evt = ename \<and> i < length (mv_servers evt) \<and> mv_servers evt ! i = s \<and>
        sr_fd s = fd \<and> sr_excess s = 0 \<and> (sr_buf s = None \<or> sr_buf s = Some bs))"

lemma waits_msparse_buf:
  assumes "conn_at a i fd ename p arg" "waits p" "p \<noteq> []" "callbacks arg ds"
  shows "\<exists>arg'. msparse_buf a i fd p arg = Some arg' \<and> conn_holds a i fd ename p arg' \<and> callbacks arg' ds \<and> same_app arg arg'"
proof -
  obtain evt s where s: "ma_evts arg a = Some evt" "mv_ename evt = ename" "i < length (mv_servers evt)" "mv_servers evt ! i = s"
      "sr_fd s = fd" "sr_excess s = 0" "sr_buf s = None \<or> sr_buf s = Some p" using assms(1) by (auto simp: conn_at_def)
  have mem: "arg_malloc arg = (True, arg)" using assms(4) by (simp add: callbacks_def arg_malloc_def)
  let ?n = "if 4 \<le> length p then unat (ntohl (take 4 p)) else 4"
  have n: "\<not> (4 \<le> length p \<and> (65536 < ?n \<or> ?n \<le> 8))" "length p < ?n"
    using assms(2) by (auto simp: waits_def frame_size_def)
  have "\<exists>s'. msparse_buf a i fd p arg = Some (set_evt a (evt\<lparr>mv_servers := (mv_servers evt)[i := s']\<rparr>) arg) \<and>
      sr_fd s' = fd \<and> sr_excess s' = 0 \<and> sr_buf s' = Some p \<and> sr_len s' = length p"
  proof (cases "sr_buf s")
    case None
    then show ?thesis using s n mem
      by (intro exI [of _ "s\<lparr>sr_buf := Some p, sr_len := length p, sr_pktsize := ?n\<rparr>"], subst msparse_buf.simps)
         (auto simp: get_srv_def set_srv_def Let_def simp del: not_le not_less)
  next
    case (Some b)
    then show ?thesis using s n
      by (intro exI [of _ "s\<lparr>sr_len := length p, sr_pktsize := ?n\<rparr>"], subst msparse_buf.simps)
         (auto simp: get_srv_def set_srv_def Let_def simp del: not_le not_less)
  qed
  then show ?thesis using s(1-3) assms(3,4) by (fastforce simp: conn_holds_def)
qed

text \<open>A whole message at the front.\<close>

lemma frame_sizes:
  assumes "frameable m"
  shows "unat (ntohl (take 4 (frame m @ rest))) = 4 + length m" "4 \<le> length (frame m @ rest)" "\<not> 65536 < 4 + length m" "\<not> 4 + length m \<le> 8"
    "length (frame m @ rest) = 4 + length m + length rest" "drop 4 (take (4 + length m) (frame m @ rest)) = m" "drop (4 + length m) (frame m @ rest) = rest"
proof -
  show "length (frame m @ rest) = 4 + length m + length rest" by (simp add: frame_def)
qed (use frame_whole [OF assms, of rest] assms in \<open>auto simp: frame_size_def frameable_def frame_def\<close>)

lemma whole_msparse_buf:
  assumes "frameable m" "ma_evts arg a = Some evt" "get_srv a i arg = Some s" "sr_fd s = fd"
  shows "msparse_buf a i fd (frame m @ rest) arg = do {
     arg1 \<leftarrow> (if rest \<noteq> [] then set_srv a i (\<lambda>s. s\<lparr>sr_excess := length rest\<rparr>) arg else Some arg);
     (err, arg2) \<leftarrow> msparse_msg a m arg1;
     srv2 \<leftarrow> get_srv a i arg2;
     if sr_excess srv2 > length rest then None
     else if sr_excess srv2 \<noteq> 0 then do {
       let bs' = take (sr_excess srv2) rest;
       arg3 \<leftarrow> set_srv a i (\<lambda>s. s\<lparr>sr_buf := map_option (\<lambda>_. bs') (sr_buf s), sr_len := sr_excess s, sr_excess := 0\<rparr>) arg2;
       msparse_buf a i fd bs' arg3 }
     else if sr_buf srv2 \<noteq> None
     then set_srv a i (\<lambda>s. s\<lparr>sr_buf := None, sr_len := 0, sr_pktsize := 0, sr_excess := 0\<rparr>) arg2
     else Some arg2 }"
proof -
  note f = frame_sizes [OF assms(1)]
  have i: "i < length (mv_servers evt)" using assms(2,3) by (auto simp: get_srv_def split: if_splits)
  have "4 + length m < length (frame m @ rest) \<longleftrightarrow> rest \<noteq> []" "length (frame m @ rest) - (4 + length m) = length rest"
    "\<not> length (frame m @ rest) < 4 + length m" using f(5) by auto
  note g = this
  show ?thesis
    by (subst msparse_buf.simps) (use assms(2-4) i f(2,3,4) in \<open>simp only: Let_def f(1,6,7) g not_less_iff_gr_or_eq simp_thms if_True if_False bind.bind_lunit order_less_asym; simp\<close>)
qed

lemma push_msparse_buf:
  assumes "conn_at a i fd ename (frame (push_msg cmd cs) @ rest) arg" "pushable cmd cs" "callbacks arg ds"
  shows "\<exists>arg'. callbacks arg' (ds @ [pushed ename cmd cs]) \<and> same_app arg arg' \<and>
     (if rest = [] then msparse_buf a i fd (frame (push_msg cmd cs) @ rest) arg = Some arg' \<and> conn_holds a i fd ename [] arg'
      else msparse_buf a i fd (frame (push_msg cmd cs) @ rest) arg = msparse_buf a i fd rest arg' \<and> conn_at a i fd ename rest arg')"
proof -
  let ?m = "push_msg cmd cs"
  let ?bs = "frame ?m @ rest"
  obtain evt s where s: "ma_evts arg a = Some evt" "mv_ename evt = ename" "i < length (mv_servers evt)" "mv_servers evt ! i = s"
      "sr_fd s = fd" "sr_excess s = 0" "sr_buf s = None \<or> sr_buf s = Some ?bs" using assms(1) by (auto simp: conn_at_def)
  have get: "get_srv a i arg = Some s" using s by (simp add: get_srv_def)
  define srv1 where "srv1 = (if rest = [] then s else s\<lparr>sr_excess := length rest\<rparr>)"
  define evt1 where "evt1 = evt\<lparr>mv_servers := (mv_servers evt)[i := srv1]\<rparr>"
  define arg1 where "arg1 = (if rest = [] then arg else set_evt a evt1 arg)"
  have evt1: "ma_evts arg1 a = Some evt1" "mv_ename evt1 = ename" "i < length (mv_servers evt1)" "mv_servers evt1 ! i = srv1"
    using s by (auto simp: arg1_def evt1_def srv1_def)
  have "callbacks arg1 ds" using assms(3) by (simp add: arg1_def)
  from msparse_push [OF assms(2) this evt1(1)] obtain q h where arg2: "msparse_msg a ?m arg1 = Some (Inr (), arg1\<lparr>ma_queue := q, ma_heap := h, ma_next := ma_next arg1 + 1\<rparr>)"
      "callbacks (arg1\<lparr>ma_queue := q, ma_heap := h, ma_next := ma_next arg1 + 1\<rparr>) (ds @ [pushed ename cmd cs])"
    using evt1(2) by auto
  define arg2 where "arg2 = arg1\<lparr>ma_queue := q, ma_heap := h, ma_next := ma_next arg1 + 1\<rparr>"
  have same: "same_app arg arg2" by (simp add: arg2_def arg1_def same_app_def set_evt_def)
  have get2: "get_srv a i arg2 = Some srv1" using evt1 by (simp add: get_srv_def arg2_def)
  have set2: "set_srv a i g arg2 = Some (set_evt a (evt1\<lparr>mv_servers := (mv_servers evt1)[i := g srv1]\<rparr>) arg2)" for g
    using evt1 by (simp add: set_srv_def arg2_def)
  have set1: "(if rest \<noteq> [] then set_srv a i (\<lambda>s. s\<lparr>sr_excess := length rest\<rparr>) arg else Some arg) = Some arg1"
    using s by (simp add: set_srv_def arg1_def evt1_def srv1_def)
  note * = whole_msparse_buf [OF frameable_push [OF assms(2)] s(1) get s(5), of rest, unfolded set1 bind.bind_lunit arg2(1) arg2_def [symmetric] prod.case get2]
  have cb: "callbacks arg2 (ds @ [pushed ename cmd cs])" using arg2(2) by (simp add: arg2_def)
  have i1: "i < length (mv_servers evt1)" using evt1(3) .
  have ev2: "ma_evts arg2 a = Some evt1" using evt1(1) by (simp add: arg2_def)
  show ?thesis
  proof (cases "rest = []")
    case True
    let ?s' = "srv1\<lparr>sr_buf := None, sr_len := 0, sr_pktsize := 0, sr_excess := 0\<rparr>"
    let ?arg' = "if sr_buf s = None then arg2 else set_evt a (evt1\<lparr>mv_servers := (mv_servers evt1)[i := ?s']\<rparr>) arg2"
    have "msparse_buf a i fd ?bs arg = Some ?arg'" using * True s(6) set2 by (simp add: srv1_def)
    moreover have "conn_holds a i fd ename [] ?arg'" using True s(5,6) ev2 evt1 i1 by (auto simp: conn_holds_def srv1_def)
    ultimately show ?thesis using True cb same by (intro exI [of _ ?arg']) simp
  next
    case False
    let ?s' = "srv1\<lparr>sr_buf := map_option (\<lambda>_. rest) (sr_buf srv1), sr_len := sr_excess srv1, sr_excess := 0\<rparr>"
    let ?arg' = "set_evt a (evt1\<lparr>mv_servers := (mv_servers evt1)[i := ?s']\<rparr>) arg2"
    have "msparse_buf a i fd ?bs arg = msparse_buf a i fd rest ?arg'" using * False set2 by (simp add: srv1_def)
    moreover have "conn_at a i fd ename rest ?arg'" using False s(5,7) evt1 i1 by (auto simp: conn_at_def srv1_def)
    ultimately show ?thesis using False cb same by (intro exI [of _ ?arg']) simp
  qed
qed

section \<open>The stream\<close>

definition push_stream :: "(string \<times> hdf list) list \<Rightarrow> bytes" where
  "push_stream ps = concat (map (\<lambda>(cmd, cs). frame (push_msg cmd cs)) ps)"

lemma push_stream_simps [simp]:
  "push_stream [] = []" "push_stream ((cmd, cs) # ps) = frame (push_msg cmd cs) @ push_stream ps" "push_stream (ps @ qs) = push_stream ps @ push_stream qs"
  by (simp_all add: push_stream_def)

lemma frame_ne [simp]: "frame m \<noteq> []"
  by (simp add: frame_def be32_def Let_def)

definition pushed_all :: "string \<Rightarrow> (string \<times> hdf list) list \<Rightarrow> msdata list" where
  "pushed_all ename ps = map (\<lambda>(cmd, cs). pushed ename cmd cs) ps"

lemma pushes_msparse_buf:
  assumes "conn_at a i fd ename (push_stream ps @ p) arg" "\<forall>(cmd, cs) \<in> set ps. pushable cmd cs" "callbacks arg ds" "waits p" "push_stream ps @ p \<noteq> []"
  shows "\<exists>arg'. msparse_buf a i fd (push_stream ps @ p) arg = Some arg' \<and> conn_holds a i fd ename p arg' \<and>
     callbacks arg' (ds @ pushed_all ename ps) \<and> same_app arg arg'"
  using assms
proof (induction ps arbitrary: arg ds)
  case Nil
  then show ?case using waits_msparse_buf [of a i fd ename p arg ds] by (simp add: pushed_all_def)
next
  case (Cons x ps)
  obtain cmd cs where x: "x = (cmd, cs)" by (cases x)
  have "conn_at a i fd ename (frame (push_msg cmd cs) @ push_stream ps @ p) arg" "pushable cmd cs" using Cons.prems(1,2) x by auto
  from push_msparse_buf [OF this Cons.prems(3)] obtain arg1 where arg1: "callbacks arg1 (ds @ [pushed ename cmd cs])" "same_app arg arg1"
    "if push_stream ps @ p = [] then msparse_buf a i fd (frame (push_msg cmd cs) @ push_stream ps @ p) arg = Some arg1 \<and> conn_holds a i fd ename [] arg1
     else msparse_buf a i fd (frame (push_msg cmd cs) @ push_stream ps @ p) arg = msparse_buf a i fd (push_stream ps @ p) arg1 \<and>
       conn_at a i fd ename (push_stream ps @ p) arg1" by blast
  show ?case
  proof (cases "push_stream ps @ p = []")
    case True
    then have "ps = []" "p = []" by (cases ps; auto)+
    then show ?thesis using arg1 x by (auto simp: pushed_all_def)
  next
    case False
    have "\<forall>(cmd, cs) \<in> set ps. pushable cmd cs" using Cons.prems(2) by simp
    from Cons.IH [OF _ this arg1(1) Cons.prems(4) False] arg1(2,3) False x show ?thesis
      by (auto simp: pushed_all_def intro: same_app_trans)
  qed
qed

text \<open>Every beginning of the stream is some whole messages and the beginning of the next one.\<close>

lemma frame_prefix_waits:
  assumes "frame m = q @ z" "z \<noteq> []" "frameable m"
  shows "waits q"
proof (cases "length q < 4")
  case False
  have l: "length q + length z = 4 + length m" using arg_cong [OF assms(1), of length] by (simp add: frame_def)
  have "frame_size q = 4 + length m"
    using frame_whole(2) [OF assms(3), of "[]"] assms(1) frame_size_append [of q z] False by simp
  then show ?thesis using l assms(2,3) by (cases z) (auto simp: waits_def frameable_def)
qed (simp add: waits_def)

lemma split_stream:
  assumes "push_stream ps = x @ y" "\<forall>(cmd, cs) \<in> set ps. pushable cmd cs"
  shows "\<exists>ps1 ps2 q. ps = ps1 @ ps2 \<and> x = push_stream ps1 @ q \<and> push_stream ps2 = q @ y \<and> waits q"
  using assms
proof (induction ps arbitrary: x)
  case Nil
  then show ?case by (simp add: waits_def)
next
  case (Cons r ps)
  obtain cmd cs where r: "r = (cmd, cs)" by (cases r)
  let ?f = "frame (push_msg cmd cs)"
  have eq: "?f @ push_stream ps = x @ y" using Cons.prems(1) r by simp
  show ?case
  proof (cases "length x < length ?f")
    case True
    then obtain z where "?f = x @ z" "z \<noteq> []" using eq by (auto simp: append_eq_append_conv2)
    moreover have "frameable (push_msg cmd cs)" using Cons.prems(2) r frameable_push by auto
    ultimately have "waits x" using frame_prefix_waits by blast
    then show ?thesis using Cons.prems(1) by (intro exI [of _ "[]"] exI [of _ "r # ps"] exI [of _ x]) simp
  next
    case False
    then obtain z where z: "x = ?f @ z" "push_stream ps = z @ y" using eq by (auto simp: append_eq_append_conv2)
    obtain ps1 ps2 q where "ps = ps1 @ ps2" "z = push_stream ps1 @ q" "push_stream ps2 = q @ y" "waits q"
      using Cons.IH [OF z(2)] Cons.prems(2) by auto
    then show ?thesis using z(1) r by (intro exI [of _ "r # ps1"] exI [of _ ps2] exI [of _ q]) simp
  qed
qed

text \<open>The pieces as the event loop receives them.\<close>

fun el_receives :: "addr \<Rightarrow> nat \<Rightarrow> int \<Rightarrow> bytes list \<Rightarrow> moc_arg \<Rightarrow> moc_arg option" where
  "el_receives a i fd [] arg = Some arg"
| "el_receives a i fd (c # cs) arg = do { arg1 \<leftarrow> el_received a i fd c arg; el_receives a i fd cs arg1 }"

lemma waits_bound: "waits p \<Longrightarrow> length p \<le> 65535"
  by (auto simp: waits_def)

lemma received_is_parsed:
  assumes "conn_holds a i fd ename p arg" "length p + length c \<le> 69632" "callbacks arg ds"
  shows "\<exists>arg1. el_received a i fd c arg = msparse_buf a i fd (p @ c) arg1 \<and> conn_at a i fd ename (p @ c) arg1 \<and> callbacks arg1 ds \<and> same_app arg arg1"
proof -
  obtain evt s where s: "ma_evts arg a = Some evt" "mv_ename evt = ename" "i < length (mv_servers evt)" "mv_servers evt ! i = s"
      "sr_fd s = fd" "sr_excess s = 0" "sr_buf s = (if p = [] then None else Some p)" "p \<noteq> [] \<longrightarrow> sr_len s = length p"
    using assms(1) by (auto simp: conn_holds_def)
  show ?thesis
  proof (cases "p = []")
    case True
    then show ?thesis using s assms(3) by (intro exI [of _ arg]) (auto simp: el_received_def get_srv_def conn_at_def)
  next
    case False
    let ?s = "s\<lparr>sr_buf := Some (p @ c), sr_len := sr_len s + length c\<rparr>"
    let ?arg = "set_evt a (evt\<lparr>mv_servers := (mv_servers evt)[i := ?s]\<rparr>) arg"
    have "el_received a i fd c arg = msparse_buf a i fd (p @ c) ?arg"
      using False s assms(2) by (simp add: el_received_def get_srv_def set_srv_def Let_def)
    moreover have "conn_at a i fd ename (p @ c) ?arg" using s by (simp add: conn_at_def)
    ultimately show ?thesis using assms(3) by (intro exI [of _ ?arg]) simp
  qed
qed

lemma stream_received:
  assumes "conn_holds a i fd ename p arg" "callbacks arg ds" "waits p"
    and "p @ concat bss = push_stream ps" "\<forall>(cmd, cs) \<in> set ps. pushable cmd cs" "\<forall>bs \<in> set bss. bs \<noteq> [] \<and> length bs \<le> 4096"
  shows "\<exists>arg'. el_receives a i fd bss arg = Some arg' \<and> conn_holds a i fd ename [] arg' \<and>
     callbacks arg' (ds @ pushed_all ename ps) \<and> same_app arg arg'"
  using assms
proof (induction bss arbitrary: p arg ds ps)
  case Nil
  then obtain ps1 ps2 q where "ps = ps1 @ ps2" "[] = push_stream ps1 @ q" "push_stream ps2 = q @ p"
    using split_stream [of ps "[]" p] by auto
  have "p = []"
  proof (cases ps)
    case (Cons x xs)
    obtain cmd cs where x: "x = (cmd, cs)" by (cases x)
    then have "p = frame (push_msg cmd cs) @ push_stream xs" "frameable (push_msg cmd cs)" using Nil.prems(4,5) Cons frameable_push by auto
    then have "whole p" using frame_whole(1) by simp
    then show ?thesis using Nil.prems(3) by (auto simp: whole_def waits_def)
  qed (use Nil.prems(4) in simp)
  then have "ps = []" using Nil.prems(4) by (cases ps) (auto split: prod.splits)
  then show ?case using Nil.prems \<open>p = []\<close> by (simp add: pushed_all_def)
next
  case (Cons b bss)
  have "push_stream ps = (p @ b) @ concat bss" using Cons.prems(4) by simp
  from split_stream [OF this Cons.prems(5)] obtain ps1 ps2 q where
    sp: "ps = ps1 @ ps2" "p @ b = push_stream ps1 @ q" "push_stream ps2 = q @ concat bss" "waits q" by blast
  have "length p + length b \<le> 69632" using waits_bound [OF Cons.prems(3)] Cons.prems(6) by auto
  from received_is_parsed [OF Cons.prems(1) this Cons.prems(2)] obtain arg1 where arg1: "el_received a i fd b arg = msparse_buf a i fd (p @ b) arg1"
    "conn_at a i fd ename (p @ b) arg1" "callbacks arg1 ds" "same_app arg arg1" by blast
  have "b \<noteq> []" using Cons.prems(6) by simp
  then have "\<exists>arg2. msparse_buf a i fd (p @ b) arg1 = Some arg2 \<and> conn_holds a i fd ename q arg2 \<and>
      callbacks arg2 (ds @ pushed_all ename ps1) \<and> same_app arg1 arg2"
    unfolding sp(2) using sp(1,2,4) Cons.prems(5) arg1(2,3) by (intro pushes_msparse_buf) auto
  then obtain arg2 where arg2: "msparse_buf a i fd (p @ b) arg1 = Some arg2" "conn_holds a i fd ename q arg2"
    "callbacks arg2 (ds @ pushed_all ename ps1)" "same_app arg1 arg2" by blast
  have "\<exists>arg'. el_receives a i fd bss arg2 = Some arg' \<and> conn_holds a i fd ename [] arg' \<and>
      callbacks arg' ((ds @ pushed_all ename ps1) @ pushed_all ename ps2) \<and> same_app arg2 arg'"
    by (rule Cons.IH) (use arg2 sp Cons.prems(5,6) in auto)
  then show ?case using arg1(1,4) arg2(1,4) sp(1) by (auto simp: pushed_all_def intro: same_app_trans)
qed

section \<open>Callbacks\<close>

lemma mcbk_regist_find:
  assumes "hash_inv h" "h_size h \<le> 2 ^ 30"
  shows "\<exists>h'. mcbk_regist h ename cmd c = Some h' \<and> hash_inv h' \<and> mcbk_find h' ename cmd = Some (Some c) \<and>
     (\<forall>en' cmd'. mcbk_key en' cmd' \<noteq> mcbk_key ename cmd \<longrightarrow> mcbk_find h' en' cmd' = mcbk_find h en' cmd')"
proof -
  let ?k = "mcbk_key ename cmd"
  obtain h1 where h1: "ne_hash_remove ?k h = Some (hash_map h ?k, h1)" "hash_inv h1" "h_size h1 = h_size h" "hash_map h1 = (hash_map h)(?k := None)"
    using ne_hash_remove_map [OF assms(1), of ?k] by blast
  obtain h' where "ne_hash_insert True True ?k c h1 = Some (Inr (), h')" "hash_inv h'" "hash_map h' = (hash_map h1)(?k \<mapsto> c)"
    using ne_hash_insert_map [OF h1(2), of ?k c] h1(3) assms(2) by auto
  then show ?thesis using h1 assms(1) by (auto simp: mcbk_regist_def mcbk_find_def ne_hash_lookup_map)
qed

text \<open>The calls a message causes: one of the callback registered for it, if there is one.\<close>

definition calls_of :: "(string, nat) ne_hash \<Rightarrow> string \<Rightarrow> string \<Rightarrow> hdf \<Rightarrow> (nat \<times> hdf) list" where
  "calls_of h ename cmd t = (case mcbk_find h ename cmd of Some (Some c) \<Rightarrow> [(c, t)] | _ \<Rightarrow> [])"

fun callback_rounds :: "nat \<Rightarrow> moc_arg \<Rightarrow> ((nat \<times> hdf) list \<times> moc_arg) option" where
  "callback_rounds 0 arg = Some ([], arg)"
| "callback_rounds (Suc k) arg = do { (l, arg1) \<leftarrow> callback_round arg; (ls, arg2) \<leftarrow> callback_rounds k arg1; Some (l @ ls, arg2) }"

lemma callback_round_ok:
  assumes "callbacks arg (d # ds)" "mq_ename d = Some ename" "mq_cmd d = Some cmd" "hash_inv (ma_cbkh arg)"
  shows "\<exists>arg'. callback_round arg = Some (calls_of (ma_cbkh arg) ename cmd (mq_hdfrcv d), arg') \<and> callbacks arg' ds \<and> ma_cbkh arg' = ma_cbkh arg"
proof -
  obtain as where as: "queue_rep (ma_queue arg, ma_heap arg) as" "payloads (ma_heap arg) as = d # ds"
    and fr: "\<forall>e \<ge> ma_next arg. ma_heap arg e = None" and mem: "ma_mem arg = []" using assms(1) by (auto simp: callbacks_def)
  then obtain e es where e: "as = e # es" "qe_data (the (ma_heap arg e)) = d" "payloads (ma_heap arg) es = ds" by (cases as) (auto simp: payloads_def)
  obtain n where n: "ma_heap arg e = Some n" "qe_data n = d" using as(1) e by (auto simp: queue_rep_def)
  obtain q where q: "msqueue_get (ma_queue arg, ma_heap arg) = Some (Some e, (q, ma_heap arg))" "queue_rep (q, ma_heap arg) es"
    using queue_get_rep [OF as(1) [unfolded e(1)]] unfolding msqueue_same by (metis prod.collapse snd_conv)
  have notin: "e \<notin> set es" using as(1) e(1) by (simp add: queue_rep_def)
  let ?arg' = "arg\<lparr>ma_queue := q, ma_heap := (ma_heap arg)(e := None)\<rparr>"
  have "callbacks ?arg' ds"
    using q(2) notin fr mem e(3) payloads_upd [OF notin, of "ma_heap arg"] by (auto simp: callbacks_def queue_rep_def rep_simps)
  moreover have "callback_round arg = Some (calls_of (ma_cbkh arg) ename cmd (mq_hdfrcv d), ?arg')"
    using q(1) n assms(2-4) by (simp add: callback_round_def calls_of_def mcbk_find_def ne_hash_lookup_map split: option.split)
  ultimately show ?thesis by auto
qed

lemma callback_rounds_all:
  assumes "callbacks arg (pushed_all ename ps)" "hash_inv (ma_cbkh arg)"
  shows "\<exists>arg'. callback_rounds (length ps) arg =
     Some (concat (map (\<lambda>(cmd, cs). calls_of (ma_cbkh arg) ename cmd (HDF None None False [] cs)) ps), arg') \<and> callbacks arg' []"
  using assms
proof (induction ps arbitrary: arg)
  case Nil
  then show ?case by (simp add: pushed_all_def)
next
  case (Cons x ps)
  obtain cmd cs where x: "x = (cmd, cs)" by (cases x)
  have "callbacks arg (pushed ename cmd cs # pushed_all ename ps)" using Cons.prems(1) x by (simp add: pushed_all_def)
  from callback_round_ok [OF this _ _ Cons.prems(2), of ename cmd] obtain arg1 where arg1:
    "callback_round arg = Some (calls_of (ma_cbkh arg) ename cmd (HDF None None False [] cs), arg1)" "callbacks arg1 (pushed_all ename ps)"
    "ma_cbkh arg1 = ma_cbkh arg" by (auto simp: pushed_def)
  then show ?case using Cons.IH [OF arg1(2)] Cons.prems(2) x by auto
qed

section \<open>From the server to the application\<close>

text \<open>The server builds the message \<open>buf\<close> with the command \<open>cmd\<close> and the children \<open>cs\<close> of some node.\<close>

definition server_builds :: "string \<Rightarrow> hdf list \<Rightarrow> bytes \<Rightarrow> bool" where
  "server_builds cmd cs buf \<longleftrightarrow> pushable cmd cs \<and>
     (\<exists>root p n v as w root'. node_at root p = Some (HDF n v False as cs) \<and> w_mem w = [] \<and> base_msg_new cmd root p w = Some (Inr buf, root', w))"

lemma server_builds_frame: "server_builds cmd cs buf \<Longrightarrow> pushable cmd cs \<and> buf = frame (push_msg cmd cs)"
  using base_msg_new_builds by (fastforce simp: server_builds_def)

lemma server_builds_stream:
  "list_all2 (\<lambda>(cmd, cs) buf. server_builds cmd cs buf) ps bufs \<Longrightarrow> concat bufs = push_stream ps \<and> (\<forall>(cmd, cs) \<in> set ps. pushable cmd cs)"
proof (induction ps bufs rule: list_all2_induct)
  case (Cons x ps b bufs)
  obtain cmd cs where "x = (cmd, cs)" by (cases x)
  then show ?case using Cons server_builds_frame [of cmd cs b] by simp
qed simp


definition demo_listener :: "(string, nat) ne_hash \<Rightarrow> moc_arg" where
  "demo_listener h = (demo_arg [])\<lparr>ma_evts := [0 \<mapsto> demo_evt], ma_cbkh := h\<rparr>"

lemma demo_pushable: "pushable ''bcst'' (hchild demo_packet)"
  by (simp add: pushable_def push_tree_def sendable_def demo_packet_def valid_name_def name_char_def isalnum_def isalpha_def isdigit_def value_ok_def
      trimmed_def isspace_def value_part_def attr_part_def attr_ok_def repr_char_def isprint_def)


end
