(* ===== verification/Client_Calls.thy ===== *)
theory Client_Calls
  imports Client_Api Client_Delivery
begin

text \<open>
  Calls of an application, with the server at the other end: a parameter it has set is what the plugin
  reads, and the reply is what the application finds, with and without the event loop.
\<close>

section \<open>Parameters\<close>

lemma find_evtI: "ne_hash_lookup module (ma_evth arg) = Some (Some k) \<Longrightarrow> ma_evts arg k = Some evt \<Longrightarrow> find_evt module arg = Some (Some (k, evt))"
  by (simp add: find_evt_def)

lemma set_then_get:
  assumes "no_links t" "name \<noteq> []" "[] \<notin> set (components name)"
  shows "\<exists>q t'. hdf_set_value t [] name (Some v) = Some (Inr q, t') \<and> hdf_get_value t' [] (Some name) d = Some (Some v)"
proof -
  let ?t = "insert_at (plain (Some v)) (components name) t"
  have "hdf_set_value t [] name (Some v) = Some (Inr q, ?t) \<Longrightarrow> ?thesis" for q
    using hdf_get_value_link_free [of ?t "[]" ?t name d] no_links_insert_at [OF assms(1), of "plain (Some v)" "components name"]
      value_at_insert_at [of "components name" "plain (Some v)" t "components name"] assms(2)
    by (simp add: plain_def components_def)
  then show ?thesis using hdf_set_value_link_free [OF assms(1) _ assms(2,3), of "[]" t "Some v"] by auto
qed

text \<open>
  C6. A parameter reaches the plugin. After the application has set a parameter of a module and has
  triggered an asynchronous request, exactly one framed message is on the wire; when the server
  receives it on a connection and knows the plugin, the request is entered at the end of that
  plugin's queue, with the command, the flags and the request number, and the plugin reads under
  the parameter's name the value the application has set. Nothing else in the queues changes.
\<close>

theorem param_reaches_plugin:
  assumes "ne_hash_lookup module (ma_evth arg) = Some (Some k)" "ma_evts arg k = Some evt"
    and "no_links (mv_hdfsnd evt)" "key \<noteq> []" "[] \<notin> set (components key)"
    and "\<forall>q t. hdf_set_value (mv_hdfsnd evt) [] key (Some val) = Some (q, t) \<longrightarrow> can_send (evt\<lparr>mv_hdfsnd := t\<rparr>) arg"
    and "flags AND 2 = 0" "next_reqid (ma_reqid arg) < 2 ^ 28"
    and "world_inv X w" "queues_hold Q X w" "w_socks w a = Some s" "rq_sock (sk_req s) = a"
    and "find_entry_in_table w (mv_ename evt) = Some (Some ev)" "w_events w ev = Some e" "q_size (ee_queue e) \<le> MAX_QUEUE_ENTRY"
  shows "\<exists>arg1 arg2 outs m w' n. moc_set_param module key val arg = Some (Inr (), arg1) \<and>
     moc_trigger_r module None cmd flags arg1 = Some (REP_OK, arg2) \<and>
     nt_out (ma_net arg2) = nt_out (ma_net arg) @ outs \<and> concat (map snd outs) = frame m \<and> frameable m \<and>
     parse_message a m w = Some (True, w') \<and> queues_hold (Q(ev := Q ev @ [w_next w])) X w' \<and> w_entries w' (w_next w) = Some n \<and>
     qd_operation (qe_data n) = ucast cmd \<and> rq_flags (qd_req (qe_data n)) = flags \<and>
     rq_id (qd_req (qe_data n)) = be32 (next_reqid (ma_reqid arg)) \<and> rq_sock (qd_req (qe_data n)) = a \<and>
     hdf_get_value (qd_hdfrcv (qe_data n)) [] (Some key) None = Some (Some val)"
proof -
  obtain q t where t: "hdf_set_value (mv_hdfsnd evt) [] key (Some val) = Some (Inr q, t)" "hdf_get_value t [] (Some key) None = Some (Some val)"
    using set_then_get [OF assms(3-5)] by blast
  let ?evt = "evt\<lparr>mv_hdfsnd := t\<rparr>"
  let ?arg1 = "set_evt k ?evt arg"
  have set: "moc_set_param module key val arg = Some (Inr (), ?arg1)"
    using find_evtI [OF assms(1,2)] t(1) by (simp add: moc_set_param_def)
  have f: "find_evt module ?arg1 = Some (Some (k, ?evt))" using assms(1) by (simp add: find_evt_def set_evt_def)
  have c: "can_send ?evt ?arg1" using assms(6) t(1) by (simp add: can_send_def set_evt_def)
  have r: "ma_reqid ?arg1 = ma_reqid arg" "ma_net ?arg1 = ma_net arg" by (simp_all add: set_evt_def)
  from trigger_queued [OF c assms(7) _ assms(9-12) _ assms(14,15), of cmd] assms(8,13) r obtain evt' arg' outs m w' n where
      m: "mevt_trigger None cmd flags ?evt ?arg1 = Some (REP_OK, evt', arg')" "nt_out (ma_net arg') = nt_out (ma_net arg) @ outs"
        "concat (map snd outs) = frame m" "frameable m" "parse_message a m w = Some (True, w')" "queues_hold (Q(ev := Q ev @ [w_next w])) X w'"
        "w_entries w' (w_next w) = Some n" "qd_operation (qe_data n) = ucast cmd" "qd_hdfrcv (qe_data n) = t"
        "rq_flags (qd_req (qe_data n)) = flags" "rq_id (qd_req (qe_data n)) = be32 (next_reqid (ma_reqid arg))" "rq_sock (qd_req (qe_data n)) = a"
    by auto
  have "moc_trigger_r module None cmd flags ?arg1 = Some (REP_OK, set_evt k evt' arg')" using f m(1) by (simp add: moc_trigger_r_def)
  moreover have "ma_net (set_evt k evt' arg') = ma_net arg'" by (simp add: set_evt_def)
  ultimately show ?thesis using set m t(2) by (intro exI conjI) (assumption | simp)+
qed

text \<open>An application with one module.\<close>

lemma demo_evth: "\<exists>h. ne_hash_insert True True ''base'' 0 demo_hash = Some (Inr (), h) \<and> ne_hash_lookup ''base'' h = Some (Some 0)"
proof -
  have "hash_inv demo_hash" "h_size demo_hash \<le> 2 ^ 30" using demo_hash_rep by (simp_all add: hash_rep_def demo_hash_def)
  from ne_hash_insert_map [OF this, of "''base''" 0] show ?thesis by (auto simp: ne_hash_lookup_map)
qed

definition demo_app :: "rx list \<Rightarrow> (string, addr) ne_hash \<Rightarrow> moc_arg" where
  "demo_app rs h = (demo_arg rs)\<lparr>ma_evth := h, ma_evts := [0 \<mapsto> demo_evt]\<rparr>"

lemma demo_app_simps:
  "ma_evth (demo_app rs h) = h" "ma_evts (demo_app rs h) 0 = Some demo_evt" "ma_reqid (demo_app rs h) = 0" "nt_in (ma_net (demo_app rs h)) = rs"
  "nt_out (ma_net (demo_app rs h)) = []" "can_send demo_evt (demo_app rs h)"
  using demo_can_send [of rs] by (simp_all add: demo_app_def demo_arg_def can_send_def)

lemma demo_param:
  "no_links (mv_hdfsnd demo_evt)" "[] \<notin> set (components ''cmd'')"
  "hdf_set_value (mv_hdfsnd demo_evt) [] ''cmd'' (Some ''go'') = Some (q, t) \<Longrightarrow> can_send (demo_evt\<lparr>mv_hdfsnd := t\<rparr>) (demo_app rs h)"
proof -
  show c: "no_links (mv_hdfsnd demo_evt)" "[] \<notin> set (components ''cmd'')" by (simp_all add: demo_evt_def demo_packet_def components_def)
  have "sendable (HDF None None False [] [HDF (Some ''uid'') (Some ''7'') False [] [], HDF (Some ''cmd'') (Some ''go'') False [] []])"
    by (simp add: sendable_def valid_name_def name_char_def isalnum_def isalpha_def isdigit_def value_ok_def
        trimmed_def isspace_def value_part_def attr_part_def)
  moreover assume "hdf_set_value (mv_hdfsnd demo_evt) [] ''cmd'' (Some ''go'') = Some (q, t)"
  then have "t = HDF None None False [] [HDF (Some ''uid'') (Some ''7'') False [] [], HDF (Some ''cmd'') (Some ''go'') False [] []]"
    by (simp add: demo_evt_def demo_packet_def hdf_set_value_def set_value_def set_components.simps new_node_def plain_def Let_def)
  ultimately show "can_send (demo_evt\<lparr>mv_hdfsnd := t\<rparr>) (demo_app rs h)" using demo_app_simps(6) [of rs h] by (simp add: can_send_def)
qed

theorem param_reaches_plugin_witness:
  "\<exists>h arg1 arg2 m w' n. ne_hash_insert True True ''base'' 0 demo_hash = Some (Inr (), h) \<and>
     moc_set_param ''base'' ''cmd'' ''go'' (demo_app [] h) = Some (Inr (), arg1) \<and>
     moc_trigger_r ''base'' None 1001 0 arg1 = Some (REP_OK, arg2) \<and> concat (map snd (nt_out (ma_net arg2))) = frame m \<and>
     parse_message 2 m demo_known = Some (True, w') \<and> queues_hold (\<lambda>ev. if ev = 0 then [1, 3] else []) {} w' \<and>
     w_entries w' 3 = Some n \<and> hdf_get_value (qd_hdfrcv (qe_data n)) [] (Some ''cmd'') None = Some (Some ''go'')"
proof -
  obtain h where h: "ne_hash_insert True True ''base'' 0 demo_hash = Some (Inr (), h)" "ne_hash_lookup ''base'' h = Some (Some 0)"
    using demo_evth by blast
  obtain s e where s: "w_socks demo_known 2 = Some s" "rq_sock (sk_req s) = 2" and e: "w_events demo_known 0 = Some e" "q_size (ee_queue e) \<le> MAX_QUEUE_ENTRY"
    and nx: "w_next demo_known = 3" by (simp add: demo_known_def last_request_def Let_def)
  have f: "find_entry_in_table demo_known (mv_ename demo_evt) = Some (Some 0)" using demo_known_ok(3) by (simp add: demo_evt_def)
  have l: "ne_hash_lookup ''base'' (ma_evth (demo_app [] h)) = Some (Some 0)" using h(2) by (simp add: demo_app_simps)
  have set: "\<forall>q t. hdf_set_value (mv_hdfsnd demo_evt) [] ''cmd'' (Some ''go'') = Some (q, t) \<longrightarrow> can_send (demo_evt\<lparr>mv_hdfsnd := t\<rparr>) (demo_app [] h)"
    using demo_param(3) by blast
  have n: "next_reqid (ma_reqid (demo_app [] h)) < 2 ^ 28" by (simp add: demo_app_simps next_reqid_def)
  have "(0 :: u16) AND 2 = 0" "''cmd'' \<noteq> []" by simp_all
  from param_reaches_plugin [OF l demo_app_simps(2) demo_param(1) this(2) demo_param(2) set this(1) n demo_known_ok(1,2) s f e, of 1001]
  obtain arg1 arg2 outs m w' n where r: "moc_set_param ''base'' ''cmd'' ''go'' (demo_app [] h) = Some (Inr (), arg1)"
      "moc_trigger_r ''base'' None 1001 0 arg1 = Some (REP_OK, arg2)" "nt_out (ma_net arg2) = nt_out (ma_net (demo_app [] h)) @ outs"
      "concat (map snd outs) = frame m" "parse_message 2 m demo_known = Some (True, w')"
      "queues_hold ((\<lambda>ev. if ev = 0 then [1] else [])(0 := [1] @ [w_next demo_known])) {} w'" "w_entries w' (w_next demo_known) = Some n"
      "hdf_get_value (qd_hdfrcv (qe_data n)) [] (Some ''cmd'') None = Some (Some ''go'')"
    by auto
  have "(\<lambda>ev :: addr. if ev = 0 then [1] else [])(0 := [1] @ [w_next demo_known]) = (\<lambda>ev. if ev = 0 then [1, 3] else [])" using nx by auto
  then have "queues_hold (\<lambda>ev. if ev = 0 then [1, 3] else []) {} w'" using r(6) by (simp only:)
  moreover have "nt_out (ma_net arg2) = outs" "w_entries w' 3 = Some n" using r(3,7) nx by (simp_all add: demo_app_simps)
  ultimately show ?thesis using h(1) r(1,2,4,5,8) by blast
qed

section \<open>Replies\<close>

lemma call_returns:
  assumes "ne_hash_lookup module (ma_evth arg) = Some (Some k)" "ma_evts arg k = Some evt"
    and "mevt_trigger None cmd flags evt arg = Some (code, evt', arg')" "ma_evth arg' = ma_evth arg"
  shows "moc_trigger_r module None cmd flags arg = Some (code, set_evt k evt' arg')"
    "moc_errcode module (set_evt k evt' arg') = Some (mv_errcode evt')" "moc_hdfrcv module (set_evt k evt' arg') = Some (Some (mv_hdfrcv evt'))"
    "ma_net (set_evt k evt' arg') = ma_net arg'"
proof -
  have "find_evt module (set_evt k evt' arg') = Some (Some (k, evt'))" using assms(1,4) by (simp add: find_evt_def set_evt_def)
  then show "moc_errcode module (set_evt k evt' arg') = Some (mv_errcode evt')" "moc_hdfrcv module (set_evt k evt' arg') = Some (Some (mv_hdfrcv evt'))"
    by (simp_all add: moc_errcode_def moc_hdfrcv_def)
  show "moc_trigger_r module None cmd flags arg = Some (code, set_evt k evt' arg')"
    using find_evtI [OF assms(1,2)] assms(3) by (simp add: moc_trigger_r_def)
qed (simp add: set_evt_def)


text \<open>
  C7. A synchronous call gives the caller what the server replied. The request goes out framed, with the
  next request number. When the server answers that request with \<open>reply_trigger\<close> and the bytes it
  sends arrive, cut into pieces in any way, \<open>moc_trigger_r\<close> returns the reply code, \<open>moc_errcode_r\<close>
  gives it too, and the data tree the plugin left in the entry's \<open>hdfsnd\<close> is what \<open>moc_hdfrcv_r\<close>
  gives the application.
\<close>

theorem call_answered:
  assumes "ne_hash_lookup module (ma_evth arg) = Some (Some k)" "ma_evts arg k = Some evt" "can_send evt arg" "flags AND 2 \<noteq> 0"
    and "rq_id (qd_req q) = be32 (next_reqid (ma_reqid arg))" "0 \<le> code" "code < 2 ^ 31"
    and "sendable (qd_hdfsnd q)" "w_mem w = []" "\<forall>a \<in> set (w_sends w). 0 < a" "reply_trigger q code w = Some (r, w')"
    and "only_data (nt_in (ma_net arg))"
    and "sent_to (rq_fd (qd_req q)) (w_log w') = sent_to (rq_fd (qd_req q)) (w_log w) @ data_of (nt_in (ma_net arg))"
  shows "\<exists>arg' outs. moc_trigger_r module None cmd flags arg = Some (code, arg') \<and>
     nt_out (ma_net arg') = nt_out (ma_net arg) @ outs \<and>
     concat (map snd outs) = frame (request_bytes (next_reqid (ma_reqid arg)) cmd flags (mv_ename evt) (mv_hdfsnd evt)) \<and>
     moc_errcode module arg' = Some code \<and> moc_hdfrcv module arg' = Some (Some (qd_hdfsnd q))"
proof -
  from trigger_answered [OF assms(3-13), of cmd] obtain evt' arg' outs where
      t: "mevt_trigger None cmd flags evt arg = Some (code, evt', arg')" "nt_out (ma_net arg') = nt_out (ma_net arg) @ outs" "ma_evth arg' = ma_evth arg"
        "concat (map snd outs) = frame (request_bytes (next_reqid (ma_reqid arg)) cmd flags (mv_ename evt) (mv_hdfsnd evt))"
        "mv_errcode evt' = code" "mv_hdfrcv evt' = qd_hdfsnd q" by blast
  with call_returns [OF assms(1,2) t(1,3)] show ?thesis by auto
qed

definition demo_done :: qdata where
  "demo_done = \<lparr>qd_operation = 1001, qd_ename = ''base'', qd_hdfrcv = demo_packet, qd_hdfsnd = demo_packet,
     qd_req = demo_junk\<lparr>rq_fd := 7, rq_sock := 2, rq_id := be32 1\<rparr>\<rparr>"

lemma demo_done_simps:
  "sendable (qd_hdfsnd demo_done)" "rq_fd (qd_req demo_done) = 7" "qd_hdfsnd demo_done = demo_packet"
  "rq_id (qd_req demo_done) = be32 (next_reqid (ma_reqid (demo_app rs h)))"
  "w_mem demo_known = []" "w_log demo_known = []" "\<forall>a \<in> set (w_sends demo_known). 0 < a"
  using demo_packet_sendable
  by (simp_all add: demo_done_def demo_app_simps next_reqid_def demo_known_def last_request_def Let_def empty_world_def)

lemma demo_replies:
  "\<exists>w'. reply_trigger demo_done code demo_known = Some (True, w') \<and> sent_to 7 (w_log w') \<noteq> []"
proof -
  have "reply_bytes (qd_req demo_done) code (answer (qd_hdfsnd demo_done)) \<noteq> []"
    by (simp add: reply_bytes_def answer_def mini_bytes_def long_bytes_def be32_def Let_def)
  then show ?thesis using server_answers [OF demo_done_simps(1,5,7), of code] demo_done_simps(2,6) by auto
qed

theorem call_answered_witness:
  "\<exists>h w' arg'. ne_hash_insert True True ''base'' 0 demo_hash = Some (Inr (), h) \<and> reply_trigger demo_done 1000 demo_known = Some (True, w') \<and>
     moc_trigger_r ''base'' None 1001 2 (demo_app [Got (sent_to 7 (w_log w'))] h) = Some (1000, arg') \<and>
     moc_errcode ''base'' arg' = Some 1000 \<and> moc_hdfrcv ''base'' arg' = Some (Some demo_packet)"
proof -
  obtain h where h: "ne_hash_insert True True ''base'' 0 demo_hash = Some (Inr (), h)" "ne_hash_lookup ''base'' h = Some (Some 0)"
    using demo_evth by blast
  obtain w' where w': "reply_trigger demo_done 1000 demo_known = Some (True, w')" "sent_to 7 (w_log w') \<noteq> []" using demo_replies by blast
  let ?rs = "[Got (sent_to 7 (w_log w'))]"
  have l: "ne_hash_lookup ''base'' (ma_evth (demo_app ?rs h)) = Some (Some 0)" using h(2) by (simp add: demo_app_simps)
  have d: "only_data (nt_in (ma_net (demo_app ?rs h)))" using w'(2) by (simp add: demo_app_simps only_data_def)
  have s: "sent_to (rq_fd (qd_req demo_done)) (w_log w') = sent_to (rq_fd (qd_req demo_done)) (w_log demo_known) @ data_of (nt_in (ma_net (demo_app ?rs h)))"
    by (simp add: demo_app_simps demo_done_simps(2,6))
  have "(2 :: u16) AND 2 \<noteq> 0" "(0 :: int) \<le> 1000" "(1000 :: int) < 2 ^ 31" by simp_all
  from call_answered [OF l demo_app_simps(2,6) this(1) demo_done_simps(4) this(2,3) demo_done_simps(1,5,7) w'(1) d s, of 1001] h(1) w'(1)
  show ?thesis unfolding demo_done_simps(3) by blast
qed

section \<open>Replies with the event loop\<close>

definition reply_msg :: "bytes \<Rightarrow> int \<Rightarrow> hdf option \<Rightarrow> bytes" where
  "reply_msg reqid code t = reqid @ be32 (of_int code) @
     (case t of None \<Rightarrow> [] | Some x \<Rightarrow> be32 (of_nat (length (packet_of x))) @ packet_of x)"

lemma reply_is_frame:
  assumes "length (rq_id req) = 4" "\<forall>x. t = Some x \<longrightarrow> sendable x"
  shows "reply_bytes req code t = frame (reply_msg (rq_id req) code t)" "frameable (reply_msg (rq_id req) code t)"
  using assms length_packet_of [of "the t"]
  by (auto simp: reply_bytes_def reply_msg_def frame_def frameable_def mini_bytes_def long_bytes_def add.assoc split: option.split)

lemma msparse_reply:
  assumes "\<not> reqid < ma_reqid arg" "reqid \<noteq> 0" "ma_evts arg a = Some evt" "\<forall>x. t = Some x \<longrightarrow> sendable x"
  shows "msparse_msg a (reply_msg (be32 reqid) code t) arg =
     Some (Inr (), case t of None \<Rightarrow> arg | Some x \<Rightarrow> set_evt a (evt\<lparr>mv_hdfrcv := x\<rparr>) arg)"
proof -
  have rd: "rd32 (reply_msg (be32 reqid) code t) 0 = Some reqid" "rd32 (reply_msg (be32 reqid) code t) 4 = Some (of_int code)"
    by (simp_all add: reply_msg_def mem_simps)
  show ?thesis
  proof (cases t)
    case None
    then show ?thesis using rd assms(1,2) by (simp add: msparse_msg_def reply_msg_def)
  next
    case (Some x)
    let ?p = "packet_of x"
    have x: "sendable x" using Some assms(4) by simp
    have p: "20 \<le> length ?p" "length ?p \<le> 65044" using length_packet_of [OF x] by (simp_all add: packet_of_def length_packed)
    have r: "unat (of_nat (length ?p) :: u32) = length ?p" using p(2) by (intro unat_of_small) simp
    then have ne: "(of_nat (length ?p) :: u32) \<noteq> 0" using p(1) by (metis le_zero_eq unsigned_0 zero_neq_numeral)
    have un: "unpack_hdf (reply_msg (be32 reqid) code t) 12 len = Some (of_nat (length ?p), x)" for len
      using unpack_sendable [OF x, of "be32 reqid @ be32 (of_int code) @ be32 (of_nat (length ?p))" "[]" len] by (simp add: Some reply_msg_def)
    have l: "length (reply_msg (be32 reqid) code t) = 12 + length ?p" by (simp add: Some reply_msg_def)
    show ?thesis using rd un ne assms(1-3) Some unfolding msparse_msg_def l Let_def by simp
  qed
qed

lemma el_received_reply:
  assumes "conn_holds a i fd ename [] arg" "length (rq_id req) = 4" "\<forall>x. t = Some x \<longrightarrow> sendable x"
    and "rq_id req = be32 reqid" "\<not> reqid < ma_reqid arg" "reqid \<noteq> 0" "ma_evts arg a = Some evt"
  shows "el_received a i fd (reply_bytes req code t) arg =
     Some (case t of None \<Rightarrow> arg | Some x \<Rightarrow> set_evt a (evt\<lparr>mv_hdfrcv := x\<rparr>) arg)"
proof -
  let ?m = "reply_msg (be32 reqid) code t"
  obtain s where s: "get_srv a i arg = Some s" "i < length (mv_servers evt)" "mv_servers evt ! i = s" "sr_fd s = fd" "sr_excess s = 0" "sr_buf s = None"
    using assms(1,7) by (auto simp: conn_holds_def get_srv_def)
  have f: "reply_bytes req code t = frame ?m @ []" "frameable ?m" using reply_is_frame [OF assms(2,3)] assms(4) by auto
  have "el_received a i fd (reply_bytes req code t) arg = msparse_buf a i fd (frame ?m @ []) arg"
    using s f(1) by (simp add: el_received_def)
  also have "\<dots> = Some (case t of None \<Rightarrow> arg | Some x \<Rightarrow> set_evt a (evt\<lparr>mv_hdfrcv := x\<rparr>) arg)"
    unfolding whole_msparse_buf [OF f(2) assms(7) s(1,4)]
    using msparse_reply [OF assms(5,6,7,3), of code] s assms(7) by (cases t) (auto simp: get_srv_def set_evt_def)
  finally show ?thesis .
qed

lemma next_reqid_nonzero: "next_reqid g \<noteq> 0"
proof -
  have "g + 1 \<noteq> 0" if "\<not> g > 0x0FFFFFFC"
  proof
    assume "g + 1 = 0"
    then have "g = - 1" by (simp add: eq_neg_iff_add_eq_0)
    with that show False by simp
  qed
  then show ?thesis by (simp add: next_reqid_def)
qed

text \<open>
  C16. With the event loop the caller is told of success whatever the server replied. When the event loop
  receives the reply while \<open>moc_trigger\<close> waits for it, the data tree arrives as it should, but the
  code of the reply is dropped: the call returns \<open>REP_OK\<close>, and \<open>moc_errcode\<close> still gives what it gave
  before the call.
\<close>

theorem eventloop_loses_code:
  assumes "ne_hash_lookup module (ma_evth arg) = Some (Some k)" "ma_evts arg k = Some evt" "can_send evt arg" "flags AND 2 \<noteq> 0"
    and "conn_holds k 0 fd (mv_ename evt) [] arg"
    and "rq_id (qd_req q) = be32 (next_reqid (ma_reqid arg))"
    and "sendable (qd_hdfsnd q)" "w_mem w = []" "\<forall>a \<in> set (w_sends w). 0 < a" "reply_trigger q code w = Some (r, w')"
    and "sent_to (rq_fd (qd_req q)) (w_log w') = sent_to (rq_fd (qd_req q)) (w_log w) @ bs"
  shows "\<exists>arg'. moc_trigger (\<lambda>x. map_option (Pair 0) (el_received k 0 fd bs x)) module None cmd flags arg = Some (REP_OK, arg') \<and>
     moc_errcode module arg' = Some (mv_errcode evt) \<and> moc_hdfrcv module arg' = Some (Some (qd_hdfsnd q))"
proof -
  let ?t = "answer (qd_hdfsnd q)"
  let ?id = "next_reqid (ma_reqid arg)"
  have bs: "bs = reply_bytes (qd_req q) code ?t" using server_answers [OF assms(7-9), of code] assms(10,11) by auto
  have st: "\<forall>x. ?t = Some x \<longrightarrow> sendable x" using assms(7) by (simp add: answer_def)
  have tree: "(case ?t of None \<Rightarrow> hdf_init | Some x \<Rightarrow> x) = qd_hdfsnd q"
    using assms(7) by (auto simp: answer_def hdf_init_def elim!: sendableE)
  from sends_request [OF assms(3), of cmd flags] obtain evt2 as outs where snd: "mevt_send None cmd flags evt arg =
       Some (True, 0, evt2, arg\<lparr>ma_reqid := ?id, ma_net := (ma_net arg)\<lparr>nt_sends := as, nt_out := nt_out (ma_net arg) @ outs\<rparr>\<rparr>)"
      "mv_servers evt2 = mv_servers evt" "mv_ename evt2 = mv_ename evt" "mv_errcode evt2 = mv_errcode evt" "mv_hdfrcv evt2 = hdf_init" by blast
  let ?arg1 = "arg\<lparr>ma_reqid := ?id, ma_net := (ma_net arg)\<lparr>nt_sends := as, nt_out := nt_out (ma_net arg) @ outs\<rparr>\<rparr>"
  obtain s where s: "mv_servers evt ! 0 = s" "0 < length (mv_servers evt)" "sr_fd s = fd" "sr_excess s = 0" "sr_buf s = None"
    using assms(2,5) by (auto simp: conn_holds_def)
  let ?s3 = "if fst (sr_tv s) \<le> 0 then s\<lparr>sr_tv := (1, snd (sr_tv s))\<rparr> else s"
  define evt3 where "evt3 = evt2\<lparr>mv_servers := (mv_servers evt2)[0 := ?s3]\<rparr>"
  let ?arg3 = "set_evt k evt3 ?arg1"
  have set3: "set_srv k 0 (\<lambda>s. if fst (sr_tv s) \<le> 0 then s\<lparr>sr_tv := (1, snd (sr_tv s))\<rparr> else s) (set_evt k evt2 ?arg1) = Some ?arg3"
    using snd(2) s by (simp add: set_srv_def evt3_def)
  have "conn_holds k 0 fd (mv_ename evt) [] ?arg3" using snd(2,3) s by (auto simp: conn_holds_def evt3_def)
  then have rcv: "el_received k 0 fd bs ?arg3 = Some (case ?t of None \<Rightarrow> ?arg3 | Some x \<Rightarrow> set_evt k (evt3\<lparr>mv_hdfrcv := x\<rparr>) ?arg3)"
    unfolding bs using st assms(6) next_reqid_nonzero by (intro el_received_reply [where reqid = ?id]) (auto simp: set_evt_def)
  let ?arg4 = "case ?t of None \<Rightarrow> ?arg3 | Some x \<Rightarrow> set_evt k (evt3\<lparr>mv_hdfrcv := x\<rparr>) ?arg3"
  have "moc_trigger (\<lambda>x. map_option (Pair 0) (el_received k 0 fd bs x)) module None cmd flags arg = Some (REP_OK, ?arg4)"
    using find_evtI [OF assms(1,2)] snd(1) assms(4) set3 rcv by (simp add: moc_trigger_def)
  moreover have "find_evt module ?arg4 = Some (Some (k, evt3\<lparr>mv_hdfrcv := qd_hdfsnd q\<rparr>))"
    using assms(1) tree snd(5) by (cases ?t) (auto simp: find_evt_def set_evt_def evt3_def)
  moreover have "mv_errcode evt3 = mv_errcode evt" using snd(4) by (simp add: evt3_def)
  ultimately show ?thesis by (auto simp: moc_errcode_def moc_hdfrcv_def)
qed

theorem eventloop_loses_code_witness:
  "\<exists>h w' arg'. ne_hash_insert True True ''base'' 0 demo_hash = Some (Inr (), h) \<and> reply_trigger demo_done 7 demo_known = Some (True, w') \<and>
     moc_trigger (\<lambda>x. map_option (Pair 0) (el_received 0 0 5 (sent_to 7 (w_log w')) x)) ''base'' None 1001 2 (demo_app [] h) = Some (REP_OK, arg') \<and>
     moc_errcode ''base'' arg' = Some 0 \<and> moc_hdfrcv ''base'' arg' = Some (Some demo_packet)"
proof -
  obtain h where h: "ne_hash_insert True True ''base'' 0 demo_hash = Some (Inr (), h)" "ne_hash_lookup ''base'' h = Some (Some 0)"
    using demo_evth by blast
  obtain w' where w': "reply_trigger demo_done 7 demo_known = Some (True, w')" using demo_replies by blast
  have l: "ne_hash_lookup ''base'' (ma_evth (demo_app [] h)) = Some (Some 0)" using h(2) by (simp add: demo_app_simps)
  have c: "conn_holds 0 0 5 (mv_ename demo_evt) [] (demo_app [] h)" by (simp add: conn_holds_def demo_app_simps demo_evt_def demo_srv_def)
  have s: "sent_to (rq_fd (qd_req demo_done)) (w_log w') = sent_to (rq_fd (qd_req demo_done)) (w_log demo_known) @ sent_to 7 (w_log w')"
    by (simp add: demo_done_simps(2,6))
  have "(2 :: u16) AND 2 \<noteq> 0" "mv_errcode demo_evt = 0" by (simp_all add: demo_evt_def)
  from eventloop_loses_code [OF l demo_app_simps(2,6) this(1) c demo_done_simps(4) demo_done_simps(1,5,7) w' s, of 1001] this(2) h(1) w'
  show ?thesis unfolding demo_done_simps(3) by auto
qed

end
