(* ===== verification/Moc_Call.thy ===== *)
theory Moc_Call
  imports Client_Calls
begin

text \<open>
  A whole call: the application sets a parameter and triggers a synchronous request, the server's
  main thread receives and queues it, the plugin's worker takes it, has it processed, replies and frees
  it, and the application finds the reply.

  The plugin is any function from the command and the received tree to a code and a tree.
\<close>

definition answering :: "(u32 \<Rightarrow> hdf \<Rightarrow> int \<times> hdf) \<Rightarrow> unit process_driver" where
  "answering f a s w = do {
     n \<leftarrow> w_entries w a;
     let q = qe_data n;
     let (code, t) = f (qd_operation q) (qd_hdfrcv q);
     (r, w') \<leftarrow> reply_trigger (q\<lparr>qd_hdfsnd := t\<rparr>) code w;
     Some (s, w') }"

section \<open>What is sent meanwhile\<close>

text \<open>Nothing is sent, and no answer of \<open>send\<close> is used.\<close>

definition silent :: "world \<Rightarrow> world \<Rightarrow> bool" where
  "silent w w' \<longleftrightarrow> w_sends w' = w_sends w \<and> (\<forall>fd. sent_to fd (w_log w') = sent_to fd (w_log w))"

lemma silent_trans: "silent w w1 \<Longrightarrow> silent w1 w2 \<Longrightarrow> silent w w2"
  by (simp add: silent_def)

lemma silent_fields [simp]:
  "silent w (w\<lparr>w_socks := x\<rparr>)" "silent w (count_stat f w)" "silent w (w\<lparr>w_events := y\<rparr>)"
  by (simp_all add: silent_def count_stat_def)

lemma silent_remove_ref: "tcp_socket_remove_ref a w = Some w' \<Longrightarrow> silent w w'"
  by (auto simp: silent_def tcp_socket_remove_ref_def tcp_socket_free_def logged_def sent_to_append Let_def bind_eq_Some_conv split: if_splits)

lemma silent_free_entry: "free_entry a w = Some w' \<Longrightarrow> silent w w'"
  by (auto simp: free_entry_def queue_entry_free_def release_entry_def dest!: silent_remove_ref) (simp add: silent_def)

lemma silent_enqueue: "enqueue sync ev a w = Some w' \<Longrightarrow> silent w w'"
  by (auto simp: silent_def enqueue_def logged_def sent_to_append Let_def)

lemma silent_entered: "silent w (entered_world req ename hdf s w)"
  by (simp add: silent_def entered_world_def)

lemma silent_request:
  assumes "w_mem w = []" "w_socks w a = Some s" "rq_sock (sk_req s) = a" "sendable hdf" "length ename \<le> 475" "reqid < 2 ^ 28"
    and "find_entry_in_table w ename = Some (Some ev)" "w_events w ev = Some e" "q_size (ee_queue e) \<le> MAX_QUEUE_ENTRY"
    and run: "parse_message a (request_bytes reqid cmd flags ename hdf) w = Some (True, w')"
  shows "silent w w'"
proof -
  define req where "req = (sk_req s)\<lparr>rq_id := be32 reqid, rq_cmd := cmd, rq_flags := flags\<rparr>"
  let ?w = "w\<lparr>w_socks := (w_socks w)(a \<mapsto> s\<lparr>sk_req := req\<rparr>)\<rparr>"
  have rs: "rq_sock req = a" using assms(3) by (simp add: req_def)
  have make: "make_queue_long_entry req ename hdf ?w = Some (Some (w_next w), entered_world req ename hdf (s\<lparr>sk_req := req\<rparr>) ?w)"
    using make_entry_plenty [of ?w req "s\<lparr>sk_req := req\<rparr>" ename hdf] assms(1) rs by simp
  have find: "find_entry_in_table ?w ename = Some (Some ev)" using assms(7) by (auto simp: find_entry_in_table_def evt_bucket_def split: if_splits)
  have "\<exists>sync. enqueue sync ev (w_next w) (entered_world req ename hdf (s\<lparr>sk_req := req\<rparr>) ?w) = Some w'"
    using run make find assms(8,9) unfolding parse_request [OF assms(4-6,2) req_def] put_in_queue_def put_in_queue_long_def by auto
  then have "silent (entered_world req ename hdf (s\<lparr>sk_req := req\<rparr>) ?w) w'" by (auto dest: silent_enqueue)
  then show ?thesis using silent_trans [OF silent_trans [OF silent_fields(1) silent_entered]] by blast
qed

section \<open>The server's part\<close>

lemma received_request:
  assumes inv: "world_inv X w" "queues_hold Q X w" and s: "w_socks w a = Some s"
    and t: "sendable hdf" "length ename \<le> 475" "reqid < 2 ^ 28" "frameable (request_bytes reqid cmd flags ename hdf)"
    and ev: "find_entry_in_table w ename = Some (Some ev)" "w_events w ev = Some e" "q_size (ee_queue e) \<le> MAX_QUEUE_ENTRY"
    and a: "a \<in> open_socks w"
  shows "\<exists>w' n. tcp_recv a (Received (frame (request_bytes reqid cmd flags ename hdf))) framing_init w = Some (True, framing_init, w')
     \<and> world_inv X w' \<and> queues_hold (Q(ev := if flags AND 2 \<noteq> 0 then w_next w # Q ev else Q ev @ [w_next w])) X w' \<and> silent w w'
     \<and> w_entries w' (w_next w) = Some n \<and>
     qe_data n = \<lparr>qd_operation = ucast cmd, qd_ename = ename, qd_hdfrcv = hdf, qd_hdfsnd = hdf_init,
       qd_req = (sk_req s)\<lparr>rq_fd := sk_fd s, rq_sock := a, rq_id := be32 reqid, rq_cmd := cmd, rq_flags := flags\<rparr>\<rparr>"
proof -
  let ?m = "request_bytes reqid cmd flags ename hdf"
  let ?s = "s\<lparr>sk_req := (sk_req s)\<lparr>rq_fd := sk_fd s, rq_sock := a\<rparr>\<rparr>"
  define w0 where "w0 = count_tcp (w\<lparr>w_socks := (w_socks w)(a \<mapsto> ?s)\<rparr>)"
  have init: "init_req a w = Some (w\<lparr>w_socks := (w_socks w)(a \<mapsto> ?s)\<rparr>)" using s by (simp add: init_req_def)
  from init_req_inv [OF inv(1) a] obtain w1 where w1: "init_req a w = Some w1" "world_inv X w1" "conns_kept w w1" "a \<in> bound_socks w1" by blast
  have inv0: "world_inv X w0" "a \<in> bound_socks w0"
    using same_shape_inv [OF count_same_shape w1(2)] w1 init by (auto simp: w0_def count_tcp_def conns_kept_def)
  have q0: "queues_hold Q X w0" using inv(2) by (simp add: w0_def count_tcp_def queues_hold_def)
  have f0: "w_socks w0 a = Some ?s" "rq_sock (sk_req ?s) = a" "find_entry_in_table w0 ename = Some (Some ev)" "w_events w0 ev = Some e" "w_next w0 = w_next w"
    using ev by (auto simp: w0_def count_tcp_def find_entry_in_table_def evt_bucket_def split: if_splits)
  from request_queued [OF inv0(1) q0 f0(1,2) t(1-3) f0(3,4) ev(3), of cmd flags] obtain w' n where w':
      "parse_message a ?m w0 = Some (True, w')" "queues_hold (Q(ev := if flags AND 2 \<noteq> 0 then w_next w # Q ev else Q ev @ [w_next w])) X w'"
      "w_entries w' (w_next w) = Some n"
      "qe_data n = \<lparr>qd_operation = ucast cmd, qd_ename = ename, qd_hdfrcv = hdf, qd_hdfsnd = hdf_init,
         qd_req = (sk_req s)\<lparr>rq_fd := sk_fd s, rq_sock := a, rq_id := be32 reqid, rq_cmd := cmd, rq_flags := flags\<rparr>\<rparr>"
    unfolding f0(5) by auto
  have mem: "w_mem w0 = []" using inv0(1) by (simp add: world_inv_def)
  have "silent w w0" by (simp add: silent_def w0_def count_tcp_def count_stat_def)
  moreover have "silent w0 w'" using silent_request [OF mem f0(1,2) t(1-3) f0(3,4) ev(3) w'(1)] .
  ultimately have sil: "silent w w'" by (rule silent_trans)
  note cut = frame_whole [OF t(4), of "[]", simplified]
  have "length (frame ?m) = 4 + length ?m" by (simp add: frame_def)
  then have "process_buf a (frame ?m) framing_init (w\<lparr>w_socks := (w_socks w)(a \<mapsto> ?s)\<rparr>) = Some (True, framing_init, w')"
    using w'(1) cut by (simp add: whole_process_buf w0_def)
  then have "tcp_recv a (Received (frame ?m)) framing_init w = Some (True, framing_init, w')" by (simp add: tcp_recv_def init)
  moreover have "world_inv X w'" using parse_message_inv [OF inv0 w'(1)] by blast
  ultimately show ?thesis using w'(2-4) sil by blast
qed

lemma answered_request:
  assumes inv: "world_inv X w" "queues_hold Q X w" and ev: "w_events w ev = Some e" "Q ev = x # xs"
    and n: "w_entries w x = Some n" and f: "f (qd_operation (qe_data n)) (qd_hdfrcv (qe_data n)) = (code, t)"
    and t: "sendable t" "\<forall>a \<in> set (w_sends w). 0 < a"
  shows "\<exists>w1 w2 w'. worker_round (answering f) ev ((), w) = Some (True, (), w') \<and> world_inv X w' \<and> w_entries w' x = None
     \<and> reply_trigger ((qe_data n)\<lparr>qd_hdfsnd := t\<rparr>) code w1 = Some (True, w2) \<and> w_mem w1 = [] \<and> w_sends w1 = w_sends w
     \<and> (\<forall>fd. sent_to fd (w_log w1) = sent_to fd (w_log w)) \<and> (\<forall>fd. sent_to fd (w_log w') = sent_to fd (w_log w2))"
proof -
  have fr: "front (Q ev) = Some x" by (simp add: front_def ev(2))
  obtain q where q: "take_entry ev w = Some (Some x, w\<lparr>w_events := (w_events w)(ev \<mapsto> e\<lparr>ee_queue := q\<rparr>)\<rparr>)"
    and q': "queues_hold (Q(ev := tl (Q ev))) (X \<union> {x}) (w\<lparr>w_events := (w_events w)(ev \<mapsto> e\<lparr>ee_queue := q\<rparr>)\<rparr>)" and x: "x \<notin> X"
    using take_entry_queues [OF inv(2) ev(1)] unfolding fr by auto
  let ?w1 = "w\<lparr>w_events := (w_events w)(ev \<mapsto> e\<lparr>ee_queue := q\<rparr>)\<rparr>"
  have inv1: "world_inv (X \<union> {x}) ?w1" using queue_update_inv [OF inv(1) ev(1) q'] by blast
  have mem: "w_mem ?w1 = []" using inv(1) by (simp add: world_inv_def)
  obtain w2 where w2: "reply_trigger ((qe_data n)\<lparr>qd_hdfsnd := t\<rparr>) code ?w1 = Some (True, w2)"
    using server_answers [of "(qe_data n)\<lparr>qd_hdfsnd := t\<rparr>" ?w1 code] t mem by auto
  note inv2 = same_shape_inv(1) [OF quiet_same_shape [OF quiet_reply_trigger [OF w2 mem]] inv1]
  from free_entry_world_inv [OF inv2, of x] x obtain w' where w': "free_entry x w2 = Some w'" "world_inv X w'" by auto
  have gone: "w_entries w' x = None" using w'(1) by (auto simp: free_entry_def queue_entry_free_def)
  have "answering f x () ?w1 = Some ((), w2)" using n f w2 by (simp add: answering_def Let_def)
  then have "worker_round (answering f) ev ((), w) = Some (True, (), w')" using q w'(1) by (simp add: worker_round_def)
  moreover have "\<forall>fd. sent_to fd (w_log w') = sent_to fd (w_log w2)" using silent_free_entry [OF w'(1)] by (simp add: silent_def)
  ultimately show ?thesis using w'(2) gone w2 mem by (intro exI [of _ ?w1] exI [of _ w2] exI [of _ w']) simp
qed

section \<open>The whole call\<close>

definition with_input :: "rx list \<Rightarrow> moc_arg \<Rightarrow> moc_arg" where
  "with_input rs arg = arg\<lparr>ma_net := (ma_net arg)\<lparr>nt_in := rs\<rparr>\<rparr>"

lemma with_input_simps [simp]:
  "ma_evth (with_input rs arg) = ma_evth arg" "ma_evts (with_input rs arg) = ma_evts arg" "ma_reqid (with_input rs arg) = ma_reqid arg"
  "nt_out (ma_net (with_input rs arg)) = nt_out (ma_net arg)" "nt_in (ma_net (with_input rs arg)) = rs" "can_send evt (with_input rs arg) = can_send evt arg"
  by (simp_all add: with_input_def can_send_def)

text \<open>
  C4. A whole call. The application sets a parameter and triggers a synchronous request. The message that
  goes out is received by the server and queued before all others; the next round of the plugin's
  worker hands the plugin the command and a tree in which the parameter has the value that was set,
  sends the plugin's answer, and frees the request, so that the server is as consistent as before; and
  when those bytes arrive, cut into pieces in any way, the call returns the plugin's code and the
  application finds the plugin's tree.
\<close>

theorem call_end_to_end:
  assumes "ne_hash_lookup module (ma_evth arg) = Some (Some k)" "ma_evts arg k = Some evt"
    and "no_links (mv_hdfsnd evt)" "key \<noteq> []" "[] \<notin> set (components key)"
    and "\<forall>q t. hdf_set_value (mv_hdfsnd evt) [] key (Some val) = Some (q, t) \<longrightarrow> can_send (evt\<lparr>mv_hdfsnd := t\<rparr>) arg"
    and "flags AND 2 \<noteq> 0" "next_reqid (ma_reqid arg) < 2 ^ 28"
    and "world_inv X w" "w_socks w a = Some s" "sk_evt s" "\<forall>n \<in> set (w_sends w). 0 < n"
    and "find_entry_in_table w (mv_ename evt) = Some (Some ev)" "w_events w ev = Some e" "q_size (ee_queue e) \<le> MAX_QUEUE_ENTRY"
    and plugin: "\<And>c t. 0 \<le> fst (f c t) \<and> fst (f c t) < 2 ^ 31 \<and> sendable (snd (f c t))"
  shows "\<exists>arg1 m w1 w2 t reply. moc_set_param module key val arg = Some (Inr (), arg1)
     \<and> tcp_recv a (Received (frame m)) framing_init w = Some (True, framing_init, w1)
     \<and> worker_round (answering f) ev ((), w1) = Some (True, (), w2) \<and> world_inv X w2
     \<and> hdf_get_value t [] (Some key) None = Some (Some val)
     \<and> sent_to (sk_fd s) (w_log w2) = sent_to (sk_fd s) (w_log w) @ reply
     \<and> (\<forall>rs. only_data rs \<and> data_of rs = reply \<longrightarrow>
          (\<exists>arg2 outs. moc_trigger_r module None cmd flags (with_input rs arg1) = Some (fst (f (ucast cmd) t), arg2)
             \<and> nt_out (ma_net arg2) = nt_out (ma_net arg) @ outs \<and> concat (map snd outs) = frame m
             \<and> moc_errcode module arg2 = Some (fst (f (ucast cmd) t)) \<and> moc_hdfrcv module arg2 = Some (Some (snd (f (ucast cmd) t)))))"
proof -
  obtain q t where t: "hdf_set_value (mv_hdfsnd evt) [] key (Some val) = Some (Inr q, t)" "hdf_get_value t [] (Some key) None = Some (Some val)"
    using set_then_get [OF assms(3-5)] by blast
  let ?evt = "evt\<lparr>mv_hdfsnd := t\<rparr>" and ?id = "next_reqid (ma_reqid arg)"
  let ?arg1 = "set_evt k ?evt arg" and ?m = "request_bytes ?id cmd flags (mv_ename evt) t"
  have set: "moc_set_param module key val arg = Some (Inr (), ?arg1)" using find_evtI [OF assms(1,2)] t(1) by (simp add: moc_set_param_def)
  have c: "can_send ?evt arg" using assms(6) t(1) by blast
  have sd: "sendable t" "length (mv_ename evt) \<le> 475" "frameable ?m"
    using c frameable_request [OF c, of ?id cmd flags] by (simp_all add: can_send_def)
  obtain Q where Q: "queues_hold Q X w" using assms(9) by (auto simp: world_inv_def)
  have op: "a \<in> open_socks w" using assms(10,11) by (simp add: open_socks_def)
  from received_request [OF assms(9) Q assms(10) sd(1,2) assms(8) sd(3) assms(13-15) op] assms(7) obtain w1 n where
      w1: "tcp_recv a (Received (frame ?m)) framing_init w = Some (True, framing_init, w1)" "world_inv X w1"
        "queues_hold (Q(ev := w_next w # Q ev)) X w1" "silent w w1" "w_entries w1 (w_next w) = Some n"
        "qe_data n = \<lparr>qd_operation = ucast cmd, qd_ename = mv_ename evt, qd_hdfrcv = t, qd_hdfsnd = hdf_init,
          qd_req = (sk_req s)\<lparr>rq_fd := sk_fd s, rq_sock := a, rq_id := be32 ?id, rq_cmd := cmd, rq_flags := flags\<rparr>\<rparr>"
    by auto
  obtain e1 where e1: "w_events w1 ev = Some e1" using w1(3) by (cases "w_events w1 ev") (auto simp: queues_hold_def dest: spec [of _ ev])
  define code where "code = fst (f (ucast cmd) t)"
  define u where "u = snd (f (ucast cmd) t)"
  let ?q = "(qe_data n)\<lparr>qd_hdfsnd := u\<rparr>"
  have u: "0 \<le> code" "code < 2 ^ 31" "sendable u" using plugin [of "ucast cmd" t] by (simp_all add: code_def u_def)
  have ans: "f (qd_operation (qe_data n)) (qd_hdfrcv (qe_data n)) = (code, u)" by (simp add: w1(6) code_def u_def)
  have sends: "\<forall>x \<in> set (w_sends w1). 0 < x" using w1(4) assms(12) by (simp add: silent_def)
  have first: "(Q(ev := w_next w # Q ev)) ev = w_next w # Q ev" by simp
  from answered_request [where Q = "Q(ev := w_next w # Q ev)" and f = f, OF w1(2,3) e1 first w1(5) ans u(3) sends] obtain wa wb w2 where w2: "worker_round (answering f) ev ((), w1) = Some (True, (), w2)"
      "world_inv X w2" "reply_trigger ?q code wa = Some (True, wb)" "w_mem wa = []" "w_sends wa = w_sends w1"
      "\<forall>fd. sent_to fd (w_log wa) = sent_to fd (w_log w1)" "\<forall>fd. sent_to fd (w_log w2) = sent_to fd (w_log wb)" by auto
  let ?reply = "reply_bytes (qd_req ?q) code (answer u)"
  have wb: "sent_to (sk_fd s) (w_log wb) = sent_to (sk_fd s) (w_log wa) @ ?reply"
    using server_answers [of ?q wa code] u(3) w2(3-5) sends by (auto simp: w1(6))
  then have sent: "sent_to (sk_fd s) (w_log w2) = sent_to (sk_fd s) (w_log w) @ ?reply" using w1(4) w2(6,7) by (simp add: silent_def)
  have "\<exists>arg2 outs. moc_trigger_r module None cmd flags (with_input rs ?arg1) = Some (code, arg2)
      \<and> nt_out (ma_net arg2) = nt_out (ma_net arg) @ outs \<and> concat (map snd outs) = frame ?m
      \<and> moc_errcode module arg2 = Some code \<and> moc_hdfrcv module arg2 = Some (Some u)"
    if rs: "only_data rs" "data_of rs = ?reply" for rs
  proof -
    let ?arg = "with_input rs ?arg1"
    have l: "ne_hash_lookup module (ma_evth ?arg) = Some (Some k)" "ma_evts ?arg k = Some ?evt" using assms(1) by (simp_all add: set_evt_def)
    have ca: "can_send ?evt ?arg" using c by (simp add: can_send_def set_evt_def with_input_def)
    have id: "rq_id (qd_req ?q) = be32 (next_reqid (ma_reqid ?arg))" by (simp add: w1(6) set_evt_def)
    have "sent_to (rq_fd (qd_req ?q)) (w_log wb) = sent_to (rq_fd (qd_req ?q)) (w_log wa) @ data_of (nt_in (ma_net ?arg))"
      using wb rs(2) by (simp add: w1(6))
    moreover have "sendable (qd_hdfsnd ?q)" "\<forall>x \<in> set (w_sends wa). 0 < x" "only_data (nt_in (ma_net ?arg))" using u(3) w2(5) sends rs(1) by simp_all
    ultimately obtain evt' arg' outs where
        r: "mevt_trigger None cmd flags ?evt ?arg = Some (code, evt', arg')" "nt_out (ma_net arg') = nt_out (ma_net ?arg) @ outs" "ma_evth arg' = ma_evth ?arg"
          "concat (map snd outs) = frame (request_bytes (next_reqid (ma_reqid ?arg)) cmd flags (mv_ename ?evt) (mv_hdfsnd ?evt))"
          "mv_errcode evt' = code" "mv_hdfrcv evt' = qd_hdfsnd ?q"
      using trigger_answered [OF ca assms(7) id u(1,2) _ w2(4) _ w2(3), of cmd] by blast
    have "ma_reqid ?arg = ma_reqid arg" "nt_out (ma_net ?arg) = nt_out (ma_net arg)" by (simp_all add: set_evt_def)
    with call_returns [OF l r(1,3)] r show ?thesis by (intro exI [of _ "set_evt k evt' arg'"] exI [of _ outs]) simp
  qed
  then show ?thesis using set w1(1) w2(1,2) t(2) sent unfolding code_def u_def by blast
qed

theorem call_end_to_end_witness:
  "\<exists>h arg1 m w1 w2 rs arg2. ne_hash_insert True True ''base'' 0 demo_hash = Some (Inr (), h) \<and>
     moc_set_param ''base'' ''cmd'' ''go'' (demo_app [] h) = Some (Inr (), arg1) \<and>
     tcp_recv 2 (Received (frame m)) framing_init demo_known = Some (True, framing_init, w1) \<and>
     worker_round (answering (\<lambda>c t. (1000, demo_packet))) 0 ((), w1) = Some (True, (), w2) \<and> data_of rs = sent_to 7 (w_log w2) \<and>
     moc_trigger_r ''base'' None 1001 2 (with_input rs arg1) = Some (1000, arg2) \<and> moc_hdfrcv ''base'' arg2 = Some (Some demo_packet)"
proof -
  obtain h where h: "ne_hash_insert True True ''base'' 0 demo_hash = Some (Inr (), h)" "ne_hash_lookup ''base'' h = Some (Some 0)"
    using demo_evth by blast
  obtain s e where s: "w_socks demo_known 2 = Some s" "sk_evt s" "sk_fd s = 7" and e: "w_events demo_known 0 = Some e" "q_size (ee_queue e) \<le> MAX_QUEUE_ENTRY"
    by (simp add: demo_known_def last_request_def Let_def)
  have f: "find_entry_in_table demo_known (mv_ename demo_evt) = Some (Some 0)" using demo_known_ok(3) by (simp add: demo_evt_def)
  have l: "ne_hash_lookup ''base'' (ma_evth (demo_app [] h)) = Some (Some 0)" using h(2) by (simp add: demo_app_simps)
  have set: "\<forall>q t. hdf_set_value (mv_hdfsnd demo_evt) [] ''cmd'' (Some ''go'') = Some (q, t) \<longrightarrow> can_send (demo_evt\<lparr>mv_hdfsnd := t\<rparr>) (demo_app [] h)"
    using demo_param(3) by blast
  have n: "next_reqid (ma_reqid (demo_app [] h)) < 2 ^ 28" by (simp add: demo_app_simps next_reqid_def)
  have p: "0 \<le> fst (1000 :: int, demo_packet) \<and> fst (1000 :: int, demo_packet) < 2 ^ 31 \<and> sendable (snd (1000 :: int, demo_packet))"
    using demo_packet_sendable by simp
  have sy: "(2 :: u16) AND 2 \<noteq> 0" "''cmd'' \<noteq> []" by simp_all
  from call_end_to_end [where f = "\<lambda>c t. (1000, demo_packet)" and cmd = 1001, OF l demo_app_simps(2) demo_param(1) sy(2) demo_param(2) set sy(1) n demo_known_ok(1) s(1,2) demo_done_simps(7) f e p]
  obtain arg1 m w1 w2 reply where r: "moc_set_param ''base'' ''cmd'' ''go'' (demo_app [] h) = Some (Inr (), arg1)"
      "tcp_recv 2 (Received (frame m)) framing_init demo_known = Some (True, framing_init, w1)"
      "worker_round (answering (\<lambda>c t. (1000, demo_packet))) 0 ((), w1) = Some (True, (), w2)"
      "sent_to (sk_fd s) (w_log w2) = sent_to (sk_fd s) (w_log demo_known) @ reply"
      "\<forall>rs. only_data rs \<and> data_of rs = reply \<longrightarrow> (\<exists>arg2 outs. moc_trigger_r ''base'' None 1001 2 (with_input rs arg1) = Some (fst (1000, demo_packet), arg2)
             \<and> nt_out (ma_net arg2) = nt_out (ma_net (demo_app [] h)) @ outs \<and> concat (map snd outs) = frame m
             \<and> moc_errcode ''base'' arg2 = Some (fst (1000, demo_packet)) \<and> moc_hdfrcv ''base'' arg2 = Some (Some (snd (1000 :: int, demo_packet))))"
    by blast
  let ?rs = "if reply = [] then [] else [Got reply]"
  have "only_data ?rs" "data_of ?rs = reply" by (simp_all add: only_data_def)
  with r(5) obtain arg2 where "moc_trigger_r ''base'' None 1001 2 (with_input ?rs arg1) = Some (fst (1000, demo_packet), arg2)"
    "moc_hdfrcv ''base'' arg2 = Some (Some (snd (1000 :: int, demo_packet)))" by blast
  moreover have "data_of ?rs = sent_to 7 (w_log w2)" using \<open>data_of ?rs = reply\<close> r(4) s(3) demo_done_simps(6) by simp
  ultimately show ?thesis using h(1) r(1-3) unfolding fst_conv snd_conv by blast
qed

end
