(* ===== verification/Plugin_Bang.thy ===== *)
theory Plugin_Bang
  imports Plugin_Chat
begin

text \<open>
  The game plugin \<open>bang\<close> (plugin/moc_bang.c, plugin/private/bang_internal.c): users who have joined are
  idle until one asks for a battle, which seats users at tables of four.

  A \<open>BangUser\<close> begins with the \<open>BaseUser\<close> of the users of every plugin, so a job of bang is a job
  with the state of the game beside it: the state and the table of each user, the idle users, and the
  tables of the room.
\<close>

section \<open>Data\<close>

datatype bang_battle_state =
  BANG_STATE_IDLE | BANG_STATE_TO_BATTLE | BANG_STATE_RECEIVE_BATTLE | BANG_STATE_ACCEPT_BATTLE |
  BANG_STATE_SINGLE_BATTLE | BANG_STATE_BATTLING | BANG_STATE_UNKNOWN

record bang_table =
  bt_tableid :: int
  bt_number :: int
  bt_hash :: "(string, addr) ne_hash"

record bang =
  bg_state :: "addr \<Rightarrow> bang_battle_state"
  bg_table :: "addr \<Rightarrow> nat option"
  bg_idle_num :: int
  bg_idle :: "(string, addr) ne_hash"
  bg_tables :: "bang_table list"

type_synonym bang_job = "bang \<times> job"

abbreviation (input) BANG_ROOM_TABLE_MAXIMUM :: nat where "BANG_ROOM_TABLE_MAXIMUM \<equiv> 25"
abbreviation (input) BANG_TABLE_USER_MAXIMUM :: int where "BANG_TABLE_USER_MAXIMUM \<equiv> 4"
abbreviation (input) REP_ERR_BANG_ERROR :: int where "REP_ERR_BANG_ERROR \<equiv> 132"
abbreviation (input) REQ_CMD_BANG_TO_BATTLE :: u32 where "REQ_CMD_BANG_TO_BATTLE \<equiv> 1011"
abbreviation (input) REQ_CMD_BANG_ACCEPT_BATTLE :: u32 where "REQ_CMD_BANG_ACCEPT_BATTLE \<equiv> 1012"
abbreviation (input) REQ_CMD_BANG_TURN :: u32 where "REQ_CMD_BANG_TURN \<equiv> 1021"
abbreviation (input) REQ_CMD_BANG_ACCELERATE :: u32 where "REQ_CMD_BANG_ACCELERATE \<equiv> 1022"

section \<open>The room\<close>

text \<open>The hash table of a table, and of the idle users, when its allocation succeeds.\<close>

definition bang_table_init :: "nat \<Rightarrow> (string, addr) ne_hash \<Rightarrow> bang_table" where
  "bang_table_init i h = \<lparr>bt_tableid = int i + 1, bt_number = 0, bt_hash = h\<rparr>"

definition bang_room_init :: "bool \<Rightarrow> (string, addr) ne_hash \<Rightarrow> bang_table list option" where
  "bang_room_init ok h = (if \<not> ok then None else Some (map (\<lambda>i. bang_table_init i h) [0..<BANG_ROOM_TABLE_MAXIMUM]))"

definition bang_info_init :: "bool \<Rightarrow> bool \<Rightarrow> bool \<Rightarrow> bang option" where
  "bang_info_init info_ok hash_ok room_ok =
     (if \<not> info_ok then None
      else case ne_hash_init hash_ok hash_ok ne_hash_str_hash (Some ne_hash_str_comp) of
        Inl e \<Rightarrow> None
      | Inr h \<Rightarrow> do {
          tables \<leftarrow> bang_room_init room_ok h;
          Some \<lparr>bg_state = (\<lambda>_. BANG_STATE_IDLE), bg_table = (\<lambda>_. None), bg_idle_num = 0, bg_idle = h, bg_tables = tables\<rparr> })"

text \<open>A table with one to three users, or else an empty one.\<close>

definition bang_autoselect_table_in_room :: "bang_table list \<Rightarrow> nat option" where
  "bang_autoselect_table_in_room tables =
     (case filter (\<lambda>i. 1 \<le> bt_number (tables ! i) \<and> bt_number (tables ! i) \<le> BANG_TABLE_USER_MAXIMUM - 1) [0..<length tables] of
        i # is \<Rightarrow> Some i
      | [] \<Rightarrow> (case filter (\<lambda>i. bt_number (tables ! i) = 0) [0..<length tables] of i # is \<Rightarrow> Some i | [] \<Rightarrow> None))"

definition seat :: "nat \<Rightarrow> string \<Rightarrow> addr \<Rightarrow> bang \<Rightarrow> bang option" where
  "seat i uid u b = do {
     if i < length (bg_tables b) then do {
       let t = bg_tables b ! i;
       (e, h) \<leftarrow> ne_hash_insert True True uid u (bt_hash t);
       Some (b\<lparr>bg_table := (bg_table b)(u \<mapsto> i), bg_tables := (bg_tables b)[i := t\<lparr>bt_hash := h, bt_number := bt_number t + 1\<rparr>]\<rparr>) }
     else None }"

definition set_state :: "addr \<Rightarrow> bang_battle_state \<Rightarrow> bang \<Rightarrow> bang" where
  "set_state u s b = b\<lparr>bg_state := (bg_state b)(u := s)\<rparr>"

text \<open>Taking a name off the idle users.\<close>

definition leave_idle :: "string \<Rightarrow> bang \<Rightarrow> bang option" where
  "leave_idle uid b = do {
     (r, h) \<leftarrow> ne_hash_remove uid (bg_idle b);
     Some (b\<lparr>bg_idle := h, bg_idle_num := (if bg_idle_num b > 0 then bg_idle_num b - 1 else bg_idle_num b)\<rparr>) }"

section \<open>Users\<close>

text \<open>
  \<open>bang_user_destroy\<close>. The user is taken off its table, also when it has none: that is a NULL
  dereference. The name is removed from the users and the number of users decremented here, and both
  again by \<open>base_user_destroy\<close>.
\<close>

definition bang_user_destroy :: "addr \<Rightarrow> bang \<Rightarrow> plugin \<Rightarrow> (bang \<times> plugin) option" where
  "bang_user_destroy u b p = do {
     user \<leftarrow> p_users p u;
     let uid = bu_uid user;
     r \<leftarrow> ne_hash_lookup uid (bg_idle b);
     b1 \<leftarrow> (if r \<noteq> None then leave_idle uid b else Some b);
     (r, h) \<leftarrow> ne_hash_remove uid (bi_userh (p_info p));
     let n = bi_usernum (p_info p);
     let p1 = p\<lparr>p_info := \<lparr>bi_usernum = (if n > 0 then n - 1 else n), bi_userh = h\<rparr>\<rparr>;
     i \<leftarrow> bg_table b1 u;
     if i < length (bg_tables b1) then do {
       let t = bg_tables b1 ! i;
       (r, th) \<leftarrow> ne_hash_remove uid (bt_hash t);
       p2 \<leftarrow> base_user_destroy u p1;
       Some (b1\<lparr>bg_tables := (bg_tables b1)[i := t\<lparr>bt_hash := th, bt_number := bt_number t - 1\<rparr>]\<rparr>, p2) }
     else None }"

definition bang_remove_ref :: "addr \<Rightarrow> bang_job \<Rightarrow> bang_job option" where
  "bang_remove_ref a bj = (case bj of (b, j) \<Rightarrow> do {
     s \<leftarrow> w_socks (jb_world j) a;
     w \<leftarrow> tcp_socket_remove_ref a (jb_world j);
     if w_socks w a = None \<and> sk_on_close s then do {
       u \<leftarrow> p_appdata (jb_plugin j) a;
       (b1, p) \<leftarrow> bang_user_destroy u b (jb_plugin j);
       Some (b1, j\<lparr>jb_world := w, jb_plugin := p\<lparr>p_appdata := (p_appdata p)(a := None)\<rparr>\<rparr>) }
     else Some (b, j\<lparr>jb_world := w\<rparr>) })"

text \<open>\<open>base_user_quit\<close> with the request and with \<open>bang_user_destroy\<close>.\<close>

definition bang_user_quit :: "string \<Rightarrow> bang_job \<Rightarrow> (bool \<times> bang_job) option" where
  "bang_user_quit uid bj = (case bj of (b, j) \<Rightarrow> do {
     r \<leftarrow> base_user_find (jb_plugin j) uid;
     (case r of
        None \<Rightarrow> Some (False, bj)
      | Some u \<Rightarrow> do {
          user \<leftarrow> p_users (jb_plugin j) u;
          if rq_sock (qd_req (jb_q j)) = bu_sock user \<and> rq_fd (qd_req (jb_q j)) = bu_fd user then Some (False, bj)
          else do { bj1 \<leftarrow> bang_remove_ref (bu_sock user) bj; Some (True, bj1) } }) })"

definition bang_state_transit_idle :: "addr \<Rightarrow> bang_job \<Rightarrow> bang_job option" where
  "bang_state_transit_idle u bj = (case bj of (b, j) \<Rightarrow> do {
     user \<leftarrow> p_users (jb_plugin j) u;
     r \<leftarrow> ne_hash_lookup (bu_uid user) (bg_idle b);
     if r \<noteq> None then Some (set_state u BANG_STATE_IDLE b, j)
     else do {
       (e, h) \<leftarrow> ne_hash_insert True True (bu_uid user) u (bg_idle b);
       Some (set_state u BANG_STATE_IDLE (b\<lparr>bg_idle := h, bg_idle_num := bg_idle_num b + 1\<rparr>), j) } })"

text \<open>
  \<open>bang_user_new\<close>. When a user of that name exists, \<open>base_user_new\<close> leaves the new structure as it is, and
  its name, which is NULL, is then looked up.
\<close>

definition bang_user_new :: "bang_job \<Rightarrow> (neoerr \<times> bang_job) option" where
  "bang_user_new bj = (case bj of (b, j) \<Rightarrow> do {
     uid \<leftarrow> get_param_str ''userid'' j;
     (case uid of
        None \<Rightarrow> Some (raise_at ''bang_user_new'' ''bang_internal.c'' 120 REP_ERR_BADPARAM ''need userid'', bj)
      | Some uid \<Rightarrow>
          (let (ok, w) = malloc_ok (jb_world j); j0 = j\<lparr>jb_world := w\<rparr> in
           if \<not> ok then
             Some (raise_at ''bang_user_new'' ''bang_internal.c'' 124 NERR_NOMEM ''error occurs when allocating for bang user'', (b, j0))
           else do {
             (r, b1, j1) \<leftarrow> bang_user_quit uid (b, j0);
             old \<leftarrow> base_user_find (jb_plugin j1) uid;
             (case old of
                Some _ \<Rightarrow> None
              | None \<Rightarrow> do {
                  let u = p_next (jb_plugin j1);
                  j2 \<leftarrow> base_user_new uid j1;
                  bj3 \<leftarrow> bang_state_transit_idle u (b1\<lparr>bg_state := (bg_state b1)(u := BANG_STATE_IDLE), bg_table := (bg_table b1)(u := None)\<rparr>, j2);
                  Some (STATUS_OK, bj3) }) })) })"

section \<open>Battles\<close>

definition tell_user :: "string \<Rightarrow> int \<Rightarrow> string \<Rightarrow> hdf \<Rightarrow> addr \<Rightarrow> job \<Rightarrow> (neoerr \<times> job) option" where
  "tell_user func line cmd msgnode u j = do {
     user \<leftarrow> p_users (jb_plugin j) u;
     (r, hdf, w) \<leftarrow> base_msg_new cmd msgnode [] (jb_world j);
     Some (case r of
        Inl err \<Rightarrow> (pass_at func ''bang_internal.c'' line err, j\<lparr>jb_world := w\<rparr>)
      | Inr buf \<Rightarrow>
          (let (err, w1) = base_msg_send buf (bu_fd user) w in
           (if err \<noteq> STATUS_OK then pass_at func ''bang_internal.c'' (line + 5) err else STATUS_OK, j\<lparr>jb_world := w1\<rparr>))) }"

definition bang_state_transit_battling :: "addr \<Rightarrow> bang_job \<Rightarrow> (neoerr \<times> bang_job) option" where
  "bang_state_transit_battling u bj = (case bj of (b, j) \<Rightarrow> do {
     user \<leftarrow> p_users (jb_plugin j) u;
     r \<leftarrow> ne_hash_lookup (bu_uid user) (bg_idle b);
     if r = None then Some (STATUS_OK, (set_state u BANG_STATE_UNKNOWN b, j))
     else do {
       b1 \<leftarrow> leave_idle (bu_uid user) b;
       let b2 = set_state u BANG_STATE_BATTLING b1;
       (r, m1) \<leftarrow> hdf_set_value hdf_init [] ''user_has_been_matched'' (Some ''1'');
       i \<leftarrow> bg_table b2 u;
       (r, m2) \<leftarrow> hdf_set_int_value m1 [] ''tableid'' (bt_tableid (bg_tables b2 ! i));
       (err, j1) \<leftarrow> tell_user ''bang_state_transit_battling'' 256 ''battlebegin'' m2 u j;
       Some (err, (b2, j1)) } })"

text \<open>The loop that invites idle users to the table \<open>i\<close> of the user \<open>u\<close>.\<close>

partial_function (option) invite_idle :: "addr \<Rightarrow> nat \<Rightarrow> int \<Rightarrow> bytes \<Rightarrow> string option \<Rightarrow> bang_job \<Rightarrow> bang_job option" where
  [code]: "invite_idle u i noticenum msgbuf key bj = (case bj of (b, j) \<Rightarrow> do {
     r \<leftarrow> ne_hash_next key (bg_idle b);
     (case snd r of
        None \<Rightarrow> Some bj
      | Some ou \<Rightarrow> do {
          ouser \<leftarrow> p_users (jb_plugin j) ou;
          if ou = u \<or> bg_state b ou \<noteq> BANG_STATE_IDLE then invite_idle u i noticenum msgbuf (fst r) bj
          else if bt_number (bg_tables b ! i) > noticenum then Some bj
          else do {
            b1 \<leftarrow> seat i (bu_uid ouser) ou b;
            invite_idle u i noticenum msgbuf (fst r)
              (set_state ou BANG_STATE_RECEIVE_BATTLE b1, j\<lparr>jb_world := snd (base_msg_send msgbuf (bu_fd ouser) (jb_world j))\<rparr>) } }) })"

definition not_idle :: string where
  "not_idle = map char_of [0x20, 0xe7, 0x8a, 0xb6, 0xe6, 0x80, 0x81, 0xe9, 0x9d, 0x9e, 0xe7, 0xa9, 0xba, 0xe9, 0x97, 0xb2, 0xef, 0xbc, 0x8c,
     0xe4, 0xb8, 0x8d, 0xe5, 0x8f, 0xaf, 0xe6, 0x8e, 0xa5, 0xe5, 0x8f, 0x97 :: nat]"

definition state_number :: "bang_battle_state \<Rightarrow> nat" where
  "state_number s = (case s of BANG_STATE_IDLE \<Rightarrow> 0 | BANG_STATE_TO_BATTLE \<Rightarrow> 1 | BANG_STATE_RECEIVE_BATTLE \<Rightarrow> 2 | BANG_STATE_ACCEPT_BATTLE \<Rightarrow> 3
     | BANG_STATE_SINGLE_BATTLE \<Rightarrow> 4 | BANG_STATE_BATTLING \<Rightarrow> 5 | BANG_STATE_UNKNOWN \<Rightarrow> 6)"

text \<open>The invitations, when the table \<open>i\<close> was empty.\<close>

definition invite_others :: "addr \<Rightarrow> nat \<Rightarrow> bang \<Rightarrow> job \<Rightarrow> (neoerr \<times> bang_job) option" where
  "invite_others u i b j =
     (let noticenum = (if bg_idle_num b < BANG_TABLE_USER_MAXIMUM then bg_idle_num b else BANG_TABLE_USER_MAXIMUM - 1) in
      if noticenum \<le> 1 then Some (STATUS_OK, (set_state u BANG_STATE_SINGLE_BATTLE b, j))
      else do {
        (r, m) \<leftarrow> hdf_set_int_value hdf_init [] ''tableid'' (bt_tableid (bg_tables b ! i));
        (r, hdf, w) \<leftarrow> base_msg_new ''battleinvite'' m [] (jb_world j);
        (case r of
           Inl err \<Rightarrow> Some (pass_at ''bang_broadcast_to_battle_message'' ''bang_internal.c'' 332 err, (b, j\<lparr>jb_world := w\<rparr>))
         | Inr msgbuf \<Rightarrow> do {
             (b2, j2) \<leftarrow> invite_idle u i noticenum msgbuf None (b, j\<lparr>jb_world := w\<rparr>);
             Some (STATUS_OK, (set_state u BANG_STATE_TO_BATTLE b2, j2)) }) })"

text \<open>
  \<open>bang_broadcast_to_battle_message\<close>. When every table is full there is none to sit down at, which is a
  NULL dereference.
\<close>

definition bang_broadcast_to_battle_message :: "addr \<Rightarrow> bang_job \<Rightarrow> (neoerr \<times> bang_job) option" where
  "bang_broadcast_to_battle_message u bj = (case bj of (b, j) \<Rightarrow> do {
     user \<leftarrow> p_users (jb_plugin j) u;
     if bg_state b u \<noteq> BANG_STATE_IDLE then
       Some (raise_at ''bang_broadcast_to_battle_message'' ''bang_internal.c'' 290 REP_ERR_BANG_ERROR (show_nat (state_number (bg_state b u)) @ not_idle), bj)
     else do {
       i \<leftarrow> bang_autoselect_table_in_room (bg_tables b);
       b1 \<leftarrow> seat i (bu_uid user) u b;
       let n = bt_number (bg_tables b1 ! i);
       if 1 < n \<and> n \<le> 4 then do {
         (err, bj2) \<leftarrow> bang_state_transit_battling u (b1, j);
         Some (if err \<noteq> STATUS_OK then pass_at ''bang_broadcast_to_battle_message'' ''bang_internal.c'' 306 err else STATUS_OK, bj2) }
       else invite_others u i b1 j } })"

section \<open>Commands\<close>

definition bang_cmd_join :: "bang_job \<Rightarrow> (neoerr \<times> bang_job) option" where
  "bang_cmd_join bj = do {
     (err, b1, j1) \<leftarrow> bang_user_new bj;
     if err \<noteq> STATUS_OK then Some (pass_at ''cmd_join'' ''moc_bang.c'' 18 err, (b1, j1))
     else do {
       j2 \<leftarrow> set_snd ''success'' ''1'' j1;
       if is_sync j2 then Some (STATUS_OK, (b1, j2))
       else do {
         (err, j3) \<leftarrow> touser_snd ''login'' j2;
         Some (if err \<noteq> STATUS_OK then pass_at ''cmd_join'' ''moc_bang.c'' 25 err else STATUS_OK, (b1, j3)) } } }"

definition bang_cmd_quit :: "bang_job \<Rightarrow> (neoerr \<times> bang_job) option" where
  "bang_cmd_quit bj = do {
     uid \<leftarrow> base_get_uid (snd bj);
     (case uid of
        None \<Rightarrow> Some (raise_at ''cmd_quit'' ''moc_bang.c'' 36 REP_ERR_BADPARAM log_in_first, bj)
      | Some uid \<Rightarrow> do { (r, bj1) \<leftarrow> bang_user_quit uid bj; Some (STATUS_OK, bj1) }) }"

text \<open>\<open>BASE_GET_USER\<close>: the user the connection's \<open>appdata\<close> points to.\<close>

definition base_get_user :: "job \<Rightarrow> addr option option" where
  "base_get_user j =
     (if w_socks (jb_world j) (rq_sock (qd_req (jb_q j))) = None then None
      else Some (p_appdata (jb_plugin j) (rq_sock (qd_req (jb_q j)))))"

definition bang_cmd_to_battle :: "bang_job \<Rightarrow> (neoerr \<times> bang_job) option" where
  "bang_cmd_to_battle bj = do {
     r \<leftarrow> base_get_user (snd bj);
     (case r of
        None \<Rightarrow> Some (raise_at ''cmd_to_battle'' ''moc_bang.c'' 50 REP_ERR_BADPARAM log_in_first, bj)
      | Some u \<Rightarrow> do {
          (err, bj1) \<leftarrow> bang_broadcast_to_battle_message u bj;
          Some (if err \<noteq> STATUS_OK then pass_at ''cmd_to_battle'' ''moc_bang.c'' 55 err else STATUS_OK, bj1) }) }"

text \<open>
  The two loops of \<open>cmd_accept_battle\<close> over the users at a table. The first one removes a name that was
  never set.
\<close>

partial_function (option) drop_others :: "addr \<Rightarrow> (string, addr) ne_hash \<Rightarrow> bang \<Rightarrow> plugin \<Rightarrow> string option \<Rightarrow> unit option" where
  [code]: "drop_others u h b p key = do {
     r \<leftarrow> ne_hash_next key h;
     (case snd r of
        None \<Rightarrow> Some ()
      | Some ou \<Rightarrow> do {
          ouser \<leftarrow> p_users p ou;
          if ou \<noteq> u \<and> bg_state b ou \<noteq> BANG_STATE_TO_BATTLE then None else drop_others u h b p (fst r) }) }"

partial_function (option) all_battling :: "(string, addr) ne_hash \<Rightarrow> string option \<Rightarrow> bang_job \<Rightarrow> (neoerr \<times> bang_job) option" where
  [code]: "all_battling h key bj = do {
     r \<leftarrow> ne_hash_next key h;
     (case snd r of
        None \<Rightarrow> Some (STATUS_OK, bj)
      | Some ou \<Rightarrow> do {
          (err, bj1) \<leftarrow> bang_state_transit_battling ou bj;
          if err \<noteq> STATUS_OK then Some (pass_at ''cmd_accept_battle'' ''moc_bang.c'' 87 err, bj1)
          else all_battling h (fst r) bj1 }) }"

definition table_hash :: "addr \<Rightarrow> bang \<Rightarrow> (string, addr) ne_hash option" where
  "table_hash u b = do { i \<leftarrow> bg_table b u; if i < length (bg_tables b) then Some (bt_hash (bg_tables b ! i)) else None }"

definition bang_cmd_accept_battle :: "bang_job \<Rightarrow> (neoerr \<times> bang_job) option" where
  "bang_cmd_accept_battle bj = (case bj of (b, j) \<Rightarrow> do {
     r \<leftarrow> base_get_user j;
     (case r of
        None \<Rightarrow> Some (raise_at ''cmd_accept_battle'' ''moc_bang.c'' 70 REP_ERR_BADPARAM log_in_first, bj)
      | Some u \<Rightarrow> do {
          user \<leftarrow> p_users (jb_plugin j) u;
          let b1 = set_state u BANG_STATE_ACCEPT_BATTLE b;
          h \<leftarrow> table_hash u b1;
          x \<leftarrow> drop_others u h b1 (jb_plugin j) None;
          all_battling h None (b1, j) }) })"

text \<open>The loop of \<open>cmd_turn\<close> over the users at the table.\<close>

partial_function (option) tell_battling :: "addr \<Rightarrow> (string, addr) ne_hash \<Rightarrow> bang \<Rightarrow> plugin \<Rightarrow> bytes \<Rightarrow> string option \<Rightarrow> world \<Rightarrow> world option" where
  [code]: "tell_battling u h b p buf key w = do {
     r \<leftarrow> ne_hash_next key h;
     (case snd r of
        None \<Rightarrow> Some w
      | Some ou \<Rightarrow> do {
          ouser \<leftarrow> p_users p ou;
          tell_battling u h b p buf (fst r)
            (if ou = u \<or> bg_state b ou \<noteq> BANG_STATE_BATTLING then w else snd (base_msg_send buf (bu_fd ouser) w)) }) }"

definition bang_cmd_turn :: "bang_job \<Rightarrow> (neoerr \<times> bang_job) option" where
  "bang_cmd_turn bj = (case bj of (b, j) \<Rightarrow> do {
     uid \<leftarrow> base_get_uid j;
     (case uid of
        None \<Rightarrow> Some (raise_at ''cmd_turn'' ''moc_bang.c'' 110 REP_ERR_BADPARAM log_in_first, bj)
      | Some uid \<Rightarrow> do {
          redir \<leftarrow> get_param_str ''redirection'' j;
          (case redir of
             None \<Rightarrow> Some (raise_at ''cmd_turn'' ''moc_bang.c'' 111 REP_ERR_BADPARAM ''need redirection'', bj)
           | Some redir \<Rightarrow> do {
               r \<leftarrow> base_user_find (jb_plugin j) uid;
               j1 \<leftarrow> set_rcv ''Output.userid'' uid j;
               j2 \<leftarrow> set_rcv ''Output.redirection'' redir j1;
               node \<leftarrow> hdf_get_obj (qd_hdfrcv (jb_q j2)) [] (Some ''Output'');
               path \<leftarrow> node;
               (m, hdf, w) \<leftarrow> base_msg_new ''turn'' (qd_hdfrcv (jb_q j2)) path (jb_world j2);
               let j3 = j2\<lparr>jb_q := (jb_q j2)\<lparr>qd_hdfrcv := hdf\<rparr>, jb_world := w\<rparr>;
               (case m of
                  Inl err \<Rightarrow> Some (pass_at ''cmd_turn'' ''moc_bang.c'' 122 err, (b, j3))
                | Inr buf \<Rightarrow> do {
                    u \<leftarrow> r;
                    h \<leftarrow> table_hash u b;
                    w1 \<leftarrow> tell_battling u h b (jb_plugin j3) buf None w;
                    Some (STATUS_OK, (b, j3\<lparr>jb_world := w1\<rparr>)) }) }) }) })"

definition bang_cmd_accelerate :: "bang_job \<Rightarrow> (neoerr \<times> bang_job) option" where
  "bang_cmd_accelerate bj = Some (STATUS_OK, bj)"

text \<open>A command that does not touch the game.\<close>

definition plain_cmd :: "(job \<Rightarrow> (neoerr \<times> job) option) \<Rightarrow> bang_job \<Rightarrow> (neoerr \<times> bang_job) option" where
  "plain_cmd f bj = do { (err, j) \<leftarrow> f (snd bj); Some (err, (fst bj, j)) }"

definition bang_command :: "bang_job \<Rightarrow> (neoerr \<times> bang_job) option" where
  "bang_command bj =
     (let op = qd_operation (jb_q (snd bj)) in
      if op = REQ_CMD_CACHE_GET then plain_cmd (sys_cmd_cache_get False) bj
      else if op = REQ_CMD_CACHE_SET then plain_cmd (sys_cmd_cache_set False) bj
      else if op = REQ_CMD_CACHE_DEL then plain_cmd (sys_cmd_cache_del False) bj
      else if op = REQ_CMD_CACHE_EMPTY then plain_cmd (sys_cmd_cache_empty False) bj
      else if op = REQ_CMD_BASE_JOIN then bang_cmd_join bj
      else if op = REQ_CMD_BASE_QUIT then bang_cmd_quit bj
      else if op = REQ_CMD_BANG_TO_BATTLE then bang_cmd_to_battle bj
      else if op = REQ_CMD_BANG_ACCEPT_BATTLE then bang_cmd_accept_battle bj
      else if op = REQ_CMD_BANG_TURN then bang_cmd_turn bj
      else if op = REQ_CMD_BANG_ACCELERATE then bang_cmd_accelerate bj
      else if op = REQ_CMD_STATS then plain_cmd cmd_stats bj
      else plain_cmd (cmd_unknown ''bang_process_driver'' ''moc_bang.c'' 203) bj)"

definition bang_process_driver :: "mcs \<Rightarrow> bang_job \<Rightarrow> bang_job option" where
  "bang_process_driver m bj = (case bj of (b, j) \<Rightarrow> do {
     (err, b1, j1) \<leftarrow> bang_command (b, bump (\<lambda>s. s\<lparr>st_total := st_total s + 1\<rparr>) j);
     j2 \<leftarrow> finish_request m False err j1;
     Some (b1, j2) })"

definition bang_stop_driver :: "plugin \<Rightarrow> plugin option" where
  "bang_stop_driver p = do {
     cd \<leftarrow> p_cache p;
     (r, h) \<leftarrow> cache_free cd;
     Some (p\<lparr>p_cache_freed := True\<rparr>) }"

definition bang_init_driver :: "bool \<Rightarrow> bool \<Rightarrow> bool \<Rightarrow> bool \<Rightarrow> int \<Rightarrow> hdf \<Rightarrow> (bytes \<times> bang \<times> plugin) option option" where
  "bang_init_driver entry_ok bang_ok info_ok cache_ok ctime cfg =
     (case bang_info_init bang_ok bang_ok bang_ok of
        None \<Rightarrow> Some None
      | Some b \<Rightarrow> map_option (map_option (\<lambda>(name, p). (name, b, p))) (plugin_init ''bang'' entry_ok info_ok cache_ok ctime cfg))"


section \<open>Tables never hold more than four users\<close>

definition bang_ok :: "bang \<Rightarrow> bool" where
  "bang_ok b \<longleftrightarrow> map bt_tableid (bg_tables b) = map (\<lambda>i. int i + 1) [0..<BANG_ROOM_TABLE_MAXIMUM]
     \<and> (\<forall>t \<in> set (bg_tables b). bt_number t \<le> BANG_TABLE_USER_MAXIMUM) \<and> 0 \<le> bg_idle_num b"

lemma bang_ok_length: "bang_ok b \<Longrightarrow> length (bg_tables b) = BANG_ROOM_TABLE_MAXIMUM"
  unfolding bang_ok_def by (drule conjunct1) (drule arg_cong [where f = length], simp)

lemma bang_ok_number: "bang_ok b \<Longrightarrow> i < length (bg_tables b) \<Longrightarrow> bt_number (bg_tables b ! i) \<le> BANG_TABLE_USER_MAXIMUM"
  by (simp add: bang_ok_def)

lemma bang_ok_frame [simp]:
  "bang_ok (b\<lparr>bg_state := f\<rparr>) = bang_ok b" "bang_ok (b\<lparr>bg_table := g\<rparr>) = bang_ok b" "bang_ok (set_state u s b) = bang_ok b"
  by (simp_all add: bang_ok_def set_state_def)

lemma map_update_same: "i < length xs \<Longrightarrow> f y = f (xs ! i) \<Longrightarrow> map f (xs[i := y]) = map f xs"
  by (simp add: map_update list_update_same_conv)

lemma bang_ok_table:
  assumes "bang_ok b" "i < length (bg_tables b)" "bt_number t \<le> BANG_TABLE_USER_MAXIMUM" "bt_tableid t = bt_tableid (bg_tables b ! i)"
  shows "bang_ok (b\<lparr>bg_tables := (bg_tables b)[i := t]\<rparr>)"
proof -
  have "map bt_tableid ((bg_tables b)[i := t]) = map bt_tableid (bg_tables b)" using assms(2,4) by (rule map_update_same)
  then show ?thesis using assms(1,3) set_update_subset_insert [of "bg_tables b" i t] by (auto simp: bang_ok_def)
qed

lemma bang_info_init_ok: "bang_info_init a h r = Some b \<Longrightarrow> bang_ok b"
  by (auto simp: bang_info_init_def bang_room_init_def bang_ok_def bang_table_init_def split: if_splits sum.splits)

lemma leave_idle_ok: "leave_idle uid b = Some b' \<Longrightarrow> bang_ok b \<Longrightarrow> bang_ok b'"
  by (auto simp: leave_idle_def bang_ok_def bind_eq_Some_conv)

lemma seat_ok:
  assumes "seat i uid u b = Some b'" "bang_ok b" "bt_number (bg_tables b ! i) < BANG_TABLE_USER_MAXIMUM"
  shows "bang_ok b'"
proof -
  obtain h where b': "i < length (bg_tables b)"
      "b' = b\<lparr>bg_table := (bg_table b)(u \<mapsto> i), bg_tables := (bg_tables b)[i := (bg_tables b ! i)\<lparr>bt_hash := h, bt_number := bt_number (bg_tables b ! i) + 1\<rparr>]\<rparr>"
    using assms(1) by (auto simp: seat_def Let_def bind_eq_Some_conv split: if_splits)
  have "bang_ok (b\<lparr>bg_tables := (bg_tables b)[i := (bg_tables b ! i)\<lparr>bt_hash := h, bt_number := bt_number (bg_tables b ! i) + 1\<rparr>]\<rparr>)"
    using assms(2,3) b'(1) by (intro bang_ok_table) simp_all
  then show ?thesis by (simp add: b'(2) bang_ok_def)
qed

lemma autoselect_free:
  assumes "bang_autoselect_table_in_room ts = Some i"
  shows "i < length ts \<and> bt_number (ts ! i) < BANG_TABLE_USER_MAXIMUM"
proof -
  have *: "filter P [0..<n] = i # is \<Longrightarrow> i < n \<and> P i" for P n "is"
    using set_filter [of P "[0..<n]"] by (metis (mono_tags, lifting) atLeastLessThan_iff list.set_intros(1) mem_Collect_eq set_upt)
  show ?thesis using assms
    by (auto simp: bang_autoselect_table_in_room_def split: list.splits dest!: *)
qed

lemma user_destroy_bang_ok:
  assumes "bang_user_destroy u b p = Some (b', p')" "bang_ok b"
  shows "bang_ok b'"
proof -
  obtain b1 i h uid where *: "b1 = b \<or> leave_idle uid b = Some b1" "i < length (bg_tables b1)"
      "b' = b1\<lparr>bg_tables := (bg_tables b1)[i := (bg_tables b1 ! i)\<lparr>bt_hash := h, bt_number := bt_number (bg_tables b1 ! i) - 1\<rparr>]\<rparr>"
    using assms(1) by (fastforce simp: bang_user_destroy_def Let_def bind_eq_Some_conv split: if_splits)
  then have ok: "bang_ok b1" using assms(2) leave_idle_ok by blast
  show ?thesis unfolding *(3) using bang_ok_number [OF ok *(2)] ok *(2) by (intro bang_ok_table) simp_all
qed

lemma remove_ref_bang_ok: "bang_remove_ref a (b, j) = Some (b', j') \<Longrightarrow> bang_ok b \<Longrightarrow> bang_ok b'"
  by (auto simp: bang_remove_ref_def bind_eq_Some_conv split: if_splits dest: user_destroy_bang_ok)

lemma user_quit_bang_ok: "bang_user_quit uid (b, j) = Some (r, b', j') \<Longrightarrow> bang_ok b \<Longrightarrow> bang_ok b'"
  by (auto simp: bang_user_quit_def bind_eq_Some_conv split: if_splits option.splits dest: remove_ref_bang_ok)

lemma transit_idle_ok: "bang_state_transit_idle u (b, j) = Some (b', j') \<Longrightarrow> bang_ok b \<Longrightarrow> bang_ok b'"
  by (auto simp: bang_state_transit_idle_def bang_ok_def set_state_def bind_eq_Some_conv split: if_splits)

lemma transit_battling_ok: "bang_state_transit_battling u (b, j) = Some (e, b', j') \<Longrightarrow> bang_ok b \<Longrightarrow> bang_ok b'"
  by (auto simp: bang_state_transit_battling_def Let_def bind_eq_Some_conv split: if_splits dest: leave_idle_ok)

lemma user_new_cases:
  assumes "bang_user_new (b, j) = Some (e, b', j')"
  obtains "b' = b" "e \<noteq> STATUS_OK"
  | uid j0 r b1 j1 j2 where "bang_user_quit uid (b, j0) = Some (r, b1, j1)" "base_user_find (jb_plugin j1) uid = Some None"
      "base_user_new uid j1 = Some j2"
      "bang_state_transit_idle (p_next (jb_plugin j1))
         (b1\<lparr>bg_state := (bg_state b1)(p_next (jb_plugin j1) := BANG_STATE_IDLE), bg_table := (bg_table b1)(p_next (jb_plugin j1) := None)\<rparr>, j2)
       = Some (b', j')"
  using assms by (cases "malloc_ok (jb_world j)")
    (auto simp: bang_user_new_def raise_at_def nerr_raisef_def Let_def bind_eq_Some_conv split: if_splits option.splits)

lemma user_new_bang_ok:
  assumes "bang_user_new (b, j) = Some (e, b', j')" "bang_ok b"
  shows "bang_ok b'"
  using assms(1)
proof (cases rule: user_new_cases)
  case (2 uid j0 r b1 j1 j2)
  show ?thesis by (rule transit_idle_ok [OF 2(4)]) (simp add: user_quit_bang_ok [OF 2(1) assms(2)])
qed (simp add: assms(2))

text \<open>While the loop of the invitations runs, the table of the user has at most \<open>noticenum\<close> + 1 users.\<close>

lemma invite_idle_ok:
  assumes "invite_idle u i n msg key (b, j) = Some (b', j')" "bang_ok b" "n < BANG_TABLE_USER_MAXIMUM"
  shows "bang_ok b'"
proof -
  have "n < BANG_TABLE_USER_MAXIMUM \<longrightarrow> bang_ok (fst (b, j)) \<longrightarrow> bang_ok (fst (b', j'))"
  proof (rule invite_idle.raw_induct [OF _ assms(1), of "\<lambda>u i n msg key bj r. n < BANG_TABLE_USER_MAXIMUM \<longrightarrow> bang_ok (fst bj) \<longrightarrow> bang_ok (fst r)"], goal_cases)
    case (1 self u i n msg key bj r)
    have step: "bang_ok (fst r)" if "self u i n msg k bj' = Some r" "bang_ok (fst bj')" "n < BANG_TABLE_USER_MAXIMUM" for k bj'
      using 1(1) that by blast
    have sit: "bang_ok b1" if "seat i uid v b0 = Some b1" "bang_ok b0" "\<not> n < bt_number (bg_tables b0 ! i)" "n < BANG_TABLE_USER_MAXIMUM" for uid v b0 b1
      using seat_ok [OF that(1,2)] that(3,4) by simp
    show ?case using 1(2)
      by (auto simp: bind_eq_Some_conv split: prod.splits option.splits if_splits dest!: step) (use sit in blast)+
  qed
  then show ?thesis using assms(2,3) by simp
qed

lemma invite_others_ok: "invite_others u i b j = Some (e, b', j') \<Longrightarrow> bang_ok b \<Longrightarrow> bang_ok b'"
  by (auto simp: invite_others_def Let_def bind_eq_Some_conv split: if_splits)
    (auto simp: bind_eq_Some_conv split: sum.splits dest!: invite_idle_ok)

lemma to_battle_ok:
  assumes run: "bang_broadcast_to_battle_message u (b, j) = Some (e, b', j')" and ok: "bang_ok b"
  shows "bang_ok b'"
proof (cases "bg_state b u = BANG_STATE_IDLE")
  case True
  then obtain i uid b1 where 2: "bang_autoselect_table_in_room (bg_tables b) = Some i" "seat i uid u b = Some b1"
      "(\<exists>e. bang_state_transit_battling u (b1, j) = Some (e, b', j')) \<or> invite_others u i b1 j = Some (e, b', j')"
    using run by (fastforce simp: bang_broadcast_to_battle_message_def Let_def bind_eq_Some_conv split: if_splits)
  have "bang_ok b1" using seat_ok [OF 2(2) ok] autoselect_free [OF 2(1)] by simp
  then show ?thesis using 2(3) by (auto dest: transit_battling_ok invite_others_ok)
next
  case False
  then show ?thesis using run ok by (auto simp: bang_broadcast_to_battle_message_def bind_eq_Some_conv)
qed

lemma all_battling_ok:
  assumes "all_battling h key (b, j) = Some (e, b', j')" "bang_ok b"
  shows "bang_ok b'"
proof -
  have "bang_ok (fst (b, j)) \<longrightarrow> bang_ok (fst (snd (e, b', j')))"
  proof (rule all_battling.raw_induct [OF _ assms(1), of "\<lambda>h key bj r. bang_ok (fst bj) \<longrightarrow> bang_ok (fst (snd r))"], goal_cases)
    case (1 self h key bj r)
    have step: "bang_ok (fst (snd r))" if "self h k bj' = Some r" "bang_ok (fst bj')" for k bj'
      using 1(1) that by blast
    show ?case using 1(2)
      by (cases bj, auto simp: bind_eq_Some_conv split: prod.splits option.splits if_splits dest!: step)
          (use transit_battling_ok in blast)+
  qed
  then show ?thesis using assms(2) by simp
qed

lemma bang_command_ok:
  assumes "bang_command (b, j) = Some (e, b', j')" "bang_ok b"
  shows "bang_ok b'"
proof -
  have plain: "b' = b" if "plain_cmd f (b, j) = Some (e, b', j')" for f
    using that by (auto simp: plain_cmd_def bind_eq_Some_conv)
  have join: "bang_ok b'" if "bang_cmd_join (b, j) = Some (e, b', j')"
    using that user_new_bang_ok [OF _ assms(2)] by (auto simp: bang_cmd_join_def bind_eq_Some_conv split: if_splits)
  have quit: "bang_ok b'" if "bang_cmd_quit (b, j) = Some (e, b', j')"
    using that user_quit_bang_ok [OF _ assms(2)] assms(2) by (auto simp: bang_cmd_quit_def bind_eq_Some_conv split: option.splits)
  have battle: "bang_ok b'" if "bang_cmd_to_battle (b, j) = Some (e, b', j')"
    using that to_battle_ok [OF _ assms(2)] assms(2) by (auto simp: bang_cmd_to_battle_def bind_eq_Some_conv split: option.splits)
  have acc: "bang_ok b'" if "bang_cmd_accept_battle (b, j) = Some (e, b', j')"
    using that assms(2) by (auto simp: bang_cmd_accept_battle_def Let_def bind_eq_Some_conv split: option.splits dest!: all_battling_ok)
  have turn: "b' = b" if "bang_cmd_turn (b, j) = Some (e, b', j')"
    using that unfolding bang_cmd_turn_def Let_def by (auto simp: bind_eq_Some_conv split: option.splits) (auto simp: bind_eq_Some_conv split: sum.splits)
  show ?thesis
    using assms(1) join quit battle acc assms(2)
    unfolding bang_command_def Let_def
    by (simp split: if_splits add: bang_cmd_accelerate_def) (auto dest: plain turn)
qed

lemma bang_process_driver_ok: "bang_process_driver m (b, j) = Some (b', j') \<Longrightarrow> bang_ok b \<Longrightarrow> bang_ok b'"
  by (auto simp: bang_process_driver_def bind_eq_Some_conv dest: bang_command_ok)

text \<open>The states the game gets into: by the commands, and by the connections that are closed in between.\<close>

inductive bang_reach :: "bang \<Rightarrow> bool" where
  bang_start: "bang_info_init True True True = Some b \<Longrightarrow> bang_reach b"
| bang_request: "bang_reach b \<Longrightarrow> bang_process_driver m (b, j) = Some (b', j') \<Longrightarrow> bang_reach b'"
| bang_close: "bang_reach b \<Longrightarrow> bang_remove_ref a (b, j) = Some (b', j') \<Longrightarrow> bang_reach b'"

lemma bang_reach_ok: "bang_reach b \<Longrightarrow> bang_ok b"
  by (induction rule: bang_reach.induct) (auto dest: bang_info_init_ok bang_process_driver_ok remove_ref_bang_ok)


section \<open>Leaving without a battle\<close>

lemma destroy_without_table: "bg_table b u = None \<Longrightarrow> bang_user_destroy u b p = None"
  by (auto simp: bang_user_destroy_def leave_idle_def Let_def bind_eq_None_conv bind_eq_Some_conv split: if_splits option.splits)

lemma transit_idle_frame:
  "bang_state_transit_idle u (b, j) = Some (b', j') \<Longrightarrow> j' = j \<and> bg_table b' = bg_table b"
  by (auto simp: bang_state_transit_idle_def set_state_def bind_eq_Some_conv split: if_splits)

lemma user_new_appdata:
  "base_user_new uid j = Some j' \<Longrightarrow> base_user_find (jb_plugin j) uid = Some None \<Longrightarrow>
   p_appdata (jb_plugin j') (rq_sock (qd_req (jb_q j'))) = Some (p_next (jb_plugin j))"
  by (auto simp: base_user_new_def Let_def bind_eq_Some_conv)

lemma last_ref_frees:
  "w_socks w a = Some s \<Longrightarrow> sk_refcount s = 1 \<Longrightarrow> \<exists>w'. tcp_socket_remove_ref a w = Some w' \<and> w_socks w' a = None"
  by (simp add: tcp_socket_remove_ref_def tcp_socket_free_def Let_def)

text \<open>
  C17. Error: a user who has joined has no table yet, so that freeing its connection dereferences a null
  pointer. The last reference to the connection can be dropped, and yet \<open>tcp_socket_remove_ref\<close> with
  the callback \<open>bang_user_destroy\<close> does not return.
\<close>

theorem bang_leave_crashes:
  assumes new: "bang_user_new (b, j) = Some (STATUS_OK, b', j')"
    and sock: "w_socks w (rq_sock (qd_req (jb_q j'))) = Some s" "sk_refcount s = 1" "sk_on_close s"
  shows "tcp_socket_remove_ref (rq_sock (qd_req (jb_q j'))) w \<noteq> None
     \<and> bang_remove_ref (rq_sock (qd_req (jb_q j'))) (b', j'\<lparr>jb_world := w\<rparr>) = None"
  using new
proof (cases rule: user_new_cases)
  case (2 uid j0 r b1 j1 j2)
  from transit_idle_frame [OF 2(4)] user_new_appdata [OF 2(3,2)]
  have "p_appdata (jb_plugin j') (rq_sock (qd_req (jb_q j'))) = Some (p_next (jb_plugin j1))" "bg_table b' (p_next (jb_plugin j1)) = None"
    by simp_all
  then show ?thesis using last_ref_frees [OF sock(1,2)] sock(1,3)
    by (auto simp: bang_remove_ref_def destroy_without_table)
qed simp

section \<open>A game\<close>

definition demo_bang :: bang where
  "demo_bang = \<lparr>bg_state = (\<lambda>_. BANG_STATE_IDLE), bg_table = (\<lambda>_. None), bg_idle_num = 0, bg_idle = demo_hash,
     bg_tables = map (\<lambda>i. bang_table_init i demo_hash) [0..<25]\<rparr>"

definition demo_join :: job where
  "demo_join = demo_job\<lparr>jb_q := (jb_q demo_job)\<lparr>qd_hdfrcv := snd (the (hdf_set_value hdf_init [] ''userid'' (Some ''ann'')))\<rparr>\<rparr>"

lemma demo_bang_init: "bang_info_init True True True = Some demo_bang"
  by (simp add: bang_info_init_def bang_room_init_def demo_bang_def ne_hash_init_def demo_hash_def)

lemma demo_join_ok:
  "users_ok (jb_plugin demo_join)" "h_size (userh (jb_plugin demo_join)) \<le> 2 ^ 30" "p_next (jb_plugin demo_join) = 0"
  "w_socks (jb_world demo_join) (rq_sock (qd_req (jb_q demo_join))) \<noteq> None" "malloc_ok (jb_world demo_join) = (True, jb_world demo_join)"
  "base_user_find (jb_plugin demo_join) ''ann'' = Some None"
proof -
  have 1: "users_ok (jb_plugin demo_join)" "userh (jb_plugin demo_join) = demo_hash"
    using demo_job_ok(1) by (simp_all add: demo_join_def) (simp add: demo_job_def demo_plugin_def)
  show "base_user_find (jb_plugin demo_join) ''ann'' = Some None" "users_ok (jb_plugin demo_join)"
    using 1 demo_hash_rep by (simp_all add: users_ok_find hash_rep_def)
  show "h_size (userh (jb_plugin demo_join)) \<le> 2 ^ 30" "w_socks (jb_world demo_join) (rq_sock (qd_req (jb_q demo_join))) \<noteq> None"
    using demo_job_ok(2,3) by (simp_all add: demo_join_def)
  show "malloc_ok (jb_world demo_join) = (True, jb_world demo_join)" "p_next (jb_plugin demo_join) = 0"
    by (simp_all add: demo_join_def demo_job_def demo_plugin_def malloc_ok_def last_request_def Let_def empty_world_def)
qed

lemma demo_userid: "get_param_str ''userid'' demo_join = Some (Some ''ann'')"
proof -
  have "hdf_get_value (snd (the (hdf_set_value hdf_init [] ''userid'' (Some ''ann'')))) [] (Some ''userid'') None = Some (Some ''ann'')"
    by code_simp
  then show ?thesis by (simp add: get_param_str_def demo_join_def)
qed

lemma demo_joined: "\<exists>b' j'. bang_user_new (demo_bang, demo_join) = Some (STATUS_OK, b', j') \<and> rq_sock (qd_req (jb_q j')) = 2"
proof -
  obtain j2 where j2: "base_user_new ''ann'' demo_join = Some j2" using user_new_ok [OF demo_join_ok(1,2,4)] by blast
  then have u: "\<exists>user. p_users (jb_plugin j2) 0 = Some user" "jb_q j2 = jb_q demo_join" using demo_join_ok(3,6)
    by (auto simp: base_user_new_def Let_def bind_eq_Some_conv)
  then obtain user where user: "p_users (jb_plugin j2) 0 = Some user" by blast
  have idle: "hash_inv demo_hash" "h_size demo_hash \<le> 2 ^ 30" "hash_map demo_hash = Map.empty"
    using demo_hash_rep by (simp_all add: hash_rep_def) (simp add: demo_hash_def)
  from ne_hash_insert_map [OF idle(1,2)] obtain h where
    "ne_hash_insert True True (bu_uid user) 0 demo_hash = Some (Inr (), h)" by blast
  then show ?thesis using j2 user u(2) demo_userid demo_join_ok(3,5,6) idle
    by (simp add: bang_user_new_def bang_user_quit_def bang_state_transit_idle_def demo_bang_def ne_hash_lookup_map Let_def)
      (simp add: demo_join_def demo_job_def)
qed

theorem bang_leave_crashes_witness:
  "\<exists>b' j'. bang_user_new (demo_bang, demo_join) = Some (STATUS_OK, b', j')
     \<and> bang_remove_ref 2 (b', j'\<lparr>jb_world := empty_world\<lparr>w_socks := [2 \<mapsto> \<lparr>sk_refcount = 1, sk_fd = 7, sk_evt = False, sk_req = demo_junk, sk_on_close = True\<rparr>]\<rparr>\<rparr>) = None"
proof -
  obtain b' j' where new: "bang_user_new (demo_bang, demo_join) = Some (STATUS_OK, b', j')" "rq_sock (qd_req (jb_q j')) = 2"
    using demo_joined by blast
  from bang_leave_crashes [OF new(1)] new show ?thesis by auto
qed

text \<open>A user of the table asks for a battle in the empty room, and sits down alone.\<close>

definition demo_asks :: job where
  "demo_asks = demo_join\<lparr>jb_plugin := (jb_plugin demo_join)\<lparr>p_users := [0 \<mapsto> \<lparr>bu_uid = ''ann'', bu_fd = 7, bu_sock = 2\<rparr>], p_appdata := [2 \<mapsto> 0]\<rparr>,
     jb_q := (jb_q demo_join)\<lparr>qd_operation := REQ_CMD_BANG_TO_BATTLE\<rparr>\<rparr>"

definition demo_errs :: mcs where
  "demo_errs = \<lparr>mcs_err_valid = (\<lambda>e. case e of NErr f _ \<Rightarrow> Some f | _ \<Rightarrow> None), mcs_set_int_value_with_type = (\<lambda>h n i. h), mcs_errors = None\<rparr>"

lemma empty_room:
  assumes "ts \<noteq> []" "\<And>i. i < length ts \<Longrightarrow> bt_number (ts ! i) = 0"
  shows "bang_autoselect_table_in_room ts = Some 0"
proof -
  have "filter (\<lambda>i. 1 \<le> bt_number (ts ! i) \<and> bt_number (ts ! i) \<le> BANG_TABLE_USER_MAXIMUM - 1) [0..<length ts] = []"
    "filter (\<lambda>i. bt_number (ts ! i) = 0) [0..<length ts] = [0..<length ts]"
    using assms(2) by (auto simp: filter_empty_conv filter_id_conv)
  moreover have "[0..<length ts] = 0 # [1..<length ts]" using assms(1) by (simp add: upt_conv_Cons)
  ultimately show ?thesis by (simp add: bang_autoselect_table_in_room_def)
qed

lemma demo_asks_battle: "\<exists>b j. bang_process_driver demo_errs (demo_bang, demo_asks) = Some (b, j) \<and> bt_number (bg_tables b ! 0) = 1"
proof -
  define j where "j = bump (\<lambda>s. s\<lparr>st_total := st_total s + 1\<rparr>) demo_asks"
  have j: "p_users (jb_plugin j) 0 = Some \<lparr>bu_uid = ''ann'', bu_fd = 7, bu_sock = 2\<rparr>" "p_appdata (jb_plugin j) 2 = Some 0"
      "rq_sock (qd_req (jb_q j)) = 2" "w_socks (jb_world j) 2 \<noteq> None" "qd_operation (jb_q j) = REQ_CMD_BANG_TO_BATTLE" "rq_flags (qd_req (jb_q j)) = 0"
    by (simp_all add: j_def bump_def demo_asks_def demo_join_def demo_job_def demo_junk_def last_request_def Let_def)
  have idle: "hash_inv demo_hash" "h_size demo_hash \<le> 2 ^ 30" using demo_hash_rep by (simp_all add: hash_rep_def) (simp add: demo_hash_def)
  from ne_hash_insert_map [OF idle] obtain h where h: "ne_hash_insert True True ''ann'' 0 demo_hash = Some (Inr (), h)" by blast
  define b1 where "b1 = demo_bang\<lparr>bg_table := [0 \<mapsto> 0], bg_tables := (bg_tables demo_bang)[0 := \<lparr>bt_tableid = 1, bt_number = 1, bt_hash = h\<rparr>]\<rparr>"
  have seat: "seat 0 ''ann'' 0 demo_bang = Some b1" using h by (simp add: seat_def demo_bang_def bang_table_init_def b1_def)
  have sel: "bang_autoselect_table_in_room (bg_tables demo_bang) = Some 0"
    by (rule empty_room) (simp_all add: demo_bang_def bang_table_init_def)
  have b1: "bt_number (bg_tables b1 ! 0) = 1" "bg_idle_num b1 = 0" "bg_state demo_bang 0 = BANG_STATE_IDLE" by (simp_all add: b1_def demo_bang_def)
  have "bang_broadcast_to_battle_message 0 (demo_bang, j) = Some (STATUS_OK, set_state 0 BANG_STATE_SINGLE_BATTLE b1, j)"
    using j(1) seat sel b1 by (simp add: bang_broadcast_to_battle_message_def invite_others_def)
  then have "bang_command (demo_bang, j) = Some (STATUS_OK, set_state 0 BANG_STATE_SINGLE_BATTLE b1, j)"
    using j by (auto simp: bang_command_def bang_cmd_to_battle_def base_get_user_def)
  moreover have "bt_number (bg_tables (set_state 0 BANG_STATE_SINGLE_BATTLE b1) ! 0) = 1" using b1(1) by (simp add: set_state_def)
  ultimately obtain b where "bang_command (demo_bang, j) = Some (STATUS_OK, b, j)" "bt_number (bg_tables b ! 0) = 1" by blast
  moreover have "\<exists>j'. finish_request demo_errs False STATUS_OK j = Some j'"
    using j(6) by (simp add: finish_request_def is_sync_def demo_errs_def) (simp add: bump_def)
  ultimately show ?thesis by (auto simp: bang_process_driver_def j_def [symmetric])
qed


end
