(* ===== verification/Server_Timer.thy ===== *)
theory Server_Timer
  imports Server_State
begin

text \<open>
  The timers of the plugins (server/net.c \<open>time_up\<close>, server/mocd.c \<open>moc_add_timer\<close>).

  Every plugin has a singly linked list of timers. The clock of the event loop calls \<open>time_up\<close> ten
  times a second; when a second has passed it walks the lists of all plugins, calls the timers whose
  turn it is, and takes those that do not repeat out of their list and frees them. The timers are in a
  heap of their own, and a timer's function and its argument are numbers that the parameter \<open>call\<close>
  interprets, on a state of the plugins of any type and on the clock, as a function may add timers.
\<close>

section \<open>Data\<close>

record timer_entry =
  tm_timeout :: int
  tm_repeat :: bool
  tm_timer :: nat
  tm_data :: nat
  tm_next :: "addr option"

record clock =
  ck_ctime :: int
  ck_upsec :: int
  ck_timers :: "addr \<Rightarrow> addr option"
  ck_heap :: "addr \<Rightarrow> timer_entry option"
  ck_next :: addr

type_synonym 's timer_fun = "nat \<Rightarrow> addr \<Rightarrow> int \<Rightarrow> nat \<Rightarrow> 's \<times> clock \<Rightarrow> 's \<times> clock"

section \<open>Operations\<close>

text \<open>\<open>moc_add_timer\<close> on the list of the plugin \<open>e\<close>; \<open>ok\<close> tells whether \<open>calloc\<close> succeeds.\<close>

definition moc_add_timer :: "bool \<Rightarrow> addr \<Rightarrow> int \<Rightarrow> bool \<Rightarrow> nat \<Rightarrow> nat \<Rightarrow> clock \<Rightarrow> clock" where
  "moc_add_timer ok e timeout rpt timer data k =
     (let t = ck_next k in
      if \<not> ok then k
      else k\<lparr>ck_heap := (ck_heap k)(t \<mapsto> \<lparr>tm_timeout = timeout, tm_repeat = rpt, tm_timer = timer, tm_data = data, tm_next = ck_timers k e\<rparr>),
             ck_timers := (ck_timers k)(e := Some t), ck_next := t + 1\<rparr>)"

text \<open>Taking \<open>t\<close> out of the list of \<open>e\<close>, where \<open>p\<close> is the timer before it, and freeing it.\<close>

definition drop_timer :: "addr \<Rightarrow> addr \<Rightarrow> addr option \<Rightarrow> clock \<Rightarrow> (addr option \<times> clock) option" where
  "drop_timer e t p k = do {
     n \<leftarrow> ck_heap k t;
     k1 \<leftarrow> (if ck_timers k e = Some t then Some (k\<lparr>ck_timers := (ck_timers k)(e := tm_next n)\<rparr>)
        else do {
          pa \<leftarrow> p;
          pn \<leftarrow> ck_heap k pa;
          Some (k\<lparr>ck_heap := (ck_heap k)(pa \<mapsto> pn\<lparr>tm_next := tm_next n\<rparr>)\<rparr>) });
     n1 \<leftarrow> ck_heap k1 t;
     Some (tm_next n1, k1\<lparr>ck_heap := (ck_heap k1)(t := None)\<rparr>) }"

text \<open>The loop over the timers of the plugin \<open>e\<close>, from the timer \<open>t\<close> on.\<close>

partial_function (option) run_timers :: "'s timer_fun \<Rightarrow> addr \<Rightarrow> addr option \<Rightarrow> addr option \<Rightarrow> 's \<times> clock \<Rightarrow> ('s \<times> clock) option" where
  [code]: "run_timers call e t p sk = (case t of
     None \<Rightarrow> Some sk
   | Some a \<Rightarrow> do {
       n \<leftarrow> ck_heap (snd sk) a;
       if tm_timeout n \<le> 0 then Some sk
       else if ck_upsec (snd sk) mod tm_timeout n = 0 then do {
         let sk1 = call (tm_timer n) e (ck_upsec (snd sk)) (tm_data n) sk;
         n1 \<leftarrow> ck_heap (snd sk1) a;
         if \<not> tm_repeat n1 then do {
           (nx, k2) \<leftarrow> drop_timer e a p (snd sk1);
           run_timers call e nx p (fst sk1, k2) }
         else run_timers call e (tm_next n1) (Some a) sk1 }
       else run_timers call e (tm_next n) (Some a) sk })"

fun run_entries :: "'s timer_fun \<Rightarrow> addr list \<Rightarrow> 's \<times> clock \<Rightarrow> ('s \<times> clock) option" where
  "run_entries call [] sk = Some sk"
| "run_entries call (e # es) sk = do {
     sk1 \<leftarrow> run_timers call e (ck_timers (snd sk) e) (ck_timers (snd sk) e) sk;
     run_entries call es sk1 }"

text \<open>\<open>time_up\<close> at the time \<open>now\<close>, over the table of plugins.\<close>

definition time_up :: "'s timer_fun \<Rightarrow> addr list list \<Rightarrow> int \<Rightarrow> 's \<times> clock \<Rightarrow> ('s \<times> clock) option" where
  "time_up call table now sk =
     (let k = snd sk;
          stepsec = (now - ck_ctime k \<ge> 1);
          k1 = (if stepsec then k\<lparr>ck_upsec := ck_upsec k + (now - ck_ctime k)\<rparr> else k);
          k2 = k1\<lparr>ck_ctime := now\<rparr> in
      if \<not> stepsec then Some (fst sk, k2) else run_entries call (concat table) (fst sk, k2))"

section \<open>What the timers mean\<close>

text \<open>
  The list of a plugin's timers, without addresses. A round walks it up to the first timer without a
  positive timeout; a timer's turn comes at the multiples of its timeout.
\<close>

record timer =
  ti_timeout :: int
  ti_repeat :: bool
  ti_fun :: nat
  ti_data :: nat

definition timer_of :: "timer_entry \<Rightarrow> timer" where
  "timer_of n = \<lparr>ti_timeout = tm_timeout n, ti_repeat = tm_repeat n, ti_fun = tm_timer n, ti_data = tm_data n\<rparr>"

definition walked :: "timer list \<Rightarrow> timer list" where
  "walked ts = takeWhile (\<lambda>t. 0 < ti_timeout t) ts"

definition due :: "int \<Rightarrow> timer \<Rightarrow> bool" where
  "due upsec t \<longleftrightarrow> upsec mod ti_timeout t = 0"

definition kept_timers :: "int \<Rightarrow> timer list \<Rightarrow> timer list" where
  "kept_timers upsec ts = filter (\<lambda>t. ti_repeat t \<or> \<not> due upsec t) (walked ts) @ drop (length (walked ts)) ts"

text \<open>Timers whose functions change the state of the plugins, by \<open>g\<close>, and leave the timers alone.\<close>

definition on_plugins :: "(nat \<Rightarrow> addr \<Rightarrow> int \<Rightarrow> nat \<Rightarrow> 's \<Rightarrow> 's) \<Rightarrow> 's timer_fun" where
  "on_plugins g = (\<lambda>f e upsec d sk. (g f e upsec d (fst sk), snd sk))"

definition call_all :: "(nat \<Rightarrow> addr \<Rightarrow> int \<Rightarrow> nat \<Rightarrow> 's \<Rightarrow> 's) \<Rightarrow> addr \<Rightarrow> int \<Rightarrow> timer list \<Rightarrow> 's \<Rightarrow> 's" where
  "call_all g e upsec ts s = fold (\<lambda>t. g (ti_fun t) e upsec (ti_data t)) (filter (due upsec) (walked ts)) s"

section \<open>Lists of timers in the heap\<close>

fun tpath :: "(addr \<Rightarrow> timer_entry option) \<Rightarrow> addr option \<Rightarrow> addr list \<Rightarrow> addr option \<Rightarrow> bool" where
  "tpath h x [] y \<longleftrightarrow> x = y"
| "tpath h x (a # as) y \<longleftrightarrow> x = Some a \<and> (\<exists>n. h a = Some n \<and> tpath h (tm_next n) as y)"

definition timer_at :: "clock \<Rightarrow> addr \<Rightarrow> timer" where
  "timer_at k a = timer_of (the (ck_heap k a))"

definition tlist :: "clock \<Rightarrow> addr \<Rightarrow> addr list \<Rightarrow> bool" where
  "tlist k e as \<longleftrightarrow> tpath (ck_heap k) (ck_timers k e) as None \<and> distinct as"

lemma tpath_append: "tpath h x (as @ bs) y \<longleftrightarrow> (\<exists>z. tpath h x as z \<and> tpath h z bs y)"
  by (induction as arbitrary: x) auto

lemma tpath_cong: "(\<And>a. a \<in> set as \<Longrightarrow> h' a = h a) \<Longrightarrow> tpath h' x as y = tpath h x as y"
  by (induction as arbitrary: x) auto

lemma tpath_alloc: "tpath h x as y \<Longrightarrow> a \<in> set as \<Longrightarrow> \<exists>n. h a = Some n"
  by (induction as arbitrary: x) auto

lemma tpath_relink:
  "tpath h x (as @ [a]) z \<Longrightarrow> a \<notin> set as \<Longrightarrow> h a = Some n \<Longrightarrow> tpath (h(a \<mapsto> n\<lparr>tm_next := y\<rparr>)) x (as @ [a]) y"
  by (induction as arbitrary: x) auto

text \<open>What a step of the loop leaves of the clock.\<close>

definition only_list :: "addr \<Rightarrow> addr set \<Rightarrow> clock \<Rightarrow> clock \<Rightarrow> bool" where
  "only_list e A k k' \<longleftrightarrow> ck_ctime k' = ck_ctime k \<and> ck_upsec k' = ck_upsec k \<and> ck_next k' = ck_next k \<and> (\<forall>e'. e' \<noteq> e \<longrightarrow> ck_timers k' e' = ck_timers k e')
     \<and> (\<forall>a. a \<notin> A \<longrightarrow> ck_heap k' a = ck_heap k a)"

lemma only_list_refl [simp]: "only_list e A k k"
  by (simp add: only_list_def)

lemma only_list_trans: "only_list e A k k1 \<Longrightarrow> only_list e B k1 k2 \<Longrightarrow> B \<subseteq> A \<Longrightarrow> only_list e A k k2"
  by (auto simp: only_list_def)

lemma drop_timer_spec:
  assumes "tlist k e (pre @ a # rest)" "pre \<noteq> [] \<longrightarrow> p = Some (last pre)" "ck_heap k a = Some n"
  shows "\<exists>k'. drop_timer e a p k = Some (tm_next n, k') \<and> tlist k' e (pre @ rest) \<and> ck_heap k' a = None
     \<and> only_list e (set (pre @ a # rest)) k k' \<and> (\<forall>b \<in> set (pre @ rest). timer_at k' b = timer_at k b)
     \<and> (\<forall>b \<in> set rest. ck_heap k' b = ck_heap k b)"
proof (cases pre rule: rev_cases)
  case Nil
  let ?k = "k\<lparr>ck_timers := (ck_timers k)(e := tm_next n), ck_heap := (ck_heap k)(a := None)\<rparr>"
  have h: "ck_timers k e = Some a" "tpath (ck_heap k) (tm_next n) rest None" "a \<notin> set rest" "distinct rest"
    using assms(1,3) by (auto simp: tlist_def Nil)
  then have "tpath ((ck_heap k)(a := None)) (tm_next n) rest None" by (subst tpath_cong) auto
  then show ?thesis using h assms(3)
    by (intro exI [of _ ?k]) (auto simp: drop_timer_def Nil tlist_def only_list_def timer_at_def)
next
  case (snoc qs q)
  let ?p = "tpath (ck_heap k)"
  obtain x where x: "?p (ck_timers k e) (qs @ [q]) (Some a)" "?p (tm_next n) rest None" "distinct (qs @ [q])" "a \<notin> set (qs @ [q])" "a \<notin> set rest"
      "distinct rest" "set (qs @ [q]) \<inter> set rest = {}"
    using assms(1,3) unfolding tlist_def snoc by (auto simp: tpath_append)
  obtain pn where pn: "ck_heap k q = Some pn" using tpath_alloc [OF x(1)] by auto
  let ?h = "(ck_heap k)(q \<mapsto> pn\<lparr>tm_next := tm_next n\<rparr>)"
  let ?k = "k\<lparr>ck_heap := ?h(a := None)\<rparr>"
  have head: "ck_timers k e \<noteq> Some a"
    using x(1,4) by (cases qs) auto
  have "tpath ?h (ck_timers k e) (qs @ [q]) (tm_next n)" using tpath_relink [OF x(1) _ pn] x(3) by simp
  then have "tpath (?h(a := None)) (ck_timers k e) (qs @ [q]) (tm_next n)" using x(4) by (subst tpath_cong) auto
  moreover have "tpath (?h(a := None)) (tm_next n) rest None" using x(2,5,7) by (subst tpath_cong [where h = "ck_heap k"]) auto
  ultimately have "tlist ?k e (pre @ rest)" using x(3,6,7) by (auto simp: tlist_def snoc tpath_append)
  moreover have "drop_timer e a p k = Some (tm_next n, ?k)" using head pn assms(2,3) x(4) by (auto simp: drop_timer_def snoc)
  ultimately show ?thesis using x(4,5,7) pn by (intro exI [of _ ?k]) (auto simp: only_list_def snoc timer_at_def timer_of_def)
qed

lemma walked_simps [simp]:
  "walked [] = []" "walked (t # ts) = (if 0 < ti_timeout t then t # walked ts else [])"
  by (simp_all add: walked_def)

lemma kept_timers_simps [simp]:
  "kept_timers u [] = []"
  "kept_timers u (t # ts) = (if 0 < ti_timeout t then (if ti_repeat t \<or> \<not> due u t then t # kept_timers u ts else kept_timers u ts) else t # ts)"
  by (simp_all add: kept_timers_def)

lemma call_all_simps [simp]:
  "call_all g e u [] s = s"
  "call_all g e u (t # ts) s = (if 0 < ti_timeout t then call_all g e u ts (if due u t then g (ti_fun t) e u (ti_data t) s else s) else s)"
  by (simp_all add: call_all_def)

definition walk_result :: "(nat \<Rightarrow> addr \<Rightarrow> int \<Rightarrow> nat \<Rightarrow> 's \<Rightarrow> 's) \<Rightarrow> addr \<Rightarrow> addr list \<Rightarrow> addr list \<Rightarrow> 's \<Rightarrow> clock \<Rightarrow> ('s \<times> clock) option \<Rightarrow> bool" where
  "walk_result g e pre rest s k r \<longleftrightarrow>
     (\<exists>k' rest'. r = Some (call_all g e (ck_upsec k) (map (timer_at k) rest) s, k') \<and> tlist k' e (pre @ rest') \<and> set rest' \<subseteq> set rest
        \<and> map (timer_at k') (pre @ rest') = map (timer_at k) pre @ kept_timers (ck_upsec k) (map (timer_at k) rest)
        \<and> (\<forall>b \<in> set rest - set rest'. ck_heap k' b = None) \<and> only_list e (set (pre @ rest)) k k')"

lemma walk_keep:
  assumes "walk_result g e (pre @ [a]) rest s' k r"
    and "0 < ti_timeout (timer_at k a)" "s' = (if due (ck_upsec k) (timer_at k a) then g (ti_fun (timer_at k a)) e (ck_upsec k) (ti_data (timer_at k a)) s else s)"
    and "ti_repeat (timer_at k a) \<or> \<not> due (ck_upsec k) (timer_at k a)"
  shows "walk_result g e pre (a # rest) s k r"
proof -
  obtain k' rest' where *: "r = Some (call_all g e (ck_upsec k) (map (timer_at k) rest) s', k')" "tlist k' e ((pre @ [a]) @ rest')" "set rest' \<subseteq> set rest"
      "map (timer_at k') ((pre @ [a]) @ rest') = map (timer_at k) (pre @ [a]) @ kept_timers (ck_upsec k) (map (timer_at k) rest)"
      "\<forall>b \<in> set rest - set rest'. ck_heap k' b = None" "only_list e (set ((pre @ [a]) @ rest)) k k'"
    using assms(1) unfolding walk_result_def by blast
  then show ?thesis using assms(2-4) unfolding walk_result_def
    by (intro exI [of _ k'] exI [of _ "a # rest'"]) auto
qed

lemma walk_drop:
  assumes "walk_result g e pre rest (g (ti_fun (timer_at k a)) e (ck_upsec k) (ti_data (timer_at k a)) s) k1 r"
    and "only_list e (set (pre @ a # rest)) k k1" "\<forall>b \<in> set (pre @ rest). timer_at k1 b = timer_at k b" "ck_heap k1 a = None"
    and "0 < ti_timeout (timer_at k a)" "due (ck_upsec k) (timer_at k a)" "\<not> ti_repeat (timer_at k a)" "a \<notin> set (pre @ rest)"
  shows "walk_result g e pre (a # rest) s k r"
proof -
  have u: "ck_upsec k1 = ck_upsec k" using assms(2) by (simp add: only_list_def)
  have m: "map (timer_at k1) rest = map (timer_at k) rest" "map (timer_at k1) pre = map (timer_at k) pre" using assms(3) by simp_all
  obtain k' rest' where *: "r = Some (call_all g e (ck_upsec k) (map (timer_at k) rest) (g (ti_fun (timer_at k a)) e (ck_upsec k) (ti_data (timer_at k a)) s), k')"
      "tlist k' e (pre @ rest')" "set rest' \<subseteq> set rest"
      "map (timer_at k') (pre @ rest') = map (timer_at k) pre @ kept_timers (ck_upsec k) (map (timer_at k) rest)"
      "\<forall>b \<in> set rest - set rest'. ck_heap k' b = None" "only_list e (set (pre @ rest)) k1 k'"
    using assms(1) unfolding walk_result_def u m by blast
  have "ck_heap k' a = None" using *(6) assms(4,8) by (auto simp: only_list_def)
  moreover have "only_list e (set (pre @ a # rest)) k k'" using only_list_trans [OF assms(2) *(6)] by auto
  ultimately show ?thesis using * assms(5-8) unfolding walk_result_def
    by (intro exI [of _ k'] exI [of _ rest']) auto
qed

lemma run_timers_spec:
  assumes "tlist k e (pre @ rest)" "t = (case rest of [] \<Rightarrow> None | a # as \<Rightarrow> Some a)" "pre \<noteq> [] \<longrightarrow> p = Some (last pre)"
  shows "walk_result g e pre rest s k (run_timers (on_plugins g) e t p (s, k))"
  using assms
proof (induction rest arbitrary: pre t p s k)
  case Nil
  then show ?case by (simp add: walk_result_def run_timers.simps)
next
  case (Cons a rest)
  obtain n where n: "ck_heap k a = Some n" using Cons.prems(1) tpath_alloc [of "ck_heap k" _ "pre @ a # rest" None a] by (auto simp: tlist_def)
  have at: "ti_timeout (timer_at k a) = tm_timeout n" "ti_repeat (timer_at k a) = tm_repeat n" "ti_fun (timer_at k a) = tm_timer n" "ti_data (timer_at k a) = tm_data n"
    by (simp_all add: timer_at_def timer_of_def n)
  have nx: "tm_next n = (case rest of [] \<Rightarrow> None | b # bs \<Rightarrow> Some b)"
    using Cons.prems(1) n by (cases rest) (auto simp: tlist_def tpath_append)
  have l: "tlist k e ((pre @ [a]) @ rest)" "a \<notin> set (pre @ rest)" using Cons.prems(1) by (auto simp: tlist_def)
  have d: "due (ck_upsec k) (timer_at k a) \<longleftrightarrow> ck_upsec k mod tm_timeout n = 0" by (simp add: due_def at)
  let ?s = "g (tm_timer n) e (ck_upsec k) (tm_data n) s"
  have run: "run_timers (on_plugins g) e t p (s, k) =
     (if tm_timeout n \<le> 0 then Some (s, k)
      else if due (ck_upsec k) (timer_at k a) then
        (if tm_repeat n then run_timers (on_plugins g) e (tm_next n) (Some a) (?s, k)
         else do { (nx, k2) \<leftarrow> drop_timer e a p k; run_timers (on_plugins g) e nx p (?s, k2) })
      else run_timers (on_plugins g) e (tm_next n) (Some a) (s, k))"
    using Cons.prems(2) n by (subst run_timers.simps) (simp add: on_plugins_def d)
  have go: "walk_result g e (pre @ [a]) rest s' k (run_timers (on_plugins g) e (tm_next n) (Some a) (s', k))" for s'
    by (rule Cons.IH [OF l(1) nx]) simp
  consider "tm_timeout n \<le> 0" | "0 < tm_timeout n" "\<not> due (ck_upsec k) (timer_at k a)"
    | "0 < tm_timeout n" "due (ck_upsec k) (timer_at k a)" "tm_repeat n" | "0 < tm_timeout n" "due (ck_upsec k) (timer_at k a)" "\<not> tm_repeat n"
    by linarith
  then show ?case
  proof cases
    case 1
    then show ?thesis using Cons.prems(1) unfolding run walk_result_def
      by (intro exI [of _ k] exI [of _ "a # rest"]) (simp add: at)
  next
    case 2
    then show ?thesis using walk_keep [OF go [of s]] by (simp add: run at)
  next
    case 3
    then show ?thesis using walk_keep [OF go [of ?s]] by (simp add: run at)
  next
    case 4
    from drop_timer_spec [OF Cons.prems(1,3) n] obtain k1 where k1: "drop_timer e a p k = Some (tm_next n, k1)" "tlist k1 e (pre @ rest)" "ck_heap k1 a = None"
      "only_list e (set (pre @ a # rest)) k k1" "\<forall>b \<in> set (pre @ rest). timer_at k1 b = timer_at k b" by blast
    have "walk_result g e pre rest ?s k1 (run_timers (on_plugins g) e (tm_next n) p (?s, k1))" by (rule Cons.IH [OF k1(2) nx Cons.prems(3)])
    then show ?thesis using walk_drop [OF _ k1(4,5,3)] 4 l(2) by (simp add: run at k1(1))
  qed
qed

section \<open>All plugins\<close>

definition timers_ok :: "addr set \<Rightarrow> (addr \<Rightarrow> addr list) \<Rightarrow> clock \<Rightarrow> bool" where
  "timers_ok E L k \<longleftrightarrow> (\<forall>e \<in> E. tlist k e (L e)) \<and> (\<forall>e \<in> E. \<forall>e' \<in> E. e \<noteq> e' \<longrightarrow> set (L e) \<inter> set (L e') = {})
     \<and> (\<forall>a \<ge> ck_next k. ck_heap k a = None)"

definition plugin_timers :: "(addr \<Rightarrow> addr list) \<Rightarrow> clock \<Rightarrow> addr \<Rightarrow> timer list" where
  "plugin_timers L k e = map (timer_at k) (L e)"

lemma tlist_frame: "tlist k e as \<Longrightarrow> ck_timers k' e = ck_timers k e \<Longrightarrow> (\<And>a. a \<in> set as \<Longrightarrow> ck_heap k' a = ck_heap k a) \<Longrightarrow> tlist k' e as"
  unfolding tlist_def using tpath_cong [of as "ck_heap k'" "ck_heap k"] by auto

lemma timers_ok_addr: "timers_ok E L k \<Longrightarrow> e \<in> E \<Longrightarrow> a \<in> set (L e) \<Longrightarrow> a < ck_next k"
  unfolding timers_ok_def tlist_def by (metis linorder_not_le option.distinct(1) tpath_alloc)

lemma run_entry_ok:
  assumes ok: "timers_ok E L k" and e: "e \<in> E"
  shows "\<exists>k' L'. run_timers (on_plugins g) e (ck_timers k e) (ck_timers k e) (s, k) = Some (call_all g e (ck_upsec k) (plugin_timers L k e) s, k')
     \<and> timers_ok E L' k' \<and> ck_upsec k' = ck_upsec k \<and> ck_ctime k' = ck_ctime k
     \<and> plugin_timers L' k' e = kept_timers (ck_upsec k) (plugin_timers L k e)
     \<and> (\<forall>e' \<in> E - {e}. plugin_timers L' k' e' = plugin_timers L k e')"
proof -
  have l: "tlist k e ([] @ L e)" using ok e by (simp add: timers_ok_def)
  then have "ck_timers k e = (case L e of [] \<Rightarrow> None | a # as \<Rightarrow> Some a)" by (cases "L e") (auto simp: tlist_def)
  from run_timers_spec [OF l this, of "ck_timers k e" g s] obtain k' r where k':
      "run_timers (on_plugins g) e (ck_timers k e) (ck_timers k e) (s, k) = Some (call_all g e (ck_upsec k) (plugin_timers L k e) s, k')"
      "tlist k' e r" "set r \<subseteq> set (L e)" "map (timer_at k') r = kept_timers (ck_upsec k) (plugin_timers L k e)" "only_list e (set (L e)) k k'"
    unfolding walk_result_def plugin_timers_def by auto
  let ?L = "L(e := r)"
  have same: "ck_heap k' a = ck_heap k a" if "e' \<in> E" "e' \<noteq> e" "a \<in> set (L e')" for e' a
    using that k'(5) ok e by (fastforce simp: only_list_def timers_ok_def)
  have "tlist k' e' (?L e')" if "e' \<in> E" for e'
  proof (cases "e' = e")
    case False
    then show ?thesis using tlist_frame [of k e' "L e'" k'] same that k'(5) ok by (auto simp: only_list_def timers_ok_def)
  qed (simp add: k'(2))
  moreover have "set (?L e1) \<inter> set (?L e2) = {}" if "e1 \<in> E" "e2 \<in> E" "e1 \<noteq> e2" for e1 e2
  proof -
    have "set (L e1) \<inter> set (L e2) = {}" using ok that by (auto simp: timers_ok_def)
    then show ?thesis using that(3) k'(3) by auto
  qed
  moreover have "ck_heap k' a = None" if "a \<ge> ck_next k'" for a
  proof -
    have n: "ck_next k \<le> a" using that k'(5) by (simp add: only_list_def)
    then have "a \<notin> set (L e)" using timers_ok_addr [OF ok e, of a] by (auto simp: linorder_not_le [symmetric])
    then show ?thesis using n k'(5) ok by (simp add: only_list_def timers_ok_def)
  qed
  ultimately have "timers_ok E ?L k'" by (auto simp: timers_ok_def)
  moreover have "plugin_timers ?L k' e' = plugin_timers L k e'" if "e' \<in> E - {e}" for e'
    using that same by (auto simp: plugin_timers_def timer_at_def)
  ultimately show ?thesis using k'(1,4,5) by (intro exI [of _ k'] exI [of _ ?L]) (auto simp: plugin_timers_def only_list_def)
qed

lemma run_entries_ok:
  assumes "timers_ok E L k" "set es \<subseteq> E" "distinct es"
  shows "\<exists>k' L'. run_entries (on_plugins g) es (s, k) = Some (fold (\<lambda>e. call_all g e (ck_upsec k) (plugin_timers L k e)) es s, k')
     \<and> timers_ok E L' k' \<and> ck_upsec k' = ck_upsec k \<and> ck_ctime k' = ck_ctime k
     \<and> (\<forall>e \<in> E. plugin_timers L' k' e = (if e \<in> set es then kept_timers (ck_upsec k) (plugin_timers L k e) else plugin_timers L k e))"
  using assms
proof (induction es arbitrary: L k s)
  case Nil
  then show ?case by auto
next
  case (Cons e es)
  from run_entry_ok [OF Cons.prems(1), of e g s] Cons.prems(2) obtain k1 L1 where 1:
      "run_timers (on_plugins g) e (ck_timers k e) (ck_timers k e) (s, k) = Some (call_all g e (ck_upsec k) (plugin_timers L k e) s, k1)"
      "timers_ok E L1 k1" "ck_upsec k1 = ck_upsec k" "ck_ctime k1 = ck_ctime k" "plugin_timers L1 k1 e = kept_timers (ck_upsec k) (plugin_timers L k e)"
      "\<And>e'. e' \<in> E - {e} \<Longrightarrow> plugin_timers L1 k1 e' = plugin_timers L k e'" by auto
  let ?s = "call_all g e (ck_upsec k) (plugin_timers L k e) s"
  have "set es \<subseteq> E" "distinct es" "e \<notin> set es" using Cons.prems(2,3) by auto
  from Cons.IH [OF 1(2) this(1,2), of ?s] obtain k2 L2 where 2:
      "run_entries (on_plugins g) es (?s, k1) = Some (fold (\<lambda>e. call_all g e (ck_upsec k1) (plugin_timers L1 k1 e)) es ?s, k2)"
      "timers_ok E L2 k2" "ck_upsec k2 = ck_upsec k1" "ck_ctime k2 = ck_ctime k1"
      "\<forall>e \<in> E. plugin_timers L2 k2 e = (if e \<in> set es then kept_timers (ck_upsec k1) (plugin_timers L1 k1 e) else plugin_timers L1 k1 e)" by blast
  have "fold (\<lambda>e. call_all g e (ck_upsec k1) (plugin_timers L1 k1 e)) es ?s = fold (\<lambda>e. call_all g e (ck_upsec k) (plugin_timers L k e)) es ?s"
  proof (rule fold_cong [OF refl refl])
    fix x
    assume "x \<in> set es"
    then have "plugin_timers L1 k1 x = plugin_timers L k x" using Cons.prems(2) \<open>e \<notin> set es\<close> by (intro 1(6)) auto
    then show "call_all g x (ck_upsec k1) (plugin_timers L1 k1 x) = call_all g x (ck_upsec k) (plugin_timers L k x)" by (simp add: 1(3))
  qed
  moreover have "plugin_timers L2 k2 e' = (if e' \<in> set (e # es) then kept_timers (ck_upsec k) (plugin_timers L k e') else plugin_timers L k e')" if "e' \<in> E" for e'
    using 2(5) that 1(3,5,6) \<open>e \<notin> set es\<close> by (cases "e' = e") auto
  ultimately show ?case using 1(1,3,4) 2(1-4) by (intro exI [of _ k2] exI [of _ L2]) auto
qed

section \<open>The schedule\<close>

text \<open>
  What the clock and the lists of timers mean: the seconds that have passed, and for every plugin its
  timers. \<open>Tick now\<close> is the clock of the event loop at the time \<open>now\<close>, \<open>Add\<close> a plugin that adds a
  timer.
\<close>

record schedule =
  sc_time :: int
  sc_upsec :: int
  sc_timers :: "addr \<Rightarrow> timer list"

datatype timer_op = Tick int | Add bool addr int bool nat nat

fun timer_step :: "'s timer_fun \<Rightarrow> addr list list \<Rightarrow> timer_op \<Rightarrow> 's \<times> clock \<Rightarrow> (unit \<times> 's \<times> clock) option" where
  "timer_step call table (Tick now) sk = map_option (Pair ()) (time_up call table now sk)"
| "timer_step call table (Add ok e timeout rpt f d) sk = Some ((), fst sk, moc_add_timer ok e timeout rpt f d (snd sk))"

fun sched_step :: "(nat \<Rightarrow> addr \<Rightarrow> int \<Rightarrow> nat \<Rightarrow> 's \<Rightarrow> 's) \<Rightarrow> addr list list \<Rightarrow> timer_op \<Rightarrow> 's \<times> schedule \<Rightarrow> (unit \<times> 's \<times> schedule) option" where
  "sched_step g table (Tick now) (s, c) =
     (if now \<le> sc_time c then Some ((), s, c\<lparr>sc_time := now\<rparr>)
      else let u = sc_upsec c + (now - sc_time c) in
        Some ((), fold (\<lambda>e. call_all g e u (sc_timers c e)) (concat table) s,
              c\<lparr>sc_time := now, sc_upsec := u, sc_timers := (\<lambda>e. kept_timers u (sc_timers c e))\<rparr>))"
| "sched_step g table (Add ok e timeout rpt f d) (s, c) =
     Some ((), s, if ok then c\<lparr>sc_timers := (sc_timers c)(e := \<lparr>ti_timeout = timeout, ti_repeat = rpt, ti_fun = f, ti_data = d\<rparr> # sc_timers c e)\<rparr> else c)"

definition sched_rep :: "addr list list \<Rightarrow> 's \<times> clock \<Rightarrow> 's \<times> schedule \<Rightarrow> bool" where
  "sched_rep table sk sc \<longleftrightarrow> (case sk of (s, k) \<Rightarrow> case sc of (s', c) \<Rightarrow> s' = s \<and> distinct (concat table)
     \<and> sc_time c = ck_ctime k \<and> sc_upsec c = ck_upsec k
     \<and> (\<exists>L. timers_ok (set (concat table)) L k \<and> (\<forall>e \<in> set (concat table). sc_timers c e = plugin_timers L k e)))"

text \<open>Timers are added to plugins of the table.\<close>

fun of_table :: "addr list list \<Rightarrow> timer_op \<Rightarrow> 's \<Rightarrow> bool" where
  "of_table table (Tick now) sk = True"
| "of_table table (Add ok e timeout rpt f d) sk = (e \<in> set (concat table))"

lemma timers_ok_clock: "timers_ok E L (k\<lparr>ck_ctime := x\<rparr>) = timers_ok E L k" "timers_ok E L (k\<lparr>ck_upsec := y\<rparr>) = timers_ok E L k"
  "plugin_timers L (k\<lparr>ck_ctime := x\<rparr>) = plugin_timers L k" "plugin_timers L (k\<lparr>ck_upsec := y\<rparr>) = plugin_timers L k"
  by (simp_all add: timers_ok_def tlist_def plugin_timers_def timer_at_def fun_eq_iff)

lemma tick_sim:
  assumes "sched_rep table (s, k) (s, c)" "sched_step g table (Tick now) (s, c) = Some ((), s', c')"
  shows "\<exists>k'. time_up (on_plugins g) table now (s, k) = Some (s', k') \<and> sched_rep table (s', k') (s', c')"
proof (cases "now \<le> sc_time c")
  case True
  then show ?thesis using assms by (auto simp: sched_rep_def time_up_def timers_ok_clock)
next
  case False
  obtain L where L: "timers_ok (set (concat table)) L k" "\<And>e. e \<in> set (concat table) \<Longrightarrow> sc_timers c e = plugin_timers L k e" "distinct (concat table)"
    "sc_time c = ck_ctime k" "sc_upsec c = ck_upsec k" using assms(1) unfolding sched_rep_def by blast
  let ?u = "sc_upsec c + (now - sc_time c)"
  let ?k = "k\<lparr>ck_upsec := ?u, ck_ctime := now\<rparr>"
  have ok: "timers_ok (set (concat table)) L ?k" using L(1) by (simp add: timers_ok_clock)
  from run_entries_ok [OF this subset_refl L(3), of g s] obtain k' L' where k':
      "run_entries (on_plugins g) (concat table) (s, ?k) = Some (fold (\<lambda>e. call_all g e ?u (plugin_timers L k e)) (concat table) s, k')"
      "timers_ok (set (concat table)) L' k'" "ck_upsec k' = ?u" "ck_ctime k' = now"
      "\<forall>e \<in> set (concat table). plugin_timers L' k' e = kept_timers ?u (plugin_timers L k e)" by (auto simp: timers_ok_clock)
  have "fold (\<lambda>e. call_all g e ?u (plugin_timers L k e)) (concat table) s = s'"
    using assms(2) False L(2) by (auto simp: Let_def intro!: fold_cong)
  moreover have "c' = c\<lparr>sc_time := now, sc_upsec := ?u, sc_timers := (\<lambda>e. kept_timers ?u (sc_timers c e))\<rparr>"
    using assms(2) False by (auto simp: Let_def)
  moreover have "time_up (on_plugins g) table now (s, k) = run_entries (on_plugins g) (concat table) (s, ?k)"
    using False L(4,5) by (simp add: time_up_def Let_def)
  moreover have "\<forall>e \<in> set (concat table). kept_timers ?u (sc_timers c e) = plugin_timers L' k' e" using k'(5) by (simp add: L(2) del: set_concat)
  then have "sched_rep table (s', k') (s', c\<lparr>sc_time := now, sc_upsec := ?u, sc_timers := (\<lambda>e. kept_timers ?u (sc_timers c e))\<rparr>)"
    using k'(2-4) L(3) unfolding sched_rep_def by (simp del: set_concat) blast
  ultimately show ?thesis using k'(1) by simp
qed

lemma add_timer_ok:
  assumes L: "timers_ok E L k" and e: "e \<in> E"
    and k1_def: "k1 = moc_add_timer True e timeout rpt f d k"
  shows "timers_ok E (L(e := ck_next k # L e)) k1"
    and "x \<in> E \<Longrightarrow> plugin_timers (L(e := ck_next k # L e)) k1 x =
       (if x = e then \<lparr>ti_timeout = timeout, ti_repeat = rpt, ti_fun = f, ti_data = d\<rparr> # plugin_timers L k e else plugin_timers L k x)"
proof -
  let ?a = "ck_next k" and ?L = "L(e := ck_next k # L e)"
  have new: "?a \<notin> set (L x)" if "x \<in> E" for x using timers_ok_addr [OF L that, of ?a] by auto
  have heap: "ck_heap k1 b = ck_heap k b" if "b \<noteq> ?a" for b using that by (simp add: k1_def moc_add_timer_def Let_def)
  have keep: "ck_heap k1 b = ck_heap k b" if "x \<in> E" "b \<in> set (L x)" for x b using new [OF that(1)] that(2) by (intro heap) auto
  have head: "ck_timers k1 e = Some ?a" "ck_timers k1 x = ck_timers k x" if "x \<noteq> e" for x using that by (simp_all add: k1_def moc_add_timer_def Let_def)
  have nx: "ck_heap k1 ?a = Some \<lparr>tm_timeout = timeout, tm_repeat = rpt, tm_timer = f, tm_data = d, tm_next = ck_timers k e\<rparr>" "ck_next k1 = ?a + 1"
    by (simp_all add: k1_def moc_add_timer_def Let_def)
  have disj: "set (L x) \<inter> set (L y) = {}" if "x \<in> E" "y \<in> E" "x \<noteq> y" for x y using L that by (auto simp: timers_ok_def)
  have list: "tlist k x (L x)" if "x \<in> E" for x using L that by (simp add: timers_ok_def)
  have "tlist k1 x (L x)" if "x \<in> E" "x \<noteq> e" for x
    by (rule tlist_frame [OF list [OF that(1)]]) (simp_all add: head(2) [OF that(2)] keep [OF that(1)])
  moreover have "tpath (ck_heap k1) (ck_timers k e) (L e) None" "distinct (L e)"
    using list [OF e] tpath_cong [of "L e" "ck_heap k1" "ck_heap k"] keep [OF e] by (auto simp: tlist_def)
  then have "tlist k1 e (?a # L e)" using new [OF e] nx(1) by (simp add: tlist_def k1_def moc_add_timer_def Let_def)
  moreover have "set (?L x) \<inter> set (?L y) = {}" if "x \<in> E" "y \<in> E" "x \<noteq> y" for x y
    using disj [OF that] new [OF that(1)] new [OF that(2)] that(3) by auto
  moreover have "ck_heap k1 b = None" if "b \<ge> ck_next k1" for b using that nx(2) heap [of b] L by (simp add: timers_ok_def)
  ultimately show "timers_ok E ?L k1" by (simp add: timers_ok_def)
  have "timer_at k1 b = timer_at k b" if "x \<in> E" "b \<in> set (L x)" for x b using keep [OF that] by (simp add: timer_at_def)
  then show "plugin_timers ?L k1 x = (if x = e then \<lparr>ti_timeout = timeout, ti_repeat = rpt, ti_fun = f, ti_data = d\<rparr> # plugin_timers L k e else plugin_timers L k x)"
    if "x \<in> E" using that e nx(1) by (simp add: plugin_timers_def) (simp add: timer_at_def timer_of_def)
qed

lemma add_sim:
  assumes "sched_rep table (s, k) (s, c)" "e \<in> set (concat table)"
  shows "sched_rep table (s, moc_add_timer True e timeout rpt f d k)
     (s, c\<lparr>sc_timers := (sc_timers c)(e := \<lparr>ti_timeout = timeout, ti_repeat = rpt, ti_fun = f, ti_data = d\<rparr> # sc_timers c e)\<rparr>)"
proof -
  let ?E = "set (concat table)" and ?k = "moc_add_timer True e timeout rpt f d k"
  obtain L where L: "timers_ok ?E L k" "\<forall>e \<in> ?E. sc_timers c e = plugin_timers L k e" "distinct (concat table)"
    "sc_time c = ck_ctime k" "sc_upsec c = ck_upsec k" using assms(1) unfolding sched_rep_def by blast
  have "ck_ctime ?k = ck_ctime k" "ck_upsec ?k = ck_upsec k" by (simp_all add: moc_add_timer_def Let_def)
  moreover have "\<forall>x \<in> ?E. ((sc_timers c)(e := \<lparr>ti_timeout = timeout, ti_repeat = rpt, ti_fun = f, ti_data = d\<rparr> # sc_timers c e)) x
      = plugin_timers (L(e := ck_next k # L e)) ?k x"
    using add_timer_ok(2) [OF L(1) assms(2) refl, of _ timeout rpt f d] L(2) assms(2) by (simp del: set_concat)
  ultimately show ?thesis using add_timer_ok(1) [OF L(1) assms(2) refl, of timeout rpt f d] L(3-5)
    unfolding sched_rep_def by (simp del: set_concat) blast
qed

lemma timer_step_sim:
  assumes "sched_rep table sk sc" "of_table table x sk" "sched_step g table x sc = Some (r, sc')"
  shows "\<exists>sk'. timer_step (on_plugins g) table x sk = Some (r, sk') \<and> sched_rep table sk' sc'"
proof -
  obtain s k c where *: "sk = (s, k)" "sc = (s, c)" using assms(1) by (cases sk, cases sc) (auto simp: sched_rep_def)
  show ?thesis
  proof (cases x)
    case (Tick now)
    then show ?thesis using tick_sim [of table s k c g now "fst sc'" "snd sc'"] assms * by auto
  next
    case (Add ok e t r f d)
    then show ?thesis using add_sim [of table s k c e] assms * by (cases ok) (auto simp: moc_add_timer_def)
  qed
qed

interpretation tm: simulation "timer_step (on_plugins g) table" "sched_step g table" "sched_rep table" "of_table table" for g table
  by unfold_locales (rule timer_step_sim)


definition clock_start :: clock where
  "clock_start = \<lparr>ck_ctime = 0, ck_upsec = 0, ck_timers = (\<lambda>_. None), ck_heap = (\<lambda>_. None), ck_next = 1\<rparr>"

definition schedule_start :: schedule where
  "schedule_start = \<lparr>sc_time = 0, sc_upsec = 0, sc_timers = (\<lambda>_. [])\<rparr>"

text \<open>A timer function that notes that it was called.\<close>

definition note_call :: "nat \<Rightarrow> addr \<Rightarrow> int \<Rightarrow> nat \<Rightarrow> (nat \<times> addr \<times> int \<times> nat) list \<Rightarrow> (nat \<times> addr \<times> int \<times> nat) list" where
  "note_call f e u d s = s @ [(f, e, u, d)]"

lemma start_rep: "distinct (concat table) \<Longrightarrow> sched_rep table (s, clock_start) (s, schedule_start)"
  unfolding sched_rep_def by (simp add: clock_start_def schedule_start_def timers_ok_def tlist_def plugin_timers_def exI [of _ "\<lambda>_. []"])


section \<open>When a timer is called\<close>

text \<open>The seconds at which the timer \<open>t\<close> of the plugin \<open>e\<close> was called, and those at which its turn comes.\<close>

definition called_at :: "addr \<Rightarrow> timer \<Rightarrow> (nat \<times> addr \<times> int \<times> nat) list \<Rightarrow> int list" where
  "called_at e t calls = map (\<lambda>(f, e', u, d). u) (filter (\<lambda>(f, e', u, d). f = ti_fun t \<and> e' = e \<and> d = ti_data t) calls)"

definition turns :: "timer \<Rightarrow> int \<Rightarrow> nat \<Rightarrow> int list" where
  "turns t u n = filter (\<lambda>v. due v t) (map (\<lambda>i. u + 1 + int i) [0..<n])"

lemma called_at_simps [simp]:
  "called_at e t [] = []" "called_at e t (xs @ ys) = called_at e t xs @ called_at e t ys"
  by (simp_all add: called_at_def)

lemma turns_simps [simp]: "turns t u 0 = []" "turns t u (Suc n) = (if due (u + 1) t then [u + 1] else []) @ turns t (u + 1) n"
proof -
  have "[0..<Suc n] = 0 # map Suc [0..<n]" by (simp add: map_Suc_upt upt_conv_Cons del: upt_Suc)
  then show "turns t u (Suc n) = (if due (u + 1) t then [u + 1] else []) @ turns t (u + 1) n"
    by (simp add: turns_def comp_def algebra_simps del: upt_Suc)
qed (simp add: turns_def)

lemma turns_length: "length (turns t u n) \<le> n"
  using length_filter_le [of "\<lambda>v. due v t" "map (\<lambda>i. u + 1 + int i) [0..<n]"] by (simp add: turns_def)

text \<open>One second of the schedule: what it appends to the notes, and what it means for one timer.\<close>

definition positive :: "timer list \<Rightarrow> bool" where
  "positive ts \<longleftrightarrow> list_all (\<lambda>t. 0 < ti_timeout t) ts"

definition key_of :: "timer \<Rightarrow> nat \<times> nat" where
  "key_of t = (ti_fun t, ti_data t)"

definition second_calls :: "int \<Rightarrow> (addr \<Rightarrow> timer list) \<Rightarrow> addr list \<Rightarrow> (nat \<times> addr \<times> int \<times> nat) list" where
  "second_calls u T es = concat (map (\<lambda>e. map (\<lambda>t. (ti_fun t, e, u, ti_data t)) (filter (due u) (walked (T e)))) es)"

lemma call_all_notes: "call_all note_call e u ts s = s @ map (\<lambda>t. (ti_fun t, e, u, ti_data t)) (filter (due u) (walked ts))"
  by (induction ts arbitrary: s) (auto simp: note_call_def)

lemma fold_notes: "fold (\<lambda>e. call_all note_call e u (T e)) es s = s @ second_calls u T es"
  by (induction es arbitrary: s) (simp_all add: second_calls_def call_all_notes)

lemma walked_positive: "positive ts \<Longrightarrow> walked ts = ts"
  by (induction ts) (auto simp: positive_def)

lemma kept_positive: "positive ts \<Longrightarrow> kept_timers u ts = filter (\<lambda>t. ti_repeat t \<or> \<not> due u t) ts"
  by (simp add: kept_timers_def walked_positive)

lemma called_second:
  "called_at e t (map (\<lambda>t. (ti_fun t, e', u, ti_data t)) ts) = (if e' = e then map (\<lambda>_. u) (filter (\<lambda>x. key_of x = key_of t) ts) else [])"
  by (auto simp: called_at_def filter_map comp_def key_of_def intro!: filter_cong)

lemma only_key:
  assumes "distinct (map key_of ts)" "t \<in> set ts"
  shows "filter (\<lambda>x. P x \<and> key_of x = key_of t) ts = (if P t then [t] else [])"
  using assms
proof (induction ts)
  case (Cons a ts)
  have none: "filter (\<lambda>x. P x \<and> key_of x = key_of t) ts = []" if "a = t"
    using Cons.prems(1) that by (auto simp: filter_empty_conv image_iff)
  show ?case
  proof (cases "a = t")
    case False
    then have "t \<in> set ts" "key_of a \<noteq> key_of t" using Cons.prems by (auto simp: image_iff)
    then show ?thesis using Cons by simp
  qed (simp add: none)
qed simp

lemma second_called:
  assumes "distinct es" "e \<in> set es" "positive (T e)" "distinct (map key_of (T e))"
  shows "t \<in> set (T e) \<Longrightarrow> called_at e t (second_calls u T es) = (if due u t then [u] else [])"
    and "key_of t \<notin> key_of ` set (T e) \<Longrightarrow> called_at e t (second_calls u T es) = []"
proof -
  have one: "called_at e t (second_calls u T es) = map (\<lambda>_. u) (filter (\<lambda>x. due u x \<and> key_of x = key_of t) (T e))"
    using assms(1,2)
  proof (induction es)
    case (Cons a es)
    have none: "called_at e t (second_calls u T es) = []" if "e \<notin> set es" for es
      using that by (induction es) (auto simp: second_calls_def called_second)
    show ?case
    proof (cases "a = e")
      case True
      then show ?thesis using none [of es] Cons.prems walked_positive [OF assms(3)]
        by (auto simp: second_calls_def called_second)
    next
      case False
      then show ?thesis using Cons by (simp add: second_calls_def called_second)
    qed
  qed simp
  show "called_at e t (second_calls u T es) = (if due u t then [u] else [])" if "t \<in> set (T e)"
    by (simp add: one only_key [OF assms(4) that])
  show "called_at e t (second_calls u T es) = []" if "key_of t \<notin> key_of ` set (T e)"
    using that unfolding one by (auto simp: filter_empty_conv image_iff)
qed

definition seconds :: "int \<Rightarrow> nat \<Rightarrow> timer_op list" where
  "seconds c n = map (\<lambda>i. Tick (c + 1 + int i)) [0..<n]"

lemma seconds_simps [simp]: "seconds c 0 = []" "seconds c (Suc n) = Tick (c + 1) # seconds (c + 1) n"
proof -
  have "[0..<Suc n] = 0 # map Suc [0..<n]" by (simp add: map_Suc_upt upt_conv_Cons del: upt_Suc)
  then show "seconds c (Suc n) = Tick (c + 1) # seconds (c + 1) n"
    by (simp add: seconds_def comp_def algebra_simps del: upt_Suc)
qed (simp add: seconds_def)

lemma seconds_ok: "run_ok (timer_step call table) (of_table table) (seconds c n) sk"
  by (induction n arbitrary: c sk) (auto split: option.splits)

lemma schedule_seconds:
  assumes "distinct (concat table)" "e \<in> set (concat table)" "positive (sc_timers c e)" "distinct (map key_of (sc_timers c e))"
  shows "\<exists>calls c'. run_ops (sched_step note_call table) (seconds (sc_time c) n) (s, c) = Some (replicate n (), s @ calls, c')
     \<and> (\<forall>t \<in> set (sc_timers c e). called_at e t calls = take (if ti_repeat t then n else 1) (turns t (sc_upsec c) n))
     \<and> (\<forall>t. key_of t \<notin> key_of ` set (sc_timers c e) \<longrightarrow> called_at e t calls = [])"
  using assms(3,4)
proof (induction n arbitrary: s c)
  case 0
  then show ?case by simp
next
  case (Suc n)
  let ?u = "sc_upsec c + 1" and ?T = "sc_timers c" and ?es = "concat table"
  let ?c = "c\<lparr>sc_time := sc_time c + 1, sc_upsec := ?u, sc_timers := (\<lambda>e. kept_timers ?u (?T e))\<rparr>"
  have kept: "sc_timers ?c e = filter (\<lambda>t. ti_repeat t \<or> \<not> due ?u t) (?T e)" using kept_positive [OF Suc.prems(1)] by simp
  have pos: "positive (sc_timers ?c e)" "distinct (map key_of (sc_timers ?c e))"
    using Suc.prems unfolding kept by (auto simp: positive_def list_all_iff distinct_map inj_on_def)
  from Suc.IH [OF pos, of "s @ second_calls ?u ?T ?es"] obtain calls c' where 1:
      "run_ops (sched_step note_call table) (seconds (sc_time c + 1) n) (s @ second_calls ?u ?T ?es, ?c) = Some (replicate n (), (s @ second_calls ?u ?T ?es) @ calls, c')"
      "\<And>t. t \<in> set (sc_timers ?c e) \<Longrightarrow> called_at e t calls = take (if ti_repeat t then n else 1) (turns t ?u n)"
      "\<And>t. key_of t \<notin> key_of ` set (sc_timers ?c e) \<Longrightarrow> called_at e t calls = []"
    by auto
  have step: "sched_step note_call table (Tick (sc_time c + 1)) (s, c) = Some ((), s @ second_calls ?u ?T ?es, ?c)"
    by (simp add: fold_notes Let_def)
  note second = second_called [where T = ?T and u = ?u, OF assms(1,2) Suc.prems]
  have "called_at e t (second_calls ?u ?T ?es @ calls) = take (if ti_repeat t then Suc n else 1) (turns t (sc_upsec c) (Suc n))" if t: "t \<in> set (?T e)" for t
  proof (cases "ti_repeat t \<or> \<not> due ?u t")
    case True
    then have "called_at e t calls = take (if ti_repeat t then n else 1) (turns t ?u n)" using 1(2) t kept by simp
    moreover have "take n (turns t ?u n) = turns t ?u n" "take (Suc n) (turns t ?u n) = turns t ?u n" using turns_length [of t ?u n] by simp_all
    ultimately show ?thesis using True second(1) [OF t] by auto
  next
    case False
    then have "key_of t \<notin> key_of ` set (sc_timers ?c e)" using Suc.prems(2) t unfolding kept by (auto simp: distinct_map inj_on_def)
    then show ?thesis using False second(1) [OF t] 1(3) by simp
  qed
  moreover have "called_at e t (second_calls ?u ?T ?es @ calls) = []" if "key_of t \<notin> key_of ` set (?T e)" for t
  proof -
    have "key_of t \<notin> key_of ` set (sc_timers ?c e)" using that unfolding kept by auto
    then show ?thesis using second(2) [OF that] 1(3) by simp
  qed
  ultimately show ?case using 1(1) step by (intro exI [of _ "second_calls ?u ?T ?es @ calls"] exI [of _ c']) simp
qed

text \<open>
  C23. A timer is called at the multiples of its timeout. When the clock of the event loop shows every
  second, and the timers of a plugin have positive timeouts, then in any number of seconds a
  repeating timer is called exactly at the seconds its timeout divides, in order and once each; one
  that does not repeat is called at the first of them only.
\<close>

theorem timers_on_time:
  assumes "sched_rep table ([] :: (nat \<times> addr \<times> int \<times> nat) list, k) ([], c)" "e \<in> set (concat table)" "t \<in> set (sc_timers c e)"
    and "list_all (\<lambda>t. 0 < ti_timeout t) (sc_timers c e)" "distinct (map key_of (sc_timers c e))"
  shows "\<exists>calls k'. run_ops (timer_step (on_plugins note_call) table) (seconds (ck_ctime k) n) ([], k) = Some (replicate n (), calls, k')
     \<and> called_at e t calls = take (if ti_repeat t then n else 1) (filter (\<lambda>u. u mod ti_timeout t = 0) (map (\<lambda>i. ck_upsec k + 1 + int i) [0..<n]))"
proof -
  have c: "distinct (concat table)" "sc_time c = ck_ctime k" "sc_upsec c = ck_upsec k" using assms(1) by (auto simp: sched_rep_def)
  from schedule_seconds [OF c(1) assms(2) _ assms(5), of n "[]"] assms(4) obtain calls c' where
      run: "run_ops (sched_step note_call table) (seconds (ck_ctime k) n) ([], c) = Some (replicate n (), calls, c')"
      "called_at e t calls = take (if ti_repeat t then n else 1) (turns t (ck_upsec k) n)"
    using assms(3) c(2,3) by (auto simp: positive_def)
  from tm.run_sim [OF assms(1) seconds_ok run(1)] run(2) show ?thesis by (auto simp: sched_rep_def turns_def due_def)
qed

theorem timers_on_time_witness:
  "\<exists>k1 calls k'. k1 = moc_add_timer True 4 2 True 6 7 (moc_add_timer True 4 3 False 8 9 clock_start)
     \<and> run_ops (timer_step (on_plugins note_call) [[4], [5]]) (seconds 0 7) ([], k1) = Some (replicate 7 (), calls, k')
     \<and> called_at 4 \<lparr>ti_timeout = 2, ti_repeat = True, ti_fun = 6, ti_data = 7\<rparr> calls = [2, 4, 6]"
proof -
  let ?table = "[[4], [5 :: addr]]" and ?s = "[] :: (nat \<times> addr \<times> int \<times> nat) list"
  let ?k = "moc_add_timer True 4 2 True 6 7 (moc_add_timer True 4 3 False 8 9 clock_start)"
  let ?t = "\<lparr>ti_timeout = 2, ti_repeat = True, ti_fun = 6, ti_data = 7\<rparr>" and ?t' = "\<lparr>ti_timeout = 3, ti_repeat = False, ti_fun = 8, ti_data = 9\<rparr>"
  let ?c = "schedule_start\<lparr>sc_timers := (\<lambda>_. [])(4 := [?t'])\<rparr>\<lparr>sc_timers := ((\<lambda>_. [])(4 := [?t']))(4 := [?t, ?t'])\<rparr>"
  have d: "distinct (concat ?table)" "4 \<in> set (concat ?table)" by simp_all
  from add_sim [OF add_sim [OF start_rep [OF d(1)] d(2)] d(2), of ?s 2 True 6 7 3 False 8 9]
  have rep: "sched_rep ?table (?s, ?k) (?s, ?c)" by (simp add: schedule_start_def)
  have "ck_ctime ?k = 0" "ck_upsec ?k = 0" by (simp_all add: moc_add_timer_def clock_start_def Let_def)
  moreover have "filter (\<lambda>u. u mod 2 = 0) (map (\<lambda>i. 0 + 1 + int i) [0..<7]) = [2, 4, 6]" by code_simp
  ultimately show ?thesis using timers_on_time [OF rep d(2), of ?t 7] by (auto simp: key_of_def)
qed

section \<open>A timer function that adds a timer\<close>

definition adds_timer :: "unit timer_fun" where
  "adds_timer = (\<lambda>f e u d sk. (fst sk, moc_add_timer True e 1 True 2 0 (snd sk)))"


end
