(* ===== verification/Neo_Wildmat.thy ===== *)
theory Neo_Wildmat
  imports Cstring
begin

text \<open>
  Shell patterns (clearsilver/util/wildmat.c): \<open>DoMatch\<close> and its twin without regard to case, with the
  result ABORT that cuts the search short, against a description of what a pattern matches.

  A pattern is the list of its characters before the NUL: a read behind the NUL, which malformed
  patterns cause, is \<open>None\<close>. Both functions are one definition here, with the function the
  characters go through before they are compared: none, or \<open>toupper\<close>.
\<close>

section \<open>The matcher\<close>

datatype match = MATCH_TRUE | MATCH_FALSE | MATCH_ABORT

definition toupper :: "char \<Rightarrow> char" where
  "toupper c = (if 97 \<le> (of_char c :: nat) \<and> of_char c \<le> (122 :: nat) then char_of (of_char c - 32 :: nat) else c)"

text \<open>The value of a \<open>char\<close>, which is signed.\<close>

definition schar :: "char \<Rightarrow> int" where
  "schar c = (if of_char c < (128 :: int) then of_char c else of_char c - 256)"

text \<open>
  The loop over a character class, with \<open>prev\<close> the character before; the result is whether it matched, and
  what follows the bracket, or nothing when the pattern ended inside the class.
\<close>

fun class_loop :: "(char \<Rightarrow> char) \<Rightarrow> char \<Rightarrow> char \<Rightarrow> bool \<Rightarrow> string \<Rightarrow> (bool \<times> string option) option" where
  "class_loop f t prev matched [] = Some (matched, None)"
| "class_loop f t prev matched (c # ps) =
     (if c = CHR '']'' then Some (matched, Some ps)
      else if c = CHR ''-'' \<and> (ps = [] \<or> hd ps \<noteq> CHR '']'') then
        (case ps of
           [] \<Rightarrow> None
         | d # ps' \<Rightarrow> class_loop f t (f d) (matched \<or> (schar (f t) \<le> schar (f d) \<and> schar prev \<le> schar (f t))) ps')
      else class_loop f t (f c) (matched \<or> f t = f c) ps)"

definition match_class :: "(char \<Rightarrow> char) \<Rightarrow> char \<Rightarrow> string \<Rightarrow> (bool \<times> string option) option" where
  "match_class f t ps =
     (let reverse = (ps \<noteq> [] \<and> hd ps = CHR ''^'');
          cur = (if reverse then CHR ''^'' else CHR ''['');
          ps1 = (if reverse then tl ps else ps);
          bracket = (ps1 \<noteq> [] \<and> (hd ps1 = CHR '']'' \<or> hd ps1 = CHR ''-'')) in
      map_option (\<lambda>(m, rest). (m \<noteq> reverse, rest))
        (if bracket then class_loop f t (f (hd ps1)) (f (hd ps1) = f t) (tl ps1) else class_loop f t (f cur) False ps1))"

lemma class_loop_shorter: "class_loop f t prv m ps = Some (r, Some qs) \<Longrightarrow> length qs < length ps"
  by (induction f t prv m ps rule: class_loop.induct) (force split: if_splits list.splits)+

lemma match_class_shorter: "match_class f t ps = Some (r, Some qs) \<Longrightarrow> length qs \<le> length ps"
  by (force simp: match_class_def Let_def split: if_splits dest: class_loop_shorter)

function do_match :: "(char \<Rightarrow> char) \<Rightarrow> string \<Rightarrow> string \<Rightarrow> match option"
  and match_star :: "(char \<Rightarrow> char) \<Rightarrow> string \<Rightarrow> string \<Rightarrow> match option" where
  "do_match f text [] = Some (if text = [] then MATCH_TRUE else MATCH_FALSE)"
| "do_match f text (c # ps) =
     (if c = CHR ''*'' then
        (let q = dropWhile (\<lambda>x. x = CHR ''*'') ps in if q = [] then Some MATCH_TRUE else match_star f text q)
      else
        (case text of
           [] \<Rightarrow> Some MATCH_ABORT
         | t # ts \<Rightarrow>
             if c = CHR 92 then
               (case ps of
                  [] \<Rightarrow> Some MATCH_FALSE
                | d # qs \<Rightarrow> if f t \<noteq> f d then Some MATCH_FALSE else do_match f ts qs)
             else if c = CHR ''?'' then do_match f ts ps
             else if c = CHR ''['' then
               (case match_class f t ps of
                  None \<Rightarrow> None
                | Some (ok, rest) \<Rightarrow>
                    if \<not> ok then Some MATCH_FALSE
                    else (case rest of None \<Rightarrow> None | Some qs \<Rightarrow> do_match f ts qs))
             else if f t \<noteq> f c then Some MATCH_FALSE
             else do_match f ts ps))"
| "match_star f [] q = Some MATCH_ABORT"
| "match_star f (t # ts) q =
     (case do_match f (t # ts) q of
        None \<Rightarrow> None
      | Some r \<Rightarrow> if r \<noteq> MATCH_FALSE then Some r else match_star f ts q)"
  by pat_completeness auto
termination
  by (relation "measures [\<lambda>x. case x of Inl (f, text, p) \<Rightarrow> 2 * length p | Inr (f, text, q) \<Rightarrow> 2 * length q + 1,
        \<lambda>x. case x of Inl (f, text, p) \<Rightarrow> 0 | Inr (f, text, q) \<Rightarrow> length text]")
     (auto simp: less_Suc_eq_le intro: length_dropWhile_le order_trans dest: match_class_shorter)

definition DoMatch :: "string \<Rightarrow> string \<Rightarrow> match option" where
  "DoMatch s p = do_match (\<lambda>c. c) s p"

definition DoMatchCaseInsensitive :: "string \<Rightarrow> string \<Rightarrow> match option" where
  "DoMatchCaseInsensitive s p = do_match toupper s p"

definition wildmat :: "string \<Rightarrow> string \<Rightarrow> bool option" where
  "wildmat text p = (if p = ''*'' then Some True else map_option (\<lambda>r. r = MATCH_TRUE) (DoMatch text p))"

definition wildmatcase :: "string \<Rightarrow> string \<Rightarrow> bool option" where
  "wildmatcase text p = (if p = ''*'' then Some True else map_option (\<lambda>r. r = MATCH_TRUE) (DoMatchCaseInsensitive text p))"

section \<open>What a pattern matches\<close>

datatype item = Single char | Range char char
datatype tok = Lit char | Any_Char | Star | Class bool "item list"

fun item_matches :: "(char \<Rightarrow> char) \<Rightarrow> char \<Rightarrow> item \<Rightarrow> bool" where
  "item_matches f t (Single c) \<longleftrightarrow> f t = f c"
| "item_matches f t (Range lo hi) \<longleftrightarrow> schar (f lo) \<le> schar (f t) \<and> schar (f t) \<le> schar (f hi)"

fun tok_matches :: "(char \<Rightarrow> char) \<Rightarrow> char \<Rightarrow> tok \<Rightarrow> bool" where
  "tok_matches f t (Lit c) \<longleftrightarrow> f t = f c"
| "tok_matches f t (Class neg is) \<longleftrightarrow> list_ex (item_matches f t) is \<noteq> neg"
| "tok_matches f t x \<longleftrightarrow> True"

fun glob :: "(char \<Rightarrow> char) \<Rightarrow> tok list \<Rightarrow> string \<Rightarrow> bool" where
  "glob f [] s \<longleftrightarrow> s = []"
| "glob f (Star # xs) s \<longleftrightarrow> (\<exists>k \<le> length s. glob f xs (drop k s))"
| "glob f (x # xs) s \<longleftrightarrow> (case s of [] \<Rightarrow> False | t # ts \<Rightarrow> tok_matches f t x \<and> glob f xs ts)"

text \<open>The pieces of a pattern; \<open>None\<close> when a bracket is not closed or a backslash is at the end.\<close>

fun class_items :: "char \<Rightarrow> string \<Rightarrow> (item list \<times> string) option" where
  "class_items prv [] = None"
| "class_items prv (c # ps) =
     (if c = CHR '']'' then Some ([], ps)
      else if c = CHR ''-'' \<and> (ps = [] \<or> hd ps \<noteq> CHR '']'') then
        (case ps of [] \<Rightarrow> None | d # ps' \<Rightarrow> map_option (\<lambda>(is, r). (Range prv d # is, r)) (class_items d ps'))
      else map_option (\<lambda>(is, r). (Single c # is, r)) (class_items c ps))"

definition class_tok :: "string \<Rightarrow> (tok \<times> string) option" where
  "class_tok ps =
     (let reverse = (ps \<noteq> [] \<and> hd ps = CHR ''^''); ps1 = (if reverse then tl ps else ps) in
      map_option (\<lambda>(is, r). (Class reverse is, r))
        (if ps1 \<noteq> [] \<and> (hd ps1 = CHR '']'' \<or> hd ps1 = CHR ''-'')
         then map_option (\<lambda>(is, r). (Single (hd ps1) # is, r)) (class_items (hd ps1) (tl ps1))
         else class_items (if reverse then CHR ''^'' else CHR ''['') ps1))"

lemma class_items_shorter: "class_items prv ps = Some (is, r) \<Longrightarrow> length r < length ps"
  by (induction prv ps arbitrary: "is" rule: class_items.induct) (force split: if_splits list.splits)+

lemma class_tok_shorter: "class_tok ps = Some (x, r) \<Longrightarrow> length r \<le> length ps"
  by (force simp: class_tok_def Let_def split: if_splits dest: class_items_shorter)

function tokens :: "string \<Rightarrow> tok list option" where
  "tokens [] = Some []"
| "tokens (c # ps) =
     (if c = CHR ''*'' then map_option ((#) Star) (tokens ps)
      else if c = CHR 92 then (case ps of [] \<Rightarrow> None | d # qs \<Rightarrow> map_option ((#) (Lit d)) (tokens qs))
      else if c = CHR ''?'' then map_option ((#) Any_Char) (tokens ps)
      else if c = CHR ''['' then (case class_tok ps of None \<Rightarrow> None | Some (x, qs) \<Rightarrow> map_option ((#) x) (tokens qs))
      else map_option ((#) (Lit c)) (tokens ps))"
  by pat_completeness auto
termination
  by (relation "measure length") (auto simp: less_Suc_eq_le dest: class_tok_shorter)

text \<open>The classes.\<close>

lemma class_loop_items:
  "class_items prv ps = Some (is, r) \<Longrightarrow> class_loop f t (f prv) m ps = Some (m \<or> list_ex (item_matches f t) is, Some r)"
proof (induction prv ps arbitrary: m "is" rule: class_items.induct)
  case (2 prv c ps)
  consider "c = CHR '']''" | "c \<noteq> CHR '']''" "c = CHR ''-'' \<and> (ps = [] \<or> hd ps \<noteq> CHR '']'')"
    | "c \<noteq> CHR '']''" "\<not> (c = CHR ''-'' \<and> (ps = [] \<or> hd ps \<noteq> CHR '']''))" by blast
  then show ?case
  proof cases
    case 2
    then obtain d ps' is' where d: "ps = d # ps'" "class_items d ps' = Some (is', r)" "is = Range prv d # is'"
      using "2.prems" by (auto split: list.splits)
    have "class_loop f t (f d) (m \<or> (schar (f t) \<le> schar (f d) \<and> schar (f prv) \<le> schar (f t))) ps' =
        Some ((m \<or> (schar (f t) \<le> schar (f d) \<and> schar (f prv) \<le> schar (f t))) \<or> list_ex (item_matches f t) is', Some r)"
      using "2.IH"(1) [OF 2 d(1,2)] .
    then show ?thesis using 2 d by auto
  next
    case 3
    then obtain is' where i: "class_items c ps = Some (is', r)" "is = Single c # is'" using "2.prems" by auto
    from "2.IH"(2) [OF 3 i(1), of "m \<or> f t = f c"] show ?thesis using 3 i(2) by auto
  qed (use "2.prems" in auto)
qed simp

lemma match_class_tok:
  assumes "class_tok ps = Some (x, r)"
  shows "match_class f t ps = Some (tok_matches f t x, Some r)"
proof -
  define reverse where "reverse = (ps \<noteq> [] \<and> hd ps = CHR ''^'')"
  define ps1 where "ps1 = (if reverse then tl ps else ps)"
  define cur where "cur = (if reverse then CHR ''^'' else CHR ''['')"
  show ?thesis
  proof (cases "ps1 \<noteq> [] \<and> (hd ps1 = CHR '']'' \<or> hd ps1 = CHR ''-'')")
    case True
    then obtain "is" where i: "class_items (hd ps1) (tl ps1) = Some (is, r)" "x = Class reverse (Single (hd ps1) # is)"
      using assms by (auto simp: class_tok_def reverse_def ps1_def Let_def)
    show ?thesis
      using True class_loop_items [OF i(1), of f t "f (hd ps1) = f t"] i(2)
      unfolding match_class_def Let_def reverse_def [symmetric] ps1_def [symmetric] by auto
  next
    case False
    then obtain "is" where i: "class_items cur ps1 = Some (is, r)" "x = Class reverse is"
      using assms unfolding class_tok_def Let_def reverse_def [symmetric] ps1_def [symmetric] cur_def [symmetric] by auto
    show ?thesis
      using False class_loop_items [OF i(1), of f t False] i(2)
      unfolding match_class_def Let_def reverse_def [symmetric] ps1_def [symmetric] cur_def [symmetric] by auto
  qed
qed

section \<open>The matcher is right\<close>

text \<open>ABORT means more than FALSE: no end of the text matches either.\<close>

definition right :: "match \<Rightarrow> (char \<Rightarrow> char) \<Rightarrow> tok list \<Rightarrow> string \<Rightarrow> bool" where
  "right r f xs text =
     (case r of
        MATCH_TRUE \<Rightarrow> glob f xs text
      | MATCH_FALSE \<Rightarrow> \<not> glob f xs text
      | MATCH_ABORT \<Rightarrow> \<forall>k. \<not> glob f xs (drop k text))"

lemma glob_star: "glob f (Star # xs) s \<longleftrightarrow> (\<exists>k. glob f xs (drop k s))"
proof
  assume "\<exists>k. glob f xs (drop k s)"
  then obtain k where "glob f xs (drop k s)" ..
  then have "glob f xs (drop (min k (length s)) s)" by (cases "k \<le> length s") simp_all
  then show "glob f (Star # xs) s" by (auto intro!: exI [of _ "min k (length s)"])
qed auto

lemma glob_stars: "glob f (replicate n Star @ Star # xs) s \<longleftrightarrow> glob f (Star # xs) s"
proof (induction n arbitrary: s)
  case (Suc n)
  have "glob f (Star # Star # xs) s \<longleftrightarrow> glob f (Star # xs) s"
    unfolding glob_star by (metis add_0 drop_0 drop_drop)
  then show ?case using Suc by (simp add: glob_star del: glob.simps)
qed simp

lemma glob_tok: "x \<noteq> Star \<Longrightarrow> glob f (x # xs) s \<longleftrightarrow> (\<exists>t ts. s = t # ts \<and> tok_matches f t x \<and> glob f xs ts)"
  by (cases x; cases s) auto

text \<open>A piece that takes one character off the text.\<close>

lemma right_step:
  assumes "x \<noteq> Star" "right r f xs ts" "tok_matches f t x"
  shows "right r f (x # xs) (t # ts)"
proof -
  have "\<not> glob f (x # xs) (drop k (t # ts))" if "\<forall>k. \<not> glob f xs (drop k ts)" for k
  proof
    assume "glob f (x # xs) (drop k (t # ts))"
    then obtain u us where u: "drop k (t # ts) = u # us" "glob f xs us" using assms(1) by (auto simp: glob_tok)
    then have "us = drop k ts" by (cases k) (auto simp: drop_Suc dest: arg_cong [where f = tl] simp flip: tl_drop drop_tl)
    with u(2) that show False by simp
  qed
  then show ?thesis using assms by (cases r) (auto simp: right_def glob_tok)
qed

lemma right_false: "x \<noteq> Star \<Longrightarrow> \<not> tok_matches f t x \<Longrightarrow> right MATCH_FALSE f (x # xs) (t # ts)"
  by (simp add: right_def glob_tok)

lemma tokens_stars:
  "tokens p = Some xs \<Longrightarrow> \<exists>n ys. xs = replicate n Star @ ys \<and> tokens (dropWhile (\<lambda>x. x = CHR ''*'') p) = Some ys"
proof (induction p arbitrary: xs)
  case (Cons c p)
  show ?case
  proof (cases "c = CHR ''*''")
    case True
    then obtain ys where ys: "tokens p = Some ys" "xs = Star # ys" using Cons.prems by auto
    from Cons.IH [OF ys(1)] obtain n zs where "ys = replicate n Star @ zs" "tokens (dropWhile (\<lambda>x. x = CHR ''*'') p) = Some zs" by blast
    then show ?thesis using ys(2) True by (intro exI [of _ "Suc n"] exI [of _ zs]) simp
  qed (use Cons.prems in \<open>auto intro: exI [of _ 0]\<close>)
qed simp

lemma tokens_first:
  "tokens (c # ps) = Some xs \<Longrightarrow> c \<noteq> CHR ''*'' \<Longrightarrow> \<exists>x ys. xs = x # ys \<and> x \<noteq> Star"
  by (auto simp: class_tok_def Let_def split: if_splits list.splits option.splits)

lemma do_match_right:
  "tokens p = Some xs \<Longrightarrow> \<exists>r. do_match f s p = Some r \<and> right r f xs s"
  "tokens q = Some ys \<Longrightarrow> (\<And>u. glob f ys u \<Longrightarrow> u \<noteq> []) \<Longrightarrow> \<exists>r. match_star f s q = Some r \<and> right r f (Star # ys) s"
proof (induction f s p and f s q arbitrary: xs and ys rule: do_match_match_star.induct)
  case (1 f s)
  then show ?case by (auto simp: right_def)
next
  case (2 f s c ps)
  show ?case
  proof (cases "c = CHR ''*''")
    case True
    obtain n ys where ys: "xs = replicate n Star @ Star # ys" "tokens (dropWhile (\<lambda>x. x = CHR ''*'') ps) = Some ys"
    proof -
      obtain zs where zs: "tokens ps = Some zs" "xs = Star # zs" using 2(6) True by auto
      from tokens_stars [OF zs(1)] obtain n ys where "zs = replicate n Star @ ys" "tokens (dropWhile (\<lambda>x. x = CHR ''*'') ps) = Some ys" by blast
      then show thesis using that [of n ys] zs(2) by (simp add: replicate_app_Cons_same)
    qed
    let ?q = "dropWhile (\<lambda>x. x = CHR ''*'') ps"
    show ?thesis
    proof (cases "?q = []")
      case q: True
      have "ys = []" using ys(2) unfolding q by simp
      then have "right MATCH_TRUE f xs s" using ys(1) glob_stars [of f n "[]" s] by (auto simp: right_def glob_star intro: exI [of _ "length s"])
      then show ?thesis using True q by simp
    next
      case False
      then obtain d ds where d: "?q = d # ds" "d \<noteq> CHR ''*''" using hd_dropWhile [OF False] by (cases ?q) auto
      then obtain x zs where "ys = x # zs" "x \<noteq> Star" using tokens_first [of d ds ys] ys(2) by auto
      then have "u \<noteq> []" if "glob f ys u" for u using that by (auto simp: glob_tok)
      from "2.IH"(1) [OF True refl False ys(2) this] obtain r where "match_star f s ?q = Some r" "right r f (Star # ys) s" by blast
      moreover from this(2) have "right r f xs s" using ys(1) glob_stars [of f n ys] by (cases r) (auto simp: right_def)
      ultimately show ?thesis using True False by (auto simp: Let_def)
    qed
  next
    case False
    note nostar = this
    obtain x ys where x: "xs = x # ys" "x \<noteq> Star" using tokens_first [OF 2(6) False] by blast
    show ?thesis
    proof (cases s)
      case Nil
      then show ?thesis using x False by (auto simp: right_def glob_tok)
    next
      case (Cons t ts)
      have step: "\<exists>r. do_match f s (c # ps) = Some r \<and> right r f xs s"
        if "do_match f s (c # ps) = (if tok_matches f t x then do_match f ts qs else Some MATCH_FALSE)"
          and "tok_matches f t x \<Longrightarrow> \<exists>r. do_match f ts qs = Some r \<and> right r f ys ts" for qs
        using that right_step [OF x(2)] right_false [OF x(2)] x(1) Cons by (cases "tok_matches f t x") auto
      consider (esc) "c = CHR 92" | (any) "c = CHR ''?''" | (cls) "c = CHR ''[''" | (lit) "c \<noteq> CHR 92" "c \<noteq> CHR ''?''" "c \<noteq> CHR ''[''" by blast
      then show ?thesis
      proof cases
        case esc
        then obtain d qs where d: "ps = d # qs" "tokens qs = Some ys" "x = Lit d" using 2(6) x(1) by (auto split: list.splits)
        show ?thesis
        proof (rule step [of qs])
          show "do_match f s (c # ps) = (if tok_matches f t x then do_match f ts qs else Some MATCH_FALSE)" using esc d Cons by simp
          assume "tok_matches f t x"
          then show "\<exists>r. do_match f ts qs = Some r \<and> right r f ys ts" using "2.IH"(2) [OF nostar Cons esc d(1) _ d(2)] d(3) by simp
        qed
      next
        case any
        then have d: "tokens ps = Some ys" "x = Any_Char" using 2(6) x(1) by auto
        show ?thesis
        proof (rule step [of ps])
          show "do_match f s (c # ps) = (if tok_matches f t x then do_match f ts ps else Some MATCH_FALSE)" using any d Cons by simp
          show "\<exists>r. do_match f ts ps = Some r \<and> right r f ys ts" using "2.IH"(3) [OF nostar Cons _ any d(1)] any by simp
        qed
      next
        case cls
        then obtain qs where d: "class_tok ps = Some (x, qs)" "tokens qs = Some ys" using 2(6) x(1) by (auto split: option.splits)
        note m = match_class_tok [OF d(1), of f t]
        show ?thesis
        proof (rule step [of qs])
          show "do_match f s (c # ps) = (if tok_matches f t x then do_match f ts qs else Some MATCH_FALSE)" using cls m Cons by simp
          assume "tok_matches f t x"
          then show "\<exists>r. do_match f ts qs = Some r \<and> right r f ys ts" using "2.IH"(4) [OF nostar Cons _ _ cls m refl _ refl d(2)] cls by simp
        qed
      next
        case lit
        then have d: "tokens ps = Some ys" "x = Lit c" using 2(6) x(1) nostar by auto
        show ?thesis
        proof (rule step [of ps])
          show "do_match f s (c # ps) = (if tok_matches f t x then do_match f ts ps else Some MATCH_FALSE)" using lit nostar d Cons by simp
          assume "tok_matches f t x"
          then show "\<exists>r. do_match f ts ps = Some r \<and> right r f ys ts" using "2.IH"(5) [OF nostar Cons lit _ d(1)] d(2) by simp
        qed
      qed
    qed
  qed
next
  case (3 f q)
  then show ?case using 3(2) [of "[]"] by (auto simp: right_def glob_star)
next
  case (4 f t ts q)
  from "4.IH"(1) [OF "4.prems"(1)] obtain r where r: "do_match f (t # ts) q = Some r" "right r f ys (t # ts)" by blast
  show ?case
  proof (cases "r = MATCH_FALSE")
    case True
    from "4.IH"(2) [OF r(1) _ "4.prems"] obtain r2 where r2: "match_star f ts q = Some r2" "right r2 f (Star # ys) ts"
      using True by auto
    have "\<not> glob f ys (t # ts)" using r(2) True by (simp add: right_def)
    then have gl: "glob f (Star # ys) (t # ts) \<longleftrightarrow> glob f (Star # ys) ts"
      unfolding glob_star by (metis drop_0 drop_Suc_Cons not0_implies_Suc)
    have "r2 = MATCH_ABORT \<Longrightarrow> \<not> glob f (Star # ys) (drop k (t # ts))" for k
      using r2(2) gl by (cases k) (auto simp: right_def simp del: glob.simps dest: spec [of _ 0])
    then have "right r2 f (Star # ys) (t # ts)" using r2(2) gl by (cases r2) (auto simp: right_def simp del: glob.simps)
    then show ?thesis using r(1) True r2(1) by simp
  next
    case False
    have "right r f (Star # ys) (t # ts)"
    proof (cases r)
      case MATCH_TRUE
      then have "glob f ys (drop 0 (t # ts))" using r(2) by (simp add: right_def)
      then have "glob f (Star # ys) (t # ts)" unfolding glob_star by blast
      then show ?thesis using MATCH_TRUE by (simp add: right_def del: glob.simps)
    next
      case MATCH_ABORT
      then have "\<not> glob f (Star # ys) (drop k (t # ts))" for k
        using r(2) unfolding glob_star drop_drop by (simp add: right_def del: drop_Suc_Cons)
      then show ?thesis using MATCH_ABORT by (simp add: right_def del: glob.simps)
    qed (use False in simp)
    then show ?thesis using r(1) False by simp
  qed
qed

lemma matched: "right r f xs s \<Longrightarrow> r = MATCH_TRUE \<longleftrightarrow> glob f xs s"
  by (cases r) (auto simp: right_def dest: spec [of _ 0])

lemma glob_just_star: "glob f [Star] s"
  unfolding glob_star by (auto intro: exI [of _ "length s"])

text \<open>
  C34. The pattern matcher is right. For every pattern whose brackets are closed and that does not end in
  a backslash, \<open>wildmat\<close> reads nothing behind the pattern and answers exactly what the pattern
  means, for every text: a character stands for itself, \<open>?\<close> for any one, a class for any of its
  characters and ranges, or for none of them, and \<open>*\<close> for any sequence. Cutting the search short with
  ABORT never changes the answer. The same holds for \<open>wildmatcase\<close> with both sides in capitals.
\<close>

theorem wildmat_is_glob:
  assumes "tokens p = Some xs"
  shows "wildmat s p = Some (glob (\<lambda>c. c) xs s) \<and> wildmatcase s p = Some (glob toupper xs s)"
proof (cases "p = ''*''")
  case True
  then have "xs = [Star]" using assms by simp
  then show ?thesis using True glob_just_star by (simp add: wildmat_def wildmatcase_def del: glob.simps)
next
  case False
  obtain r r' where "do_match (\<lambda>c. c) s p = Some r" "right r (\<lambda>c. c) xs s" "do_match toupper s p = Some r'" "right r' toupper xs s"
    using do_match_right(1) [OF assms] by metis
  then show ?thesis
    using False matched by (auto simp: wildmat_def wildmatcase_def DoMatch_def DoMatchCaseInsensitive_def)
qed

theorem wildmat_is_glob_witness:
  "\<exists>xs. tokens ''[^a-c]*.t'' = Some xs \<and> wildmat ''l_1.t'' ''[^a-c]*.t'' = Some (glob (\<lambda>c. c) xs ''l_1.t'') \<and>
     glob (\<lambda>c. c) xs ''l_1.t'' \<and> \<not> glob (\<lambda>c. c) xs ''b.t'' \<and> wildmat ''b.t'' ''[^a-c]*.t'' = Some False"
proof -
  let ?xs = "[Class True [Single CHR ''a'', Range CHR ''a'' CHR ''c''], Star, Lit CHR ''.'', Lit CHR ''t'']"
  have xs: "tokens ''[^a-c]*.t'' = Some ?xs" by (simp add: class_tok_def)
  have "glob (\<lambda>c. c) (Star # [Lit CHR ''.'', Lit CHR ''t'']) ''_1.t''" unfolding glob_star by (rule exI [of _ 2]) simp
  then have "glob (\<lambda>c. c) ?xs ''l_1.t''" by (simp add: schar_def del: glob.simps(2))
  moreover have no: "\<not> glob (\<lambda>c. c) ?xs ''b.t''" by (simp add: schar_def del: glob.simps(2))
  moreover have "wildmat ''b.t'' ''[^a-c]*.t'' = Some False" using wildmat_is_glob [OF xs, of "''b.t''"] no by (simp only: simp_thms)
  ultimately show ?thesis using xs wildmat_is_glob [OF xs, of "''l_1.t''"] by blast
qed

end
