(* ===== verification/Ulist.thy ===== *)
theory Ulist
  imports Neo_Err
begin

text \<open>
  The growable pointer array of clearsilver/util/ulist.c. The block \<open>items\<close> has \<open>max\<close> slots of
  which the first \<open>num\<close> are in use; a slot never written is \<open>None\<close>. An operation is \<open>None\<close> when
  it accesses a slot outside the block, reads one never written or computes a capacity beyond
  \<open>INT_MAX\<close>, \<open>Inl e\<close> when it returns the error \<open>e\<close>, and otherwise \<open>Inr\<close> of what it stores through
  its pointer argument. The answer of \<open>realloc\<close> is an argument.
\<close>

section \<open>Data and operations\<close>

record 'a ulist =
  ul_flags :: int
  ul_items :: "'a option list"
  ul_num :: nat
  ul_max :: nat

definition check_resize :: "bool \<Rightarrow> nat \<Rightarrow> 'a ulist \<Rightarrow> (int + 'a ulist) option" where
  "check_resize ok sz ul =
     (if sz > ul_max ul then do {
        doubled \<leftarrow> c_int (ul_max ul * 2);
        new_size \<leftarrow> (if sz > doubled then c_int (sz + ul_max ul) else Some doubled);
        Some (if \<not> ok then Inl NERR_NOMEM
              else Inr (ul\<lparr>ul_items := ul_items ul @ replicate (new_size - length (ul_items ul)) None,
                           ul_max := new_size\<rparr>)) }
      else Some (Inr ul))"

definition uListInit :: "bool \<Rightarrow> bool \<Rightarrow> nat \<Rightarrow> int \<Rightarrow> int + 'a ulist" where
  "uListInit ul_ok items_ok sz flags =
     (let sz = (if sz = 0 then 10 else sz) in
      if \<not> ul_ok then Inl NERR_NOMEM
      else if \<not> items_ok then Inl NERR_NOMEM
      else Inr \<lparr>ul_flags = flags, ul_items = replicate sz None, ul_num = 0, ul_max = sz\<rparr>)"

definition uListAppend :: "bool \<Rightarrow> 'a \<Rightarrow> 'a ulist \<Rightarrow> ((int + unit) \<times> 'a ulist) option" where
  "uListAppend ok data ul =
     do {
       r \<leftarrow> check_resize ok (ul_num ul + 1) ul;
       (case r of
          Inl e \<Rightarrow> Some (Inl e, ul)
        | Inr ul \<Rightarrow>
            if ul_num ul < length (ul_items ul)
            then Some (Inr (), ul\<lparr>ul_items := (ul_items ul)[ul_num ul := Some data], ul_num := ul_num ul + 1\<rparr>)
            else None) }"

text \<open>\<open>uListvInit\<close> appends its arguments up to the NULL; on an error the list is destroyed.\<close>

fun append_args :: "bool list \<Rightarrow> 'a list \<Rightarrow> 'a ulist \<Rightarrow> (int + 'a ulist) option" where
  "append_args oks [] ul = Some (Inr ul)"
| "append_args oks (it # its) ul = do {
     (r, ul') \<leftarrow> uListAppend (case oks of [] \<Rightarrow> True | b # _ \<Rightarrow> b) it ul;
     (case r of Inl e \<Rightarrow> Some (Inl e) | Inr _ \<Rightarrow> append_args (tl oks) its ul') }"

definition uListvInit :: "bool \<Rightarrow> bool \<Rightarrow> bool list \<Rightarrow> 'a list \<Rightarrow> (int + 'a ulist) option" where
  "uListvInit ul_ok items_ok oks args =
     (case uListInit ul_ok items_ok 0 0 of Inl e \<Rightarrow> Some (Inl e) | Inr ul \<Rightarrow> append_args oks args ul)"

definition slot :: "'a ulist \<Rightarrow> int \<Rightarrow> 'a option" where
  "slot ul x = (if 0 \<le> x \<and> x < int (length (ul_items ul)) then ul_items ul ! nat x else None)"

definition uListPop :: "'a ulist \<Rightarrow> ((int + 'a) \<times> 'a ulist) option" where
  "uListPop ul =
     (if ul_num ul = 0 then Some (Inl NERR_OUTOFRANGE, ul)
      else do {
        data \<leftarrow> slot ul (int (ul_num ul) - 1);
        Some (Inr data, ul\<lparr>ul_num := ul_num ul - 1\<rparr>) })"

definition uListInsert :: "bool \<Rightarrow> int \<Rightarrow> 'a \<Rightarrow> 'a ulist \<Rightarrow> ((int + unit) \<times> 'a ulist) option" where
  "uListInsert ok x data ul =
     (let x = (if x < 0 then int (ul_num ul) + x else x) in
      if x \<ge> int (ul_num ul) then Some (Inl NERR_OUTOFRANGE, ul)
      else do {
        r \<leftarrow> check_resize ok (ul_num ul + 1) ul;
        (case r of
           Inl e \<Rightarrow> Some (Inl e, ul)
         | Inr ul \<Rightarrow>
             if x < 0 \<or> length (ul_items ul) \<le> ul_num ul then None
             else let i = nat x; it = ul_items ul; n = ul_num ul in
               Some (Inr (), ul\<lparr>ul_items := take i it @ [Some data] @ take (n - i) (drop i it) @ drop (n + 1) it,
                                ul_num := n + 1\<rparr>)) })"

definition uListDelete :: "int \<Rightarrow> 'a ulist \<Rightarrow> ((int + 'a) \<times> 'a ulist) option" where
  "uListDelete x ul =
     (let x = (if x < 0 then int (ul_num ul) + x else x) in
      if x \<ge> int (ul_num ul) then Some (Inl NERR_OUTOFRANGE, ul)
      else do {
        data \<leftarrow> slot ul x;
        (let i = nat x; it = ul_items ul; n = ul_num ul in
         Some (Inr data, ul\<lparr>ul_items := take i it @ take (n - i - 1) (drop (i + 1) it) @ drop (n - 1) it,
                            ul_num := n - 1\<rparr>)) })"

definition uListGet :: "int \<Rightarrow> 'a ulist \<Rightarrow> (int + 'a) option" where
  "uListGet x ul =
     (let x = (if x < 0 then int (ul_num ul) + x else x) in
      if x \<ge> int (ul_num ul) then Some (Inl NERR_OUTOFRANGE)
      else if x < 0 then Some (Inl NERR_OUTOFRANGE)
      else do { data \<leftarrow> slot ul x; Some (Inr data) })"

definition uListSet :: "int \<Rightarrow> 'a \<Rightarrow> 'a ulist \<Rightarrow> ((int + unit) \<times> 'a ulist) option" where
  "uListSet x data ul =
     (if x \<ge> int (ul_num ul) then Some (Inl NERR_OUTOFRANGE, ul)
      else if x < 0 \<or> length (ul_items ul) \<le> nat x then None
      else Some (Inr (), ul\<lparr>ul_items := (ul_items ul)[nat x := Some data]\<rparr>))"

text \<open>The loop of \<open>uListReverse\<close> from index \<open>i\<close> on.\<close>

function reverse_loop :: "nat \<Rightarrow> nat \<Rightarrow> 'a option list \<Rightarrow> 'a option list" where
  "reverse_loop num i items =
     (if i < num div 2
      then reverse_loop num (i + 1) (items[i := items ! (num - 1 - i), num - 1 - i := items ! i])
      else items)"
  by auto
termination
  by (relation "measure (\<lambda>(num, i, _). num div 2 - i)") auto

declare reverse_loop.simps [simp del]

definition uListReverse :: "'a ulist \<Rightarrow> 'a ulist option" where
  "uListReverse ul =
     (if ul_num ul \<le> length (ul_items ul)
      then Some (ul\<lparr>ul_items := reverse_loop (ul_num ul) 0 (ul_items ul)\<rparr>) else None)"

text \<open>\<open>uListSort\<close> hands the used part of the block to \<open>qsort\<close>, a parameter.\<close>

definition uListSort :: "('a list \<Rightarrow> 'a list) \<Rightarrow> 'a ulist \<Rightarrow> 'a ulist option" where
  "uListSort qsort ul =
     (let used = take (ul_num ul) (ul_items ul) in
      if None \<in> set used then None
      else Some (ul\<lparr>ul_items := map Some (qsort (map the used)) @ drop (ul_num ul) (ul_items ul)\<rparr>))"

text \<open>
  \<open>uListIn\<close> returns a pointer to the slot, here its index; \<open>cmp\<close> is \<open>compareFunc\<close> applied to the
  key, zero meaning equal. \<open>uListSearch\<close> is \<open>bsearch\<close> of the C library with the same arguments.
\<close>

function in_loop :: "nat \<Rightarrow> ('a \<Rightarrow> int) \<Rightarrow> 'a ulist \<Rightarrow> nat option option" where
  "in_loop i cmp ul =
     (if i < ul_num ul then do {
        d \<leftarrow> slot ul (int i);
        if cmp d = 0 then Some (Some i) else in_loop (i + 1) cmp ul }
      else Some None)"
  by auto
termination
  by (relation "measure (\<lambda>(i, _, ul). ul_num ul - i)") auto

declare in_loop.simps [simp del]

definition uListIn :: "('a \<Rightarrow> int) \<Rightarrow> 'a ulist \<Rightarrow> nat option option" where
  "uListIn cmp ul = in_loop 0 cmp ul"

definition uListIndex :: "('a \<Rightarrow> int) \<Rightarrow> 'a ulist \<Rightarrow> int option" where
  "uListIndex cmp ul = do { p \<leftarrow> uListIn cmp ul; Some (case p of None \<Rightarrow> -1 | Some i \<Rightarrow> int i) }"

definition uListLength :: "'a ulist option \<Rightarrow> nat" where
  "uListLength ul = (case ul of None \<Rightarrow> 0 | Some ul \<Rightarrow> ul_num ul)"

text \<open>\<open>uListDestroyFunc\<close> calls the destructor, an operation on the rest of the state, on each item in order.\<close>

function destroy_loop :: "nat \<Rightarrow> ('a \<Rightarrow> 'w \<Rightarrow> 'w option) \<Rightarrow> 'a ulist \<Rightarrow> 'w \<Rightarrow> 'w option" where
  "destroy_loop x f ul w =
     (if x < ul_num ul then do {
        d \<leftarrow> slot ul (int x);
        w' \<leftarrow> f d w;
        destroy_loop (x + 1) f ul w' }
      else Some w)"
  by auto
termination
  by (relation "measure (\<lambda>(x, _, ul, _). ul_num ul - x)") auto

declare destroy_loop.simps [simp del]

definition uListDestroyFunc :: "('a \<Rightarrow> 'w \<Rightarrow> 'w option) option \<Rightarrow> 'a ulist option \<Rightarrow> 'w \<Rightarrow> 'w option" where
  "uListDestroyFunc f ul w =
     (case ul of None \<Rightarrow> Some w
      | Some ul \<Rightarrow> (case f of None \<Rightarrow> Some w | Some f \<Rightarrow> destroy_loop 0 f ul w))"

definition uListDestroy :: "('a \<Rightarrow> 'w \<Rightarrow> 'w option) \<Rightarrow> int \<Rightarrow> 'a ulist option \<Rightarrow> 'w \<Rightarrow> 'w option" where
  "uListDestroy free flags ul w =
     (if flags AND 2 \<noteq> 0 then uListDestroyFunc (Some free) ul w else uListDestroyFunc None ul w)"

section \<open>The list a block holds\<close>

definition ul_rep :: "'a ulist \<Rightarrow> 'a list \<Rightarrow> bool" where
  "ul_rep ul xs \<longleftrightarrow> length (ul_items ul) = ul_max ul \<and> ul_num ul = length xs \<and> length xs \<le> ul_max ul \<and>
     take (length xs) (ul_items ul) = map Some xs"

lemma ul_rep_items: "ul_rep ul xs \<Longrightarrow> \<exists>ys. ul_items ul = map Some xs @ ys"
  by (metis append_take_drop_id ul_rep_def)

lemma slot_rep: "ul_rep ul xs \<Longrightarrow> 0 \<le> x \<Longrightarrow> x < int (length xs) \<Longrightarrow> slot ul x = Some (xs ! nat x)"
  using ul_rep_items [of ul xs] by (auto simp: slot_def ul_rep_def nth_append nat_less_iff)

lemma check_resize_rep:
  assumes "ul_rep ul xs" "check_resize ok (ul_num ul + 1) ul = Some (Inr ul')"
  shows "ul_rep ul' xs" "length xs < length (ul_items ul')" "ul_num ul' = ul_num ul"
  using assms by (auto simp: check_resize_def ul_rep_def bind_eq_Some_conv split: if_splits)

lemma check_resize_ok:
  assumes "ul_rep ul xs" "2 * ul_max ul \<le> INT_MAX"
  shows "\<exists>ul'. check_resize True (ul_num ul + 1) ul = Some (Inr ul')"
proof -
  have "ul_num ul \<le> ul_max ul" using assms(1) by (simp add: ul_rep_def)
  then show ?thesis
    using assms(2) by (cases "ul_num ul + 1 \<le> 2 * ul_max ul") (auto simp: check_resize_def INT_MAX_def bind_eq_Some_conv)
qed

lemma uListInit_rep: "uListInit True True sz flags = Inr ul \<Longrightarrow> ul_rep ul []"
  by (auto simp: uListInit_def ul_rep_def Let_def split: if_splits)

lemma uListAppend_rep:
  assumes "ul_rep ul xs" "check_resize ok (ul_num ul + 1) ul = Some (Inr ul1)"
  shows "\<exists>ul'. uListAppend ok d ul = Some (Inr (), ul') \<and> ul_rep ul' (xs @ [d])"
proof -
  note r = check_resize_rep [OF assms]
  obtain ys where ys: "ul_items ul1 = map Some xs @ ys" using ul_rep_items [OF r(1)] by blast
  then have "ys \<noteq> []" using r(2) by auto
  then show ?thesis
    using assms(2) r ys by (cases ys) (auto simp: uListAppend_def ul_rep_def list_update_append)
qed

lemma split_at: "n \<le> length xs \<Longrightarrow> \<exists>as bs. xs = as @ bs \<and> length as = n"
  by (metis append_take_drop_id length_take min.absorb2)

lemma uListInsert_rep:
  assumes "ul_rep ul xs" "check_resize ok (ul_num ul + 1) ul = Some (Inr ul1)"
    and "i = (if x < 0 then int (length xs) + x else x)" "0 \<le> i" "i < int (length xs)"
  shows "\<exists>ul'. uListInsert ok x d ul = Some (Inr (), ul') \<and> ul_rep ul' (take (nat i) xs @ [d] @ drop (nat i) xs)"
proof -
  note r = check_resize_rep [OF assms(1,2)]
  have n: "ul_num ul = length xs" using assms(1) by (simp add: ul_rep_def)
  obtain as bs where xs: "xs = as @ bs" "length as = nat i" using split_at [of "nat i" xs] assms(4,5) by (auto simp: nat_le_iff)
  obtain ys where ys: "ul_items ul1 = map Some xs @ ys" using ul_rep_items [OF r(1)] by blast
  with r(2) obtain y ys' where y: "ys = y # ys'" by (cases ys) auto
  have x: "(if x < 0 then int (ul_num ul) + x else x) = i" using assms(3) n by simp
  have "uListInsert ok x d ul = Some (Inr (), ul1\<lparr>ul_items := map Some (as @ d # bs) @ ys', ul_num := length xs + 1\<rparr>)"
    unfolding uListInsert_def x Let_def assms(2) using assms(4,5) n r(3) ys y xs by simp
  moreover have "ul_rep (ul1\<lparr>ul_items := map Some (as @ d # bs) @ ys', ul_num := length xs + 1\<rparr>) (as @ d # bs)"
    using r(1) ys y xs by (simp add: ul_rep_def)
  ultimately show ?thesis using xs by simp
qed

lemma uListDelete_rep:
  assumes "ul_rep ul xs" "i = (if x < 0 then int (length xs) + x else x)" "0 \<le> i" "i < int (length xs)"
  shows "\<exists>ul'. uListDelete x ul = Some (Inr (xs ! nat i), ul') \<and> ul_rep ul' (take (nat i) xs @ drop (Suc (nat i)) xs)"
proof -
  have n: "ul_num ul = length xs" using assms(1) by (simp add: ul_rep_def)
  obtain as cs where "xs = as @ cs" "length as = nat i" using split_at [of "nat i" xs] assms(3,4) by (auto simp: nat_le_iff)
  with assms(3,4) obtain b bs where xs: "xs = as @ b # bs" "length as = nat i" by (cases cs) auto
  obtain ys where ys: "ul_items ul = map Some xs @ ys" using ul_rep_items [OF assms(1)] by blast
  have x: "(if x < 0 then int (ul_num ul) + x else x) = i" using assms(2) n by simp
  define zs where "zs = drop (length xs - 1) (ul_items ul)"
  have lz: "length zs = length ys + 1" using ys xs by (simp add: zs_def)
  have "uListDelete x ul = Some (Inr b, ul\<lparr>ul_items := map Some (as @ bs) @ zs, ul_num := length xs - 1\<rparr>)"
    unfolding uListDelete_def x Let_def using assms(3,4) n ys xs slot_rep [OF assms(1,3,4)]
    by (simp add: zs_def nth_append)
  moreover have "ul_rep (ul\<lparr>ul_items := map Some (as @ bs) @ zs, ul_num := length xs - 1\<rparr>) (as @ bs)"
    using assms(1) ys xs lz by (simp add: ul_rep_def)
  ultimately show ?thesis using xs by (simp add: nth_append)
qed

lemma reverse_loop_correct:
  assumes "num \<le> length items" "i \<le> num div 2"
    and "\<And>j. j < num \<Longrightarrow> items ! j = (if j < i \<or> num - 1 - j < i then orig ! (num - 1 - j) else orig ! j)"
    and "\<And>j. num \<le> j \<Longrightarrow> j < length items \<Longrightarrow> items ! j = orig ! j" "length items = length orig"
  shows "length (reverse_loop num i items) = length orig \<and>
     (\<forall>j < length orig. reverse_loop num i items ! j = (if j < num then orig ! (num - 1 - j) else orig ! j))"
  using assms
proof (induction num i items rule: reverse_loop.induct)
  case (1 num i items)
  show ?case
  proof (cases "i < num div 2")
    case True
    let ?it = "items[i := items ! (num - 1 - i), num - 1 - i := items ! i]"
    have lt: "num - 1 - i < num" "i < num" "i < num - 1 - i" using True by auto
    have "?it ! j = (if j < i + 1 \<or> num - 1 - j < i + 1 then orig ! (num - 1 - j) else orig ! j)" if "j < num" for j
    proof -
      consider "j = i" | "j = num - 1 - i" | "j \<noteq> i" "j \<noteq> num - 1 - i" by blast
      then show ?thesis
      proof cases
        case 1
        then show ?thesis using "1.prems"(1,3) lt by simp
      next
        case 2
        then have "num - 1 - j = i" using lt by simp
        then show ?thesis using 2 "1.prems"(1,3) lt by simp
      next
        case 3
        then have "num - 1 - j \<noteq> i" using that by auto
        then show ?thesis using 3 "1.prems"(1,3) that lt by (auto simp: less_Suc_eq)
      qed
    qed
    moreover have "?it ! j = orig ! j" if "num \<le> j" "j < length ?it" for j
      using that lt "1.prems"(4) by simp
    ultimately show ?thesis
      using "1.IH" [OF True] True "1.prems"(1,5) by (subst (1 2) reverse_loop.simps) simp
  next
    case False
    then have i: "i = num div 2" using "1.prems"(2) by simp
    have "items ! j = orig ! (num - 1 - j)" if "j < num" for j
    proof (cases "j < i \<or> num - 1 - j < i")
      case True
      then show ?thesis using "1.prems"(3) that by simp
    next
      case False
      then have "num - 1 - j = j" using i that by presburger
      then show ?thesis using "1.prems"(3) that False by simp
    qed
    then show ?thesis using False "1.prems" by (subst (1 2) reverse_loop.simps) simp
  qed
qed

lemma uListReverse_rep:
  assumes "ul_rep ul xs"
  shows "\<exists>ul'. uListReverse ul = Some ul' \<and> ul_rep ul' (rev xs)"
proof -
  let ?it = "reverse_loop (length xs) 0 (ul_items ul)"
  have len: "length xs \<le> length (ul_items ul)" using assms by (simp add: ul_rep_def)
  have r: "length ?it = length (ul_items ul)"
    "\<forall>j < length (ul_items ul). ?it ! j = (if j < length xs then ul_items ul ! (length xs - 1 - j) else ul_items ul ! j)"
    using reverse_loop_correct [of "length xs" "ul_items ul" 0 "ul_items ul"] len by auto
  obtain ys where ys: "ul_items ul = map Some xs @ ys" using ul_rep_items [OF assms] by blast
  have "take (length xs) ?it = map Some (rev xs)"
    using r len by (intro nth_equalityI) (auto simp: ys nth_append rev_nth)
  then show ?thesis using assms r(1) len by (auto simp: uListReverse_def ul_rep_def)
qed

lemma in_loop_rep:
  assumes "ul_rep ul xs" "i \<le> length xs"
  shows "in_loop i cmp ul = Some (map_option ((+) i) (if \<exists>d \<in> set (drop i xs). cmp d = 0
           then Some (length (takeWhile (\<lambda>d. cmp d \<noteq> 0) (drop i xs))) else None))"
  using assms
proof (induction i cmp ul rule: in_loop.induct)
  case (1 i cmp ul)
  show ?case
  proof (cases "i < length xs")
    case True
    then have d: "drop i xs = xs ! i # drop (Suc i) xs" by (simp add: Cons_nth_drop_Suc)
    have s: "slot ul (int i) = Some (xs ! i)" using slot_rep [OF "1.prems"(1), of "int i"] True by simp
    have n: "i < ul_num ul" using True "1.prems"(1) by (simp add: ul_rep_def)
    show ?thesis
      using "1.IH" [OF n s] "1.prems" True n s d by (subst in_loop.simps) auto
  next
    case False
    then show ?thesis using "1.prems" by (subst in_loop.simps) (simp add: ul_rep_def)
  qed
qed

section \<open>The interface of a list\<close>

datatype 'a uop =
    UAppend bool 'a | UPop | UInsert bool int 'a | UDelete int | UGet int | USet int 'a | UReverse
  | UIndex "'a \<Rightarrow> int"

datatype 'a ures = UErr int | UDone | UItem 'a | UPos int

fun ulist_step :: "'a uop \<Rightarrow> 'a ulist \<Rightarrow> ('a ures \<times> 'a ulist) option" where
  "ulist_step (UAppend ok d) ul = do { (r, ul') \<leftarrow> uListAppend ok d ul; Some (case_sum UErr (\<lambda>_. UDone) r, ul') }"
| "ulist_step UPop ul = do { (r, ul') \<leftarrow> uListPop ul; Some (case_sum UErr UItem r, ul') }"
| "ulist_step (UInsert ok x d) ul = do { (r, ul') \<leftarrow> uListInsert ok x d ul; Some (case_sum UErr (\<lambda>_. UDone) r, ul') }"
| "ulist_step (UDelete x) ul = do { (r, ul') \<leftarrow> uListDelete x ul; Some (case_sum UErr UItem r, ul') }"
| "ulist_step (UGet x) ul = do { r \<leftarrow> uListGet x ul; Some (case_sum UErr UItem r, ul) }"
| "ulist_step (USet x d) ul = do { (r, ul') \<leftarrow> uListSet x d ul; Some (case_sum UErr (\<lambda>_. UDone) r, ul') }"
| "ulist_step UReverse ul = do { ul' \<leftarrow> uListReverse ul; Some (UDone, ul') }"
| "ulist_step (UIndex cmp) ul = do { r \<leftarrow> uListIndex cmp ul; Some (UPos r, ul) }"

text \<open>
  The specification is Python's list: an index counts from the end when negative. An index before
  the beginning is an error for \<open>uListGet\<close>, and undefined for the other operations, which do not
  check it.
\<close>

definition norm_index :: "int \<Rightarrow> 'a list \<Rightarrow> int" where
  "norm_index x xs = (if x < 0 then int (length xs) + x else x)"

fun list_step :: "'a uop \<Rightarrow> 'a list \<Rightarrow> ('a ures \<times> 'a list) option" where
  "list_step (UAppend ok d) xs = Some (UDone, xs @ [d])"
| "list_step UPop xs = Some (if xs = [] then (UErr NERR_OUTOFRANGE, xs) else (UItem (last xs), butlast xs))"
| "list_step (UInsert ok x d) xs = (let i = norm_index x xs in
     if i \<ge> int (length xs) then Some (UErr NERR_OUTOFRANGE, xs)
     else if i < 0 then None else Some (UDone, take (nat i) xs @ [d] @ drop (nat i) xs))"
| "list_step (UDelete x) xs = (let i = norm_index x xs in
     if i \<ge> int (length xs) then Some (UErr NERR_OUTOFRANGE, xs)
     else if i < 0 then None else Some (UItem (xs ! nat i), take (nat i) xs @ drop (Suc (nat i)) xs))"
| "list_step (UGet x) xs = (let i = norm_index x xs in
     Some (if i \<ge> int (length xs) \<or> i < 0 then (UErr NERR_OUTOFRANGE, xs) else (UItem (xs ! nat i), xs)))"
| "list_step (USet x d) xs =
     (if x \<ge> int (length xs) then Some (UErr NERR_OUTOFRANGE, xs)
      else if x < 0 then None else Some (UDone, xs[nat x := d]))"
| "list_step UReverse xs = Some (UDone, rev xs)"
| "list_step (UIndex cmp) xs =
     Some (UPos (if \<exists>d \<in> set xs. cmp d = 0 then int (length (takeWhile (\<lambda>d. cmp d \<noteq> 0) xs)) else -1), xs)"

text \<open>There is memory to grow the block, and twice its capacity is an \<open>int\<close>.\<close>

fun realloc_ok :: "'a uop \<Rightarrow> 'a ulist \<Rightarrow> bool" where
  "realloc_ok (UAppend ok _) ul = (ok \<and> 2 * ul_max ul \<le> INT_MAX)"
| "realloc_ok (UInsert ok _ _) ul = (ok \<and> 2 * ul_max ul \<le> INT_MAX)"
| "realloc_ok _ ul = True"

lemma ulist_step_sim:
  assumes rep: "ul_rep ul xs" and ok: "realloc_ok x ul" and sp: "list_step x xs = Some (r, xs')"
  shows "\<exists>ul'. ulist_step x ul = Some (r, ul') \<and> ul_rep ul' xs'"
proof (cases x)
  case (UAppend b d)
  then show ?thesis
    using uListAppend_rep [OF rep, of True] check_resize_ok [OF rep] sp ok by fastforce
next
  case UPop
  show ?thesis
  proof (cases xs rule: rev_cases)
    case Nil
    then show ?thesis using UPop rep sp by (auto simp: uListPop_def ul_rep_def)
  next
    case (snoc ys y)
    then show ?thesis
      using UPop rep sp slot_rep [OF rep, of "int (length ys)"]
      by (auto simp: uListPop_def ul_rep_def nth_append dest: arg_cong [where f = "take (length ys)"])
  qed
next
  case (UInsert b j d)
  let ?i = "norm_index j xs"
  have n: "ul_num ul = length xs" using rep by (simp add: ul_rep_def)
  obtain ul1 where ul1: "check_resize True (ul_num ul + 1) ul = Some (Inr ul1)" using check_resize_ok [OF rep] ok UInsert by auto
  show ?thesis
  proof (cases "?i \<ge> int (length xs)")
    case True
    then show ?thesis using UInsert sp rep n by (auto simp: uListInsert_def norm_index_def Let_def)
  next
    case False
    then have "0 \<le> ?i" using UInsert sp by (auto simp: Let_def split: if_splits)
    with uListInsert_rep [OF rep ul1 norm_index_def, of j d] False obtain ul' where
      "uListInsert True j d ul = Some (Inr (), ul')" "ul_rep ul' (take (nat ?i) xs @ [d] @ drop (nat ?i) xs)"
      by auto
    then show ?thesis using UInsert sp ok False \<open>0 \<le> ?i\<close> by (auto simp: Let_def)
  qed
next
  case (UDelete j)
  let ?i = "norm_index j xs"
  have n: "ul_num ul = length xs" using rep by (simp add: ul_rep_def)
  show ?thesis
  proof (cases "?i \<ge> int (length xs)")
    case True
    then show ?thesis using UDelete sp rep n by (auto simp: uListDelete_def norm_index_def Let_def)
  next
    case False
    then have "0 \<le> ?i" using UDelete sp by (auto simp: Let_def split: if_splits)
    with uListDelete_rep [OF rep norm_index_def, of j] False obtain ul' where
      "uListDelete j ul = Some (Inr (xs ! nat ?i), ul')" "ul_rep ul' (take (nat ?i) xs @ drop (Suc (nat ?i)) xs)"
      by auto
    then show ?thesis using UDelete sp False \<open>0 \<le> ?i\<close> by (auto simp: Let_def)
  qed
next
  case (UGet j)
  then show ?thesis
    using slot_rep [OF rep, of "norm_index j xs"] sp rep
    by (auto simp: norm_index_def Let_def uListGet_def ul_rep_def split: if_splits)
next
  case (USet j d)
  then show ?thesis
    using sp rep by (auto simp: uListSet_def ul_rep_def take_update_swap map_update split: if_splits)
next
  case UReverse
  then show ?thesis using uListReverse_rep [OF rep] sp by auto
next
  case (UIndex cmp)
  then show ?thesis
    using in_loop_rep [OF rep, of 0 cmp] sp rep by (auto simp: uListIndex_def uListIn_def)
qed

lemma before_start: "ul_rep ul xs \<Longrightarrow> x < 0 \<Longrightarrow> slot ul x = None"
  by (simp add: slot_def)

lemma ulist_step_undef:
  assumes rep: "ul_rep ul xs" and ok: "realloc_ok x ul" and sp: "list_step x xs = None"
  shows "ulist_step x ul = None"
proof (cases x)
  case (UInsert b j d)
  have n: "ul_num ul = length xs" using rep by (simp add: ul_rep_def)
  obtain ul1 where "check_resize True (ul_num ul + 1) ul = Some (Inr ul1)" using check_resize_ok [OF rep] ok UInsert by auto
  then show ?thesis using UInsert sp ok n by (auto simp: uListInsert_def norm_index_def Let_def split: if_splits)
next
  case (UDelete j)
  have "ul_num ul = length xs" using rep by (simp add: ul_rep_def)
  then show ?thesis using UDelete sp before_start [OF rep] by (auto simp: uListDelete_def norm_index_def Let_def split: if_splits)
next
  case (USet j d)
  then show ?thesis using sp rep by (auto simp: uListSet_def ul_rep_def split: if_splits)
qed (use sp in \<open>simp_all add: Let_def\<close>)

interpretation ul: bisimulation ulist_step list_step ul_rep realloc_ok
  by unfold_locales (rule ulist_step_sim ulist_step_undef; assumption)+

section \<open>Properties\<close>

text \<open>
  C38. The growable array implements a list, exactly. While \<open>realloc\<close> has memory and the capacity stays
  below half of \<open>INT_MAX\<close>, any sequence of appends, pops, inserts, deletes, reads, writes, reversals and
  searches gives the results of the list operations, across reallocations, and never reads an
  unwritten slot; and it accesses memory outside the block exactly where the list operations are
  undefined. A negative index counts from the end for \<open>uListGet\<close>, \<open>uListInsert\<close> and \<open>uListDelete\<close>;
  only \<open>uListGet\<close> refuses one that reaches before the beginning, the others access memory there, and
  \<open>uListSet\<close> writes before the block for every negative index.
\<close>

theorem ulist_refines_list:
  assumes "ul_rep ul xs" "run_ok ulist_step realloc_ok ops ul"
  shows "(case run_ops list_step ops xs of
       None \<Rightarrow> run_ops ulist_step ops ul = None
     | Some (rs, xs') \<Rightarrow> \<exists>ul'. run_ops ulist_step ops ul = Some (rs, ul') \<and> ul_rep ul' xs') \<and>
     (\<forall>x d. x < 0 \<longrightarrow> ulist_step (USet x d) ul = None) \<and>
     (\<forall>x. x < - int (length xs) \<longrightarrow> ulist_step (UDelete x) ul = None \<and> ulist_step (UGet x) ul = Some (UErr NERR_OUTOFRANGE, ul))"
proof (intro conjI allI impI)
  show "case run_ops list_step ops xs of
       None \<Rightarrow> run_ops ulist_step ops ul = None
     | Some (rs, xs') \<Rightarrow> \<exists>ul'. run_ops ulist_step ops ul = Some (rs, ul') \<and> ul_rep ul' xs'"
    using assms by (rule ul.run_exact)
next
  fix x :: int and d
  assume "x < 0"
  then show "ulist_step (USet x d) ul = None" by (simp add: uListSet_def)
next
  fix x :: int
  assume x: "x < - int (length xs)"
  then show "ulist_step (UDelete x) ul = None"
    using ulist_step_undef [OF assms(1), of "UDelete x"] by (simp add: norm_index_def Let_def)
  show "ulist_step (UGet x) ul = Some (UErr NERR_OUTOFRANGE, ul)"
    using x assms(1) by (simp add: uListGet_def ul_rep_def Let_def)
qed

theorem ulist_refines_list_witness:
  "(\<exists>ul'. run_ops ulist_step [UAppend True 1, UAppend True 2, UInsert True (-2) (3::int), UReverse, UGet (-1), UGet 5]
      \<lparr>ul_flags = 0, ul_items = [None], ul_num = 0, ul_max = 1\<rparr>
    = Some ([UDone, UDone, UDone, UDone, UItem 3, UErr NERR_OUTOFRANGE], ul') \<and> ul_rep ul' [2, 1, 3])
   \<and> ulist_step (USet (-1) (7::int)) \<lparr>ul_flags = 0, ul_items = [None], ul_num = 0, ul_max = 1\<rparr> = None"
proof -
  let ?ops = "[UAppend True 1, UAppend True 2, UInsert True (-2) (3::int), UReverse, UGet (-1), UGet 5]"
  let ?ul = "\<lparr>ul_flags = 0, ul_items = [None], ul_num = 0, ul_max = 1\<rparr> :: int ulist"
  have "run_ok ulist_step realloc_ok ?ops ?ul"
    by (auto simp: uListAppend_def uListInsert_def check_resize_def uListReverse_def INT_MAX_def Let_def split: option.splits)
  moreover have rep: "ul_rep ?ul []" by (simp add: ul_rep_def)
  moreover have neg: "(-1 :: int) < 0" by simp
  ultimately have r: "case run_ops list_step ?ops [] of
       None \<Rightarrow> run_ops ulist_step ?ops ?ul = None
     | Some (rs, xs') \<Rightarrow> \<exists>ul'. run_ops ulist_step ?ops ?ul = Some (rs, ul') \<and> ul_rep ul' xs'"
     "ulist_step (USet (-1) 7) ?ul = None"
    using ulist_refines_list [OF rep] by blast+
  have "run_ops list_step ?ops [] = Some ([UDone, UDone, UDone, UDone, UItem 3, UErr NERR_OUTOFRANGE], [2, 1, 3])"
    by (simp add: norm_index_def Let_def)
  with r show ?thesis by (simp only: option.case prod.case)
qed

end
