(* ===== verification/Neo_Registry.thy ===== *)
theory Neo_Registry
  imports Ulist
begin

text \<open>
  The registry of error types: \<open>nerr_register\<close> and \<open>nerr_init\<close> (clearsilver/util/neo_err.c) and
  \<open>lerr_init\<close> (client/lerr.c). Each type has a global integer, set to its position in the list
  \<open>Errors\<close> of names when it is registered; a reply code on the wire is such an integer, so client
  and server agree on the codes only because both register the same names in the same order.
\<close>

datatype errvar = V_NERR_PASS | V_NERR_ASSERT | V_NERR_NOT_FOUND | V_NERR_DUPLICATE | V_NERR_NOMEM | V_NERR_PARSE |
    V_NERR_OUTOFRANGE | V_NERR_SYSTEM | V_NERR_IO | V_NERR_LOCK | V_NERR_DB | V_NERR_EXISTS |
    V_NERR_MAX_RECURSION | V_REP_ERR | V_REP_ERR_VER | V_REP_ERR_SEND | V_REP_ERR_BROKEN |
    V_REP_ERR_UNKREQ | V_REP_ERR_MEM | V_REP_ERR_DB | V_REP_ERR_BUSY | V_REP_ERR_PACK |
    V_REP_ERR_BADPARAM | V_REP_ERR_CACHE_MISS

record registry =
  r_errors :: "string ulist option"
  r_inited :: bool
  r_lerr_inited :: bool
  r_val :: "errvar \<Rightarrow> int"

definition initial_registry :: registry where
  "initial_registry = \<lparr>r_errors = None, r_inited = False, r_lerr_inited = False,
     r_val = (\<lambda>v. if v = V_NERR_PASS then -1 else 0)\<rparr>"

text \<open>\<open>alloc n\<close> is the answer of \<open>realloc\<close> asked for while the list has \<open>n\<close> names.\<close>

definition nerr_register :: "(nat \<Rightarrow> bool) \<Rightarrow> errvar \<Rightarrow> string \<Rightarrow> registry \<Rightarrow> ((int + unit) \<times> registry) option" where
  "nerr_register alloc v name st =
     (case r_errors st of
        None \<Rightarrow> Some (Inl (r_val st V_NERR_ASSERT), st)
      | Some ul \<Rightarrow> do {
          (r, ul') \<leftarrow> uListAppend (alloc (ul_num ul)) name ul;
          (case r of
             Inl e \<Rightarrow> Some (Inl e, st\<lparr>r_errors := Some ul'\<rparr>)
           | Inr _ \<Rightarrow> Some (Inr (), st\<lparr>r_errors := Some ul',
                                      r_val := (r_val st)(v := int (uListLength (Some ul')))\<rparr>)) })"

text \<open>Registering one type after another, up to the first error.\<close>

fun register_all :: "(nat \<Rightarrow> bool) \<Rightarrow> (errvar \<times> string) list \<Rightarrow> registry \<Rightarrow> ((int + unit) \<times> registry) option" where
  "register_all alloc [] st = Some (Inr (), st)"
| "register_all alloc ((v, name) # vs) st = do {
     (r, st') \<leftarrow> nerr_register alloc v name st;
     (case r of Inl e \<Rightarrow> Some (Inl e, st') | Inr _ \<Rightarrow> register_all alloc vs st') }"

definition nerr_types :: "(errvar \<times> string) list" where
  "nerr_types =
     [(V_NERR_PASS, ''InternalPass''),
      (V_NERR_ASSERT, ''AssertError''),
      (V_NERR_NOT_FOUND, ''NotFoundError''),
      (V_NERR_DUPLICATE, ''DuplicateError''),
      (V_NERR_NOMEM, ''MemoryError''),
      (V_NERR_PARSE, ''ParseError''),
      (V_NERR_OUTOFRANGE, ''RangeError''),
      (V_NERR_SYSTEM, ''SystemError''),
      (V_NERR_IO, ''IOError''),
      (V_NERR_LOCK, ''LockError''),
      (V_NERR_DB, ''DBError''),
      (V_NERR_EXISTS, ''ExistsError''),
      (V_NERR_MAX_RECURSION, ''MaxRecursionError'')]"

definition nerr_init :: "bool \<Rightarrow> bool \<Rightarrow> (nat \<Rightarrow> bool) \<Rightarrow> registry \<Rightarrow> ((int + unit) \<times> registry) option" where
  "nerr_init ul_ok items_ok alloc st =
     (if \<not> r_inited st then
        (case uListInit ul_ok items_ok 10 0 of
           Inl e \<Rightarrow> Some (Inl e, st\<lparr>r_errors := None\<rparr>)
         | Inr ul \<Rightarrow> do {
             (r, st') \<leftarrow> register_all alloc nerr_types (st\<lparr>r_errors := Some ul\<rparr>);
             (case r of Inl e \<Rightarrow> Some (Inl e, st') | Inr _ \<Rightarrow> Some (Inr (), st'\<lparr>r_inited := True\<rparr>)) })
      else Some (Inr (), st))"

definition lerr_types :: "(errvar \<times> string) list" where
  "lerr_types =
     [(V_REP_ERR, [CHR 0xE5, CHR 0x90, CHR 0x8E, CHR 0xE5, CHR 0x8F, CHR 0xB0, CHR 0xE5, CHR 0xA4, CHR 0x84, CHR 0xE7,
       CHR 0x90, CHR 0x86, CHR 0xE5, CHR 0xA4, CHR 0xB1, CHR 0xE8, CHR 0xB4, CHR 0xA5]),
      (V_REP_ERR_VER, [CHR 0xE9, CHR 0x80, CHR 0x9A, CHR 0xE4, CHR 0xBF, CHR 0xA1, CHR 0xE5, CHR 0x8D, CHR 0x8F, CHR 0xE8,
       CHR 0xAE, CHR 0xAE, CHR 0xE7, CHR 0x89, CHR 0x88, CHR 0xE6, CHR 0x9C, CHR 0xAC, CHR 0xE4, CHR 0xB8,
       CHR 0x8D, CHR 0xE5, CHR 0xAF, CHR 0xB9]),
      (V_REP_ERR_SEND, [CHR 0xE5, CHR 0x90, CHR 0x8E, CHR 0xE5, CHR 0x8F, CHR 0xB0, CHR 0xE5, CHR 0xA4, CHR 0x84, CHR 0xE7,
       CHR 0x90, CHR 0x86, CHR 0xE5, CHR 0x8F, CHR 0x91, CHR 0xE9, CHR 0x80, CHR 0x81, CHR 0xE5, CHR 0xA4,
       CHR 0xB1, CHR 0xE8, CHR 0xB4, CHR 0xA5]),
      (V_REP_ERR_BROKEN, [CHR 0xE5, CHR 0x90, CHR 0x8E, CHR 0xE5, CHR 0x8F, CHR 0xB0, CHR 0xE7, CHR 0xBD, CHR 0x91, CHR 0xE7,
       CHR 0xBB, CHR 0x9C, CHR 0xE5, CHR 0x8C, CHR 0x85, CHR 0xE4, CHR 0xB8, CHR 0xA2, CHR 0xE5, CHR 0xA4,
       CHR 0xB1]),
      (V_REP_ERR_UNKREQ, [CHR 0xE4, CHR 0xBA, CHR 0x8B, CHR 0xE4, CHR 0xBB, CHR 0xB6, CHR 0xE5, CHR 0x90, CHR 0x8E, CHR 0xE5,
       CHR 0x8F, CHR 0xB0, CHR 0xE6, CHR 0x97, CHR 0xA0, CHR 0xE6, CHR 0x95, CHR 0x88]),
      (V_REP_ERR_MEM, [CHR 0xE5, CHR 0x90, CHR 0x8E, CHR 0xE5, CHR 0x8F, CHR 0xB0, CHR 0xE5, CHR 0x86, CHR 0x85, CHR 0xE5,
       CHR 0xAD, CHR 0x98, CHR 0xE9, CHR 0x94, CHR 0x99, CHR 0xE8, CHR 0xAF, CHR 0xAF]),
      (V_REP_ERR_DB, [CHR 0xE5, CHR 0x90, CHR 0x8E, CHR 0xE5, CHR 0x8F, CHR 0xB0, CHR 0xE6, CHR 0x95, CHR 0xB0, CHR 0xE6,
       CHR 0x8D, CHR 0xAE, CHR 0xE5, CHR 0xBA, CHR 0x93, CHR 0xE9, CHR 0x94, CHR 0x99, CHR 0xE8, CHR 0xAF,
       CHR 0xAF]),
      (V_REP_ERR_BUSY, [CHR 0xE5, CHR 0x90, CHR 0x8E, CHR 0xE5, CHR 0x8F, CHR 0xB0, CHR 0xE7, CHR 0xB9, CHR 0x81, CHR 0xE5,
       CHR 0xBF, CHR 0x99]),
      (V_REP_ERR_PACK, [CHR 0xE5, CHR 0x90, CHR 0x8E, CHR 0xE5, CHR 0x8F, CHR 0xB0, CHR 0xE6, CHR 0x89, CHR 0x93, CHR 0xE5,
       CHR 0x8C, CHR 0x85, CHR 0xE5, CHR 0xA4, CHR 0xB1, CHR 0xE8, CHR 0xB4, CHR 0xA5]),
      (V_REP_ERR_BADPARAM, [CHR 0xE5, CHR 0x90, CHR 0x8E, CHR 0xE5, CHR 0x8F, CHR 0xB0, CHR 0xE5, CHR 0x8F, CHR 0x82, CHR 0xE6,
       CHR 0x95, CHR 0xB0, CHR 0xE9, CHR 0x94, CHR 0x99, CHR 0xE8, CHR 0xAF, CHR 0xAF]),
      (V_REP_ERR_CACHE_MISS, [CHR 0xE5, CHR 0x90, CHR 0x8E, CHR 0xE5, CHR 0x8F, CHR 0xB0, CHR 0xE7, CHR 0xBC, CHR 0x93, CHR 0xE5,
       CHR 0xAD, CHR 0x98, CHR 0xE8, CHR 0x8E, CHR 0xB7, CHR 0xE5, CHR 0x8F, CHR 0x96, CHR 0xE5, CHR 0xA4,
       CHR 0xB1, CHR 0xE8, CHR 0xB4, CHR 0xA5])]"

definition lerr_init :: "bool \<Rightarrow> bool \<Rightarrow> (nat \<Rightarrow> bool) \<Rightarrow> registry \<Rightarrow> ((int + unit) \<times> registry) option" where
  "lerr_init ul_ok items_ok alloc st =
     (if \<not> r_lerr_inited st then do {
        (r, st1) \<leftarrow> nerr_init ul_ok items_ok alloc st;
        (case r of
           Inl e \<Rightarrow> Some (Inl e, st1)
         | Inr _ \<Rightarrow> do {
             (r, st2) \<leftarrow> register_all alloc lerr_types st1;
             (case r of Inl e \<Rightarrow> Some (Inl e, st2) | Inr _ \<Rightarrow> Some (Inr (), st2\<lparr>r_lerr_inited := True\<rparr>)) }) }
      else Some (Inr (), st))"

section \<open>Lemmas\<close>

text \<open>The registry holds the names, in an array of at most twice their number and ten slots.\<close>

definition reg_rep :: "registry \<Rightarrow> string list \<Rightarrow> bool" where
  "reg_rep st names \<longleftrightarrow> (\<exists>ul. r_errors st = Some ul \<and> ul_rep ul names \<and> ul_max ul \<le> 2 * length names + 10)"

lemma nerr_register_rep:
  assumes "reg_rep st names" "\<forall>n. alloc n" "length names < 1000"
  shows "\<exists>st'. nerr_register alloc v name st = Some (Inr (), st') \<and> reg_rep st' (names @ [name]) \<and>
     r_val st' = (r_val st)(v := int (length names) + 1) \<and> r_inited st' = r_inited st \<and>
     r_lerr_inited st' = r_lerr_inited st"
proof -
  obtain ul where ul: "r_errors st = Some ul" "ul_rep ul names" "ul_max ul \<le> 2 * length names + 10"
    using assms(1) by (auto simp: reg_rep_def)
  obtain ul1 where ul1: "check_resize True (ul_num ul + 1) ul = Some (Inr ul1)"
    using check_resize_ok [OF ul(2)] ul(3) assms(3) by (auto simp: INT_MAX_def)
  then have "ul_max ul1 \<le> 2 * length (names @ [name]) + 10"
    using ul(2,3) by (auto simp: check_resize_def ul_rep_def bind_eq_Some_conv split: if_splits)
  moreover from uListAppend_rep [OF ul(2) ul1, of name] obtain ul' where
    "uListAppend True name ul = Some (Inr (), ul')" "ul_rep ul' (names @ [name])" by blast
  moreover from this(1) have "ul_max ul' = ul_max ul1" using ul1 by (auto simp: uListAppend_def split: if_splits)
  ultimately show ?thesis using ul assms(2)
    by (auto simp: nerr_register_def reg_rep_def uListLength_def ul_rep_def)
qed

text \<open>The numbers assigned by a sequence of registrations.\<close>

fun assign :: "nat \<Rightarrow> (errvar \<times> string) list \<Rightarrow> (errvar \<Rightarrow> int) \<Rightarrow> (errvar \<Rightarrow> int)" where
  "assign n [] f = f"
| "assign n ((v, _) # vs) f = assign (n + 1) vs (f(v := int n + 1))"

lemma register_all_rep:
  assumes "reg_rep st names" "\<forall>n. alloc n" "length names + length vs < 1000"
  shows "\<exists>st'. register_all alloc vs st = Some (Inr (), st') \<and> reg_rep st' (names @ map snd vs) \<and>
     r_val st' = assign (length names) vs (r_val st) \<and> r_inited st' = r_inited st \<and>
     r_lerr_inited st' = r_lerr_inited st"
  using assms(1,3)
proof (induction vs arbitrary: st names)
  case Nil
  then show ?case by simp
next
  case (Cons x vs)
  obtain v name where x: "x = (v, name)" by (cases x)
  from nerr_register_rep [OF Cons.prems(1) assms(2)] Cons.prems(2) obtain st1 where st1:
    "nerr_register alloc v name st = Some (Inr (), st1)" "reg_rep st1 (names @ [name])"
    "r_val st1 = (r_val st)(v := int (length names) + 1)" "r_inited st1 = r_inited st"
    "r_lerr_inited st1 = r_lerr_inited st" by fastforce
  from Cons.IH [OF st1(2)] Cons.prems(2) st1 show ?case by (auto simp: x simp del: fun_upd_apply)
qed

fun code :: "errvar \<Rightarrow> int" where
  "code V_NERR_PASS = NERR_PASS"
| "code V_NERR_ASSERT = NERR_ASSERT"
| "code V_NERR_NOT_FOUND = NERR_NOT_FOUND"
| "code V_NERR_DUPLICATE = NERR_DUPLICATE"
| "code V_NERR_NOMEM = NERR_NOMEM"
| "code V_NERR_PARSE = NERR_PARSE"
| "code V_NERR_OUTOFRANGE = NERR_OUTOFRANGE"
| "code V_NERR_SYSTEM = NERR_SYSTEM"
| "code V_NERR_IO = NERR_IO"
| "code V_NERR_LOCK = NERR_LOCK"
| "code V_NERR_DB = NERR_DB"
| "code V_NERR_EXISTS = NERR_EXISTS"
| "code V_NERR_MAX_RECURSION = NERR_MAX_RECURSION"
| "code V_REP_ERR = REP_ERR"
| "code V_REP_ERR_VER = REP_ERR_VER"
| "code V_REP_ERR_SEND = REP_ERR_SEND"
| "code V_REP_ERR_BROKEN = REP_ERR_BROKEN"
| "code V_REP_ERR_UNKREQ = REP_ERR_UNKREQ"
| "code V_REP_ERR_MEM = REP_ERR_MEM"
| "code V_REP_ERR_DB = REP_ERR_DB"
| "code V_REP_ERR_BUSY = REP_ERR_BUSY"
| "code V_REP_ERR_PACK = REP_ERR_PACK"
| "code V_REP_ERR_BADPARAM = REP_ERR_BADPARAM"
| "code V_REP_ERR_CACHE_MISS = REP_ERR_CACHE_MISS"

lemma codes_assigned: "assign 13 lerr_types (assign 0 nerr_types f) = code"
proof
  fix v
  show "assign 13 lerr_types (assign 0 nerr_types f) v = code v"
    by (cases v) (simp_all add: lerr_types_def nerr_types_def)
qed

section \<open>Properties\<close>

text \<open>
  When memory suffices, \<open>lerr_init\<close> at start-up gives every error type of the program its
  documented number (\<open>NERR_PASS\<close> 1 to \<open>NERR_MAX_RECURSION\<close> 13, then \<open>REP_ERR\<close> 14 to
  \<open>REP_ERR_CACHE_MISS\<close> 24), the registry names each number with the type's name, and a second call
  changes nothing.
\<close>

theorem error_numbers:
  assumes "\<forall>n. alloc n"
  shows "\<exists>st. lerr_init True True alloc initial_registry = Some (Inr (), st) \<and> r_val st = code \<and>
     reg_rep st (map snd (nerr_types @ lerr_types)) \<and> lerr_init ul_ok items_ok alloc' st = Some (Inr (), st)"
proof -
  obtain ul :: "string ulist" where ul: "uListInit True True 10 0 = Inr ul" by (simp add: uListInit_def Let_def)
  let ?st0 = "initial_registry\<lparr>r_errors := Some ul\<rparr>"
  have "reg_rep ?st0 []" using uListInit_rep [OF ul] ul by (auto simp: reg_rep_def uListInit_def Let_def)
  moreover have small: "length nerr_types + length lerr_types < 1000" by (simp add: nerr_types_def lerr_types_def)
  ultimately obtain st1 where st1:
    "register_all alloc nerr_types ?st0 = Some (Inr (), st1)" "reg_rep st1 (map snd nerr_types)"
    "r_val st1 = assign 0 nerr_types (r_val ?st0)" "r_lerr_inited st1 = False"
    using register_all_rep [OF _ assms, of ?st0 "[]" nerr_types] by (auto simp: initial_registry_def)
  let ?st1 = "st1\<lparr>r_inited := True\<rparr>"
  have n: "nerr_init True True alloc initial_registry = Some (Inr (), ?st1)"
    using ul st1(1) by (simp add: nerr_init_def initial_registry_def)
  have "reg_rep ?st1 (map snd nerr_types)" using st1(2) by (simp add: reg_rep_def)
  from register_all_rep [OF this assms, of lerr_types] small obtain st2 where st2:
    "register_all alloc lerr_types ?st1 = Some (Inr (), st2)" "reg_rep st2 (map snd nerr_types @ map snd lerr_types)"
    "r_val st2 = assign (length (map snd nerr_types)) lerr_types (r_val st1)" by auto
  have len: "length (map snd nerr_types) = 13" by (simp add: nerr_types_def)
  let ?st = "st2\<lparr>r_lerr_inited := True\<rparr>"
  have "lerr_init True True alloc initial_registry = Some (Inr (), ?st)"
    using n st2(1) by (simp add: lerr_init_def initial_registry_def)
  moreover have "r_val ?st = code" using st2(3) st1(3) len codes_assigned by simp
  moreover have "reg_rep ?st (map snd (nerr_types @ lerr_types))" using st2(2) by (simp add: reg_rep_def)
  moreover have "lerr_init ul_ok items_ok alloc' ?st = Some (Inr (), ?st)" by (simp add: lerr_init_def)
  ultimately show ?thesis by blast
qed

theorem error_numbers_witness:
  "\<exists>st. lerr_init True True (\<lambda>_. True) initial_registry = Some (Inr (), st) \<and> r_val st V_REP_ERR_BUSY = 21"
  using error_numbers [of "\<lambda>_. True"] by force

end
